(* ===== verification/Prelude.thy ===== *)
theory Prelude
  imports Main "HOL-Library.Word" "HOL-Library.Char_ord" "HOL-Library.List_Lexorder"
begin

text \<open>
  Shared vocabulary of the development. The C++ types the program uses everywhere:
  \<open>uint8_t\<close>, \<open>uint32_t\<close> and \<open>uint64_t\<close> (\<open>size_t\<close>) are words of 8, 32 and 64 bits;
  \<open>std::string\<close> is a list of characters, and \<open>std::string::operator<\<close> is the lexicographic
  order on the characters read as unsigned bytes (which is the order that
  \<open>Char_ord\<close> and \<open>List_Lexorder\<close> give); a byte buffer or a file is a list of bytes, and the
  \<open>reinterpret_cast\<close>s between the two are \<open>bytes_of\<close> and \<open>string_of\<close>.
  \<open>std::map\<close> with string keys is the list of its pairs in iteration order
  (\<open>smap\<close>): strictly ascending keys.
\<close>

unbundle bit_operations_syntax

type_synonym byte = "8 word"
type_synonym u32 = "32 word"
type_synonym u64 = "64 word"

named_theorems codec_simps \<open>lengths and round trips of the byte encodings\<close>
named_theorems smap_simps \<open>lookup and order of the ordered maps\<close>
named_theorems io_simps \<open>the host operations when nothing fails\<close>

section \<open>Characters and bytes\<close>

definition byte_of_char :: "char \<Rightarrow> byte" where
  "byte_of_char c = of_char c"

definition char_of_byte :: "byte \<Rightarrow> char" where
  "char_of_byte b = char_of (unat b)"

definition bytes_of :: "string \<Rightarrow> byte list" where
  "bytes_of s = map byte_of_char s"

definition string_of :: "byte list \<Rightarrow> string" where
  "string_of bs = map char_of_byte bs"

lemma unat_byte_of_char [simp]: "unat (byte_of_char c) = of_char c"
proof -
  have "byte_of_char c = of_nat (of_char c)"
    by (simp add: byte_of_char_def of_nat_of_char)
  then have "unat (byte_of_char c) = take_bit LENGTH(8) (of_char c)"
    by (simp add: unat_of_nat take_bit_eq_mod)
  also have "\<dots> = of_char c"
    by (simp add: take_bit_eq_mod)
  finally show ?thesis .
qed

lemma char_of_byte_of_char [simp]: "char_of_byte (byte_of_char c) = c"
  by (simp add: char_of_byte_def)

lemma byte_of_char_of_byte [simp]: "byte_of_char (char_of_byte b) = b"
proof -
  have "unat (byte_of_char (char_of_byte b)) = unat b"
    using unsigned_less [of b, where ?'a = nat] by (simp add: char_of_byte_def)
  then show ?thesis by (simp add: word_unat_eq_iff)
qed

lemma string_of_bytes_of [simp]: "string_of (bytes_of s) = s"
  by (simp add: string_of_def bytes_of_def comp_def)

lemma bytes_of_string_of [simp]: "bytes_of (string_of bs) = bs"
  by (simp add: string_of_def bytes_of_def comp_def)

lemma length_bytes_of [simp]: "length (bytes_of s) = length s"
  by (simp add: bytes_of_def)

lemma length_string_of [simp]: "length (string_of bs) = length bs"
  by (simp add: string_of_def)

lemma bytes_of_Nil [simp]: "bytes_of [] = []"
  and string_of_Nil [simp]: "string_of [] = []"
  by (simp_all add: bytes_of_def string_of_def)

lemma bytes_of_append [simp]: "bytes_of (s @ t) = bytes_of s @ bytes_of t"
  by (simp add: bytes_of_def)

lemma bytes_of_inj [simp]: "bytes_of s = bytes_of t \<longleftrightarrow> s = t"
  by (metis string_of_bytes_of)

section \<open>Words and sizes\<close>

text \<open>A cast of a container's size to a fixed width loses nothing below the width.\<close>

lemma unat_of_nat_u32 [simp]: "n < 2 ^ 32 \<Longrightarrow> unat (of_nat n :: u32) = n"
  by (simp add: unat_of_nat)

lemma unat_of_nat_u64 [simp]: "n < 2 ^ 64 \<Longrightarrow> unat (of_nat n :: u64) = n"
  by (simp add: unat_of_nat)

lemma unat_u32_less [simp]: "unat (x :: u32) < 4294967296"
  using unsigned_less [of x, where ?'a = nat] by simp

lemma unat_u64_less [simp]: "unat (x :: u64) < 18446744073709551616"
  using unsigned_less [of x, where ?'a = nat] by simp

lemma unat_byte_less [simp]: "unat (x :: byte) < 256"
  using unsigned_less [of x, where ?'a = nat] by simp

lemma unat_ucast_u32_u64 [simp]: "unat (ucast (x :: u32) :: u64) = unat x"
proof -
  have "unat x < 2 ^ 64" by (rule less_trans [OF unat_u32_less]) simp
  then show ?thesis by (simp add: unsigned_ucast_eq take_bit_nat_eq_self)
qed

section \<open>Ordered maps\<close>

text \<open>
  \<open>std::map<std::string, V>\<close> as the list of its pairs in iteration order. \<open>smap_put\<close> is
  \<open>m[k] = v\<close>: it overwrites the value of a present key and inserts an absent one at its place.
\<close>

type_synonym 'v smap = "(string \<times> 'v) list"

definition smap_wf :: "'v smap \<Rightarrow> bool" where
  "smap_wf m \<longleftrightarrow> sorted_wrt (<) (map fst m)"

fun smap_put :: "string \<Rightarrow> 'v \<Rightarrow> 'v smap \<Rightarrow> 'v smap" where
  "smap_put k v [] = [(k, v)]"
| "smap_put k v (e # m) =
     (if fst e = k then (k, v) # m
      else if fst e < k then e # smap_put k v m
      else (k, v) # e # m)"

text \<open>The pairs from \<open>lower_bound(lo)\<close> up to \<open>upper_bound(hi)\<close>.\<close>

definition smap_range :: "string \<Rightarrow> string \<Rightarrow> 'v smap \<Rightarrow> 'v smap" where
  "smap_range lo hi m = takeWhile (\<lambda>e. fst e \<le> hi) (dropWhile (\<lambda>e. fst e < lo) m)"

text \<open>The loop \<open>for (auto& e : entries) merged[e.key] = e.value\<close>.\<close>

definition smap_put_all :: "(string \<times> 'v) list \<Rightarrow> 'v smap \<Rightarrow> 'v smap" where
  "smap_put_all es m = fold (\<lambda>(k, v). smap_put k v) es m"

lemma smap_wf_Nil [simp]: "smap_wf []"
  by (simp add: smap_wf_def)

lemma smap_wf_Cons: "smap_wf (e # m) \<longleftrightarrow> (\<forall>x \<in> set m. fst e < fst x) \<and> smap_wf m"
  by (auto simp: smap_wf_def)

lemma smap_wf_append:
  "smap_wf (xs @ ys) \<longleftrightarrow> smap_wf xs \<and> smap_wf ys \<and> (\<forall>x \<in> set xs. \<forall>y \<in> set ys. fst x < fst y)"
  by (auto simp: smap_wf_def sorted_wrt_append)

lemma smap_wf_distinct: "smap_wf m \<Longrightarrow> distinct (map fst m)"
  by (simp add: smap_wf_def strict_sorted_iff)

lemma map_of_smap_put [smap_simps]: "map_of (smap_put k v m) = (map_of m)(k \<mapsto> v)"
  by (induction m) (auto simp: fun_eq_iff)

lemma set_keys_smap_put [smap_simps]: "fst ` set (smap_put k v m) = insert k (fst ` set m)"
  by (induction m) auto

lemma smap_wf_put [smap_simps]: "smap_wf m \<Longrightarrow> smap_wf (smap_put k v m)"
proof (induction m)
  case Nil
  then show ?case by (simp add: smap_wf_Cons)
next
  case (Cons e m)
  have "fst e < fst x" if "x \<in> set (smap_put k v m)" and "fst e < k" for x
  proof -
    from that(1) have "fst x \<in> insert k (fst ` set m)"
      by (metis image_eqI set_keys_smap_put)
    with Cons.prems that(2) show ?thesis by (auto simp: smap_wf_Cons)
  qed
  with Cons show ?case
    by (fastforce simp: smap_wf_Cons)
qed

lemma length_smap_put_le: "length (smap_put k v m) \<le> Suc (length m)"
  by (induction m) auto

lemma map_of_smap_put_all [smap_simps]:
  "map_of (smap_put_all es m) = map_of m ++ map_of (rev es)"
proof (induction es arbitrary: m)
  case (Cons e es)
  then show ?case
    by (cases e) (simp add: smap_put_all_def map_of_smap_put map_add_def fun_eq_iff
        split: option.splits)
qed (simp add: smap_put_all_def)

lemma smap_wf_put_all [smap_simps]: "smap_wf m \<Longrightarrow> smap_wf (smap_put_all es m)"
  by (induction es arbitrary: m) (auto simp: smap_put_all_def smap_wf_put)

lemma length_smap_put_all_le: "length (smap_put_all es m) \<le> length es + length m"
proof (induction es arbitrary: m)
  case (Cons e es)
  have "length (smap_put_all es (smap_put (fst e) (snd e) m))
      \<le> length es + length (smap_put (fst e) (snd e) m)" by (rule Cons.IH)
  also have "\<dots> \<le> length es + Suc (length m)"
    using length_smap_put_le by simp
  finally show ?case by (simp add: smap_put_all_def split_beta)
qed (simp add: smap_put_all_def)

lemma map_of_rev_wf [smap_simps]: "smap_wf m \<Longrightarrow> map_of (rev m) = map_of m"
  by (rule map_of_inject_set [THEN iffD2]) (simp_all add: smap_wf_distinct rev_map [symmetric])

text \<open>On a well-formed map the range is the pairs whose key is between the bounds.\<close>

lemma smap_range_filter [smap_simps]:
  assumes "smap_wf m"
  shows "smap_range lo hi m = filter (\<lambda>e. lo \<le> fst e \<and> fst e \<le> hi) m"
proof -
  have low: "dropWhile (\<lambda>e. fst e < lo) m = filter (\<lambda>e. lo \<le> fst e) m"
    if "smap_wf m" for m :: "'a smap"
    using that
  proof (induction m)
    case (Cons e m)
    show ?case
    proof (cases "fst e < lo")
      case False
      with Cons.prems have "\<forall>x \<in> set m. lo \<le> fst x" by (auto simp: smap_wf_Cons)
      with False show ?thesis by simp
    qed (use Cons in \<open>simp add: smap_wf_Cons\<close>)
  qed simp
  have high: "takeWhile (\<lambda>e. fst e \<le> hi) m = filter (\<lambda>e. fst e \<le> hi) m"
    if "smap_wf m" for m :: "'a smap"
    using that
  proof (induction m)
    case (Cons e m)
    show ?case
    proof (cases "fst e \<le> hi")
      case False
      with Cons.prems have "\<forall>x \<in> set m. \<not> fst x \<le> hi" by (auto simp: smap_wf_Cons)
      with False show ?thesis by simp
    qed (use Cons in \<open>simp add: smap_wf_Cons\<close>)
  qed simp
  have "smap_wf (filter (\<lambda>e. lo \<le> fst e) m)"
    using assms by (induction m) (auto simp: smap_wf_Cons)
  then show ?thesis
    by (simp add: smap_range_def low [OF assms] high conj_commute)
qed

lemma smap_wf_filter [smap_simps]: "smap_wf m \<Longrightarrow> smap_wf (filter P m)"
  by (induction m) (auto simp: smap_wf_Cons)

lemma map_of_filter_keys: "map_of (filter (\<lambda>e. P (fst e)) m) k = (if P k then map_of m k else None)"
  by (induction m) auto

lemma map_of_smap_range [smap_simps]:
  "smap_wf m \<Longrightarrow> map_of (smap_range lo hi m) k = (if lo \<le> k \<and> k \<le> hi then map_of m k else None)"
  using map_of_filter_keys [of "\<lambda>x. lo \<le> x \<and> x \<le> hi" m k] by (simp add: smap_range_filter)

text \<open>Two well-formed maps with the same lookups are the same list.\<close>

lemma smap_eqI:
  assumes "smap_wf m" "smap_wf m'" "map_of m = map_of m'"
  shows "m = m'"
proof -
  have "set m = set m'"
    using assms map_of_inject_set [of m m'] by (simp add: smap_wf_distinct)
  then have "map fst m = map fst m'"
    using assms(1,2) by (intro strict_sorted_equal) (simp_all add: smap_wf_def)
  moreover have "map snd m = map (the \<circ> map_of m) (map fst m)" if "distinct (map fst m)" for m :: "'a smap"
    using that by (auto simp: map_of_is_SomeI)
  ultimately have "map snd m = map snd m'"
    using assms by (metis smap_wf_distinct)
  with \<open>map fst m = map fst m'\<close> show ?thesis
    by (metis zip_map_fst_snd)
qed

section \<open>Layers of maps, newest first\<close>

fun layered :: "'v smap list \<Rightarrow> string \<Rightarrow> 'v option" where
  "layered [] k = None"
| "layered (m # ms) k = (case map_of m k of None \<Rightarrow> layered ms k | Some v \<Rightarrow> Some v)"

lemma layered_append: "layered (ms @ ns) k = (case layered ms k of None \<Rightarrow> layered ns k | Some v \<Rightarrow> Some v)"
  by (induction ms) (auto split: option.splits)

text \<open>Merging the layers oldest first, later values over earlier ones, gives the newest value.\<close>

lemma map_of_merge_layers:
  assumes "\<forall>m \<in> set ms. smap_wf m"
  shows "map_of (fold smap_put_all (rev ms) []) = layered ms"
  using assms
proof (induction ms)
  case (Cons m ms)
  then show ?case
    by (auto simp: map_of_smap_put_all map_of_rev_wf map_add_def fun_eq_iff split: option.splits)
qed auto

lemma smap_wf_merge: "smap_wf acc \<Longrightarrow> smap_wf (fold smap_put_all ms acc)"
  by (induction ms arbitrary: acc) (auto simp: smap_wf_put_all)

lemma length_merge_le: "length (fold smap_put_all ms acc) \<le> sum_list (map length ms) + length acc"
proof (induction ms arbitrary: acc)
  case (Cons m ms)
  have "length (fold smap_put_all ms (smap_put_all m acc))
      \<le> sum_list (map length ms) + length (smap_put_all m acc)" by (rule Cons.IH)
  also have "\<dots> \<le> sum_list (map length ms) + (length m + length acc)"
    using length_smap_put_all_le by simp
  finally show ?case by simp
qed simp

end
