(* ===== verification/Common.thy ===== *)
theory Common
  imports Prelude
begin

text \<open>
  \<open>include/mosaicdb/common.h\<close>: status codes, record types, constants, the little-endian
  integer encodings and the table-driven CRC-32. The decoders take the buffer as a list and
  read the bytes at their indices, as the C++ reads \<open>buf[0] .. buf[3]\<close>.
\<close>

section \<open>Status codes, operations, constants\<close>

datatype Status = OK | NOT_FOUND | CORRUPTION | IO_ERROR | INVALID_ARGUMENT

text \<open>
  \<open>enum class OpType : uint8_t\<close> has a fixed underlying type: a \<open>static_cast\<close> of any byte
  is a value of the type, and a byte other than the two enumerators is \<open>OpOther\<close>.
\<close>

datatype OpType = PUT | DELETE | OpOther byte

definition byte_of_OpType :: "OpType \<Rightarrow> byte" where
  "byte_of_OpType t = (case t of PUT \<Rightarrow> 0x01 | DELETE \<Rightarrow> 0x02 | OpOther b \<Rightarrow> b)"

definition OpType_of_byte :: "byte \<Rightarrow> OpType" where
  "OpType_of_byte b = (if b = 0x01 then PUT else if b = 0x02 then DELETE else OpOther b)"

record Record =
  rec_type :: OpType
  rec_key :: string
  rec_value :: string

definition DEFAULT_MEMTABLE_THRESHOLD :: u64 where
  "DEFAULT_MEMTABLE_THRESHOLD = 4 * 1024 * 1024"

definition SSTABLE_MAGIC :: u32 where
  "SSTABLE_MAGIC = 0x4D534454"

definition TOMBSTONE_VAL_SIZE :: u32 where
  "TOMBSTONE_VAL_SIZE = 0xFFFFFFFF"

definition SPARSE_INDEX_INTERVAL :: nat where
  "SPARSE_INDEX_INTERVAL = 16"

definition SSTABLE_FOOTER_SIZE :: nat where
  "SSTABLE_FOOTER_SIZE = 32"

fun status_to_string :: "Status \<Rightarrow> string" where
  "status_to_string OK = ''OK''"
| "status_to_string NOT_FOUND = ''NOT_FOUND''"
| "status_to_string CORRUPTION = ''CORRUPTION''"
| "status_to_string IO_ERROR = ''IO_ERROR''"
| "status_to_string INVALID_ARGUMENT = ''INVALID_ARGUMENT''"

section \<open>Little-endian integers\<close>

definition encode_u32_le :: "u32 \<Rightarrow> byte list" where
  "encode_u32_le v =
     [ucast v, ucast (drop_bit 8 v), ucast (drop_bit 16 v), ucast (drop_bit 24 v)]"

definition decode_u32_le :: "byte list \<Rightarrow> u32" where
  "decode_u32_le buf =
     ((ucast (buf ! 0) OR push_bit 8 (ucast (buf ! 1)))
       OR push_bit 16 (ucast (buf ! 2))) OR push_bit 24 (ucast (buf ! 3))"

definition encode_u64_le :: "u64 \<Rightarrow> byte list" where
  "encode_u64_le v = map (\<lambda>i. ucast (drop_bit (i * 8) v)) [0..<8]"

definition decode_u64_le :: "byte list \<Rightarrow> u64" where
  "decode_u64_le buf =
     fold (\<lambda>i val. val OR push_bit (i * 8) (ucast (buf ! i))) [0..<8] 0"

section \<open>CRC-32\<close>

definition crc_shift :: "u32 \<Rightarrow> u32" where
  "crc_shift c = (if c AND 1 \<noteq> 0 then drop_bit 1 c XOR 0xEDB88320 else drop_bit 1 c)"

definition build_table :: "u32 list" where
  "build_table = map (\<lambda>i. (crc_shift ^^ 8) (of_nat i)) [0..<256]"

definition crc_update :: "u32 list \<Rightarrow> u32 \<Rightarrow> byte \<Rightarrow> u32" where
  "crc_update tbl crc d = drop_bit 8 crc XOR tbl ! unat (ucast (crc XOR ucast d) :: byte)"

definition crc32_compute :: "byte list \<Rightarrow> u32" where
  "crc32_compute data = foldl (crc_update build_table) 0xFFFFFFFF data XOR 0xFFFFFFFF"

section \<open>Round trips of the integer encodings\<close>

lemma length_encode_u32 [codec_simps, simp]: "length (encode_u32_le v) = 4"
  by (simp add: encode_u32_le_def)

lemma length_encode_u64 [codec_simps, simp]: "length (encode_u64_le v) = 8"
  by (simp add: encode_u64_le_def)

text \<open>One more byte of a value, read at its place, extends the bits read so far.\<close>

lemma take_bit_or_byte:
  fixes v :: "'a::len word"
  shows "take_bit m v OR push_bit m (ucast (ucast (drop_bit m v) :: byte)) = take_bit (m + 8) v"
proof (rule bit_word_eqI)
  fix n assume "n < LENGTH('a)"
  then show "bit (take_bit m v OR push_bit m (ucast (ucast (drop_bit m v) :: byte))) n
      = bit (take_bit (m + 8) v) n"
    by (cases "n < m") (auto simp: bit_simps)
qed

lemma ucast_byte_take_bit:
  "ucast (ucast (v :: 'a::len word) :: byte) = (take_bit 8 v :: 'a word)"
  by (rule bit_word_eqI) (auto simp: bit_simps)

lemma decode_encode_u32 [codec_simps, simp]: "decode_u32_le (encode_u32_le v @ rest) = v"
  using take_bit_or_byte [of 8 v] take_bit_or_byte [of 16 v] take_bit_or_byte [of 24 v]
    take_bit_word_eq_self [of 32 v]
  by (simp add: decode_u32_le_def encode_u32_le_def ucast_byte_take_bit)

lemma upt_8: "[0..<8] = [0, 1, 2, 3, 4, 5, 6, 7::nat]"
  by (simp add: upt_rec)

lemma decode_encode_u64 [codec_simps, simp]: "decode_u64_le (encode_u64_le v @ rest) = v"
  using take_bit_or_byte [of 8 v] take_bit_or_byte [of 16 v] take_bit_or_byte [of 24 v]
    take_bit_or_byte [of 32 v] take_bit_or_byte [of 40 v] take_bit_or_byte [of 48 v]
    take_bit_or_byte [of 56 v] take_bit_word_eq_self [of 64 v]
  by (simp add: decode_u64_le_def encode_u64_le_def upt_8 ucast_byte_take_bit)

lemmas decode_encode_exact [codec_simps, simp] =
  decode_encode_u32 [where rest = "[]", simplified] decode_encode_u64 [where rest = "[]", simplified]

lemma encode_decode_u32:
  assumes "length bs = 4"
  shows "encode_u32_le (decode_u32_le bs) = bs"
proof -
  obtain a b c d where bs: "bs = [a, b, c, d]"
    using assms by (auto simp: numeral_eq_Suc length_Suc_conv)
  have "ucast (decode_u32_le bs) = a" "ucast (drop_bit 8 (decode_u32_le bs)) = b"
    "ucast (drop_bit 16 (decode_u32_le bs)) = c" "ucast (drop_bit 24 (decode_u32_le bs)) = d"
    unfolding bs by (rule bit_word_eqI, auto simp: decode_u32_le_def bit_simps dest: bit_imp_le_length)+
  then show ?thesis by (simp add: encode_u32_le_def bs)
qed

section \<open>CRC-32: the table against polynomial division\<close>

text \<open>
  The reference is the definition of CRC-32 in the standards: the remainder of the message divided by the generator polynomial
  \<open>x^32 + x^26 + x^23 + x^22 + x^16 + x^12 + x^11 + x^10 + x^8 + x^7 + x^5 + x^4 + x^2 + x + 1\<close>. The register holds the remainder
  with its highest power first and starts with ones; the bits of a byte enter lowest first; the result is read in the reverse
  order and complemented. It shares no definition with the code, which keeps the register reversed and goes byte by byte
  through a table.
\<close>

definition crc32_poly :: u32 where
  "crc32_poly = sum_list (map (\<lambda>k. 2 ^ k) [26, 23, 22, 16, 12, 11, 10, 8, 7, 5, 4, 2, 1, 0])"

definition division_step :: "u32 \<Rightarrow> bool \<Rightarrow> u32" where
  "division_step rem b = (if bit rem 31 \<noteq> b then push_bit 1 rem XOR crc32_poly else push_bit 1 rem)"

definition message_bits :: "byte list \<Rightarrow> bool list" where
  "message_bits data = concat (map (\<lambda>d. map (bit d) [0..<8]) data)"

definition crc32_ref :: "byte list \<Rightarrow> u32" where
  "crc32_ref data = NOT (word_reverse (foldl division_step (NOT 0) (message_bits data)))"

text \<open>
  The byte-wise register between the two: it has the table of the code without its entries. From the linearity and
  injectivity of the shift a change of one byte always changes the checksum.
\<close>

definition crc_byte_ref :: "u32 \<Rightarrow> byte \<Rightarrow> u32" where
  "crc_byte_ref crc d = (crc_shift ^^ 8) (crc XOR ucast d)"

lemma crc_shift_odd: "crc_shift c = (if odd c then drop_bit 1 c XOR 0xEDB88320 else drop_bit 1 c)"
  by (simp add: crc_shift_def and_one_eq odd_iff_mod_2_eq_one)

lemma odd_xor_word: "odd (a XOR b) \<longleftrightarrow> odd a \<noteq> odd b" for a b :: u32
  by (simp flip: bit_0 add: bit_xor_iff)

lemma crc_shift_xor: "crc_shift (a XOR b) = crc_shift a XOR crc_shift b"
  by (auto simp: crc_shift_odd odd_xor_word drop_bit_xor ac_simps
      simp flip: xor.assoc simp del: drop_bit_eq_div)

lemma crc_shift_pow_xor: "(crc_shift ^^ k) (a XOR b) = (crc_shift ^^ k) a XOR (crc_shift ^^ k) b"
  by (induction k) (simp_all add: crc_shift_xor)

lemma crc_shift_pow_low_zero: "take_bit k x = 0 \<Longrightarrow> (crc_shift ^^ k) x = drop_bit k x"
proof (induction k)
  case (Suc k)
  have "take_bit k x = take_bit k (take_bit (Suc k) x)" by simp
  then have zero: "take_bit k x = 0" using Suc.prems by simp
  have "\<not> bit (take_bit (Suc k) x) k" using Suc.prems by simp
  then have "\<not> bit x k" by (simp add: bit_take_bit_iff)
  then have "even (drop_bit k x)" by (simp add: bit_iff_odd_drop_bit)
  then have "crc_shift (drop_bit k x) = drop_bit (Suc k) x"
    by (simp add: crc_shift_odd drop_bit_drop_bit)
  with Suc.IH [OF zero] show ?case by simp
qed simp

lemma crc_shift_eq_0: "crc_shift c = 0 \<longleftrightarrow> c = 0"
proof
  assume z: "crc_shift c = 0"
  have "bit (crc_shift c) 31" if "odd c"
    using that by (auto simp: crc_shift_odd bit_simps dest: bit_imp_le_length)
  with z have ev: "even c" by auto
  with z have d: "drop_bit 1 c = 0" by (simp add: crc_shift_odd)
  show "c = 0"
  proof (rule bit_word_eqI)
    fix n
    show "bit c n = bit 0 n"
    proof (cases n)
      case 0
      with ev show ?thesis by (simp add: bit_0)
    next
      case (Suc m)
      have "bit c (Suc m) = bit (drop_bit 1 c) m" by (simp add: bit_drop_bit_eq)
      with d Suc show ?thesis by simp
    qed
  qed
qed (simp add: crc_shift_def)

lemma crc_shift_pow_eq_0: "(crc_shift ^^ k) c = 0 \<longleftrightarrow> c = 0"
  by (induction k) (simp_all add: crc_shift_eq_0)

lemma xor_word_eq_0: "a XOR b = 0 \<longleftrightarrow> a = b" for a b :: u32
proof
  assume "a XOR b = 0"
  then have "(a XOR b) XOR b = b" by simp
  then show "a = b" by (simp add: xor.assoc)
qed simp

lemma crc_shift_pow_inj: "(crc_shift ^^ k) a = (crc_shift ^^ k) b \<longleftrightarrow> a = b"
  by (metis crc_shift_pow_eq_0 crc_shift_pow_xor xor_word_eq_0)

lemma build_table_nth: "build_table ! unat b = (crc_shift ^^ 8) (ucast b)" for b :: byte
  by (simp add: build_table_def del: funpow.simps)

lemma crc_update_ref: "crc_update build_table crc d = crc_byte_ref crc d"
proof -
  define x where "x = crc XOR ucast d"
  define hi where "hi = x XOR take_bit 8 x"
  have hi0: "take_bit 8 hi = 0"
    by (rule bit_word_eqI) (auto simp: hi_def bit_simps)
  have "drop_bit 8 hi = drop_bit 8 crc"
    by (rule bit_word_eqI) (auto simp: hi_def x_def bit_simps dest: bit_imp_le_length)
  moreover have "x = hi XOR take_bit 8 x"
    by (simp add: hi_def xor.assoc)
  ultimately have "(crc_shift ^^ 8) x = drop_bit 8 crc XOR (crc_shift ^^ 8) (take_bit 8 x)"
    using crc_shift_pow_xor [of 8 hi "take_bit 8 x"] crc_shift_pow_low_zero [OF hi0] by metis
  moreover have "take_bit 8 x = ucast (ucast x :: byte)"
    by (simp add: ucast_byte_take_bit)
  ultimately show ?thesis
    by (simp only: crc_update_def crc_byte_ref_def build_table_nth x_def [symmetric])
qed

lemma foldl_crc_update: "foldl (crc_update build_table) c ds = foldl crc_byte_ref c ds"
  by (induction ds arbitrary: c) (simp_all add: crc_update_ref)

lemma xor_word_cancel:
  fixes a b c :: u32
  shows "a XOR c = b XOR c \<longleftrightarrow> a = b" and "c XOR a = c XOR b \<longleftrightarrow> a = b"
proof -
  show r: "a XOR c = b XOR c \<longleftrightarrow> a = b" for a b
  proof
    assume "a XOR c = b XOR c"
    then have "(a XOR c) XOR c = (b XOR c) XOR c" by simp
    then show "a = b" by (simp add: xor.assoc)
  qed simp
  show "c XOR a = c XOR b \<longleftrightarrow> a = b"
    using r by (simp add: xor.commute)
qed

lemma ucast_byte_u32_byte: "ucast (ucast d :: u32) = d" for d :: byte
  by (rule bit_word_eqI) (auto simp: bit_simps)

lemma ucast_byte_u32_inj: "(ucast d :: u32) = ucast d' \<longleftrightarrow> d = d'" for d d' :: byte
proof
  assume "(ucast d :: u32) = ucast d'"
  then have "(ucast (ucast d :: u32) :: byte) = ucast (ucast d' :: u32)" by simp
  then show "d = d'" by (simp only: ucast_byte_u32_byte)
qed simp

lemma crc_byte_ref_inj_crc: "crc_byte_ref c d = crc_byte_ref c' d \<longleftrightarrow> c = c'"
  by (simp only: crc_byte_ref_def crc_shift_pow_inj xor_word_cancel)

lemma crc_byte_ref_inj_data: "crc_byte_ref c d = crc_byte_ref c d' \<longleftrightarrow> d = d'"
  by (simp only: crc_byte_ref_def crc_shift_pow_inj xor_word_cancel ucast_byte_u32_inj)

lemma foldl_crc_inj: "foldl crc_byte_ref c ds = foldl crc_byte_ref c' ds \<longleftrightarrow> c = c'"
  by (induction ds arbitrary: c c') (simp_all add: crc_byte_ref_inj_crc)

lemma crc32_one_byte: "crc32_compute (pre @ x # post) = crc32_compute (pre @ y # post) \<longleftrightarrow> x = y"
  by (simp add: crc32_compute_def foldl_crc_update xor_word_cancel foldl_crc_inj crc_update_ref crc_byte_ref_inj_data)

lemma crc32_update_byte:
  assumes "i < length bs" "x \<noteq> bs ! i"
  shows "crc32_compute (bs[i := x]) \<noteq> crc32_compute bs"
  using assms crc32_one_byte [of "take i bs" x "drop (Suc i) bs" "bs ! i"]
  by (simp add: upd_conv_take_nth_drop id_take_nth_drop [symmetric])

section \<open>The reversed register\<close>

lemma word_reverse_xor: "word_reverse (a XOR b) = word_reverse a XOR word_reverse b" for a b :: u32
  by (rule bit_word_eqI) (auto simp: bit_simps)

lemma word_reverse_shift: "word_reverse (push_bit 1 a) = drop_bit 1 (word_reverse a)" for a :: u32
  by (rule bit_word_eqI) (auto simp: bit_simps simp del: push_bit_Suc push_bit_of_1 push_bit_numeral push_bit_eq_mult)

lemma word_reverse_poly: "word_reverse crc32_poly = 0xEDB88320"
  by code_simp

text \<open>Feeding one bit into the reversed register is a shift of the register with the bit added at its low end.\<close>

lemma division_step_reversed: "word_reverse (division_step rem b) = crc_shift (word_reverse rem XOR of_bool b)"
proof -
  have o: "odd (word_reverse rem XOR of_bool b) \<longleftrightarrow> bit rem 31 \<noteq> b"
    by (simp flip: bit_0 add: bit_simps)
  have d: "drop_bit 1 (word_reverse rem XOR of_bool b) = drop_bit 1 (word_reverse rem)"
    by (rule bit_word_eqI) (auto simp: bit_simps)
  show ?thesis
    unfolding division_step_def crc_shift_odd o d by (simp only: word_reverse_xor word_reverse_shift word_reverse_poly if_distrib [of word_reverse])
qed

lemma crc_shift_pow_push: "k < 32 \<Longrightarrow> (crc_shift ^^ k) (push_bit k (of_bool b)) = of_bool b"
proof -
  assume "k < 32"
  then have "drop_bit k (push_bit k (of_bool b)) = (of_bool b :: u32)" by (intro bit_word_eqI) (auto simp: bit_simps)
  then show ?thesis by (subst crc_shift_pow_low_zero) (simp_all add: take_bit_push_bit)
qed

lemma division_bits:
  "k \<le> 8 \<Longrightarrow> word_reverse (foldl division_step rem (map (bit d) [0..<k])) = (crc_shift ^^ k) (word_reverse rem XOR take_bit k (ucast d))"
  for d :: byte
proof (induction k)
  case (Suc k)
  have t: "take_bit (Suc k) (ucast d :: u32) = take_bit k (ucast d) XOR push_bit k (of_bool (bit d k))"
    using Suc.prems by (intro bit_word_eqI) (auto simp: bit_simps less_Suc_eq)
  have "(crc_shift ^^ k) (word_reverse rem XOR take_bit (Suc k) (ucast d))
      = (crc_shift ^^ k) (word_reverse rem XOR take_bit k (ucast d)) XOR of_bool (bit d k)"
    using Suc.prems unfolding t xor.assoc [symmetric] by (subst crc_shift_pow_xor) (simp add: crc_shift_pow_push)
  with Suc show ?case by (simp add: division_step_reversed)
qed simp

lemma division_byte: "word_reverse (foldl division_step rem (map (bit d) [0..<8])) = crc_byte_ref (word_reverse rem) d" for d :: byte
proof -
  have "take_bit 8 (ucast d :: u32) = ucast d" by (rule bit_word_eqI) (auto simp: bit_simps dest: bit_imp_le_length)
  then show ?thesis using division_bits [of 8 rem d] unfolding crc_byte_ref_def by simp
qed

lemma division_message: "word_reverse (foldl division_step rem (message_bits bs)) = foldl crc_byte_ref (word_reverse rem) bs"
  by (induction bs arbitrary: rem) (simp_all add: message_bits_def division_byte del: upt_rec_numeral)

section \<open>Property of the checksum\<close>

text \<open>
  C36: the checksum is CRC-32. For every byte sequence the loop over the 256-entry table gives the complement of the reversed
  remainder of the message divided by the generator polynomial of CRC-32, bit by bit.
\<close>

theorem crc32_table_driven: "crc32_compute bs = crc32_ref bs"
proof -
  have ones: "word_reverse (NOT 0) = (NOT 0 :: u32)" by (rule bit_word_eqI) (auto simp: bit_simps)
  have mask: "(0xFFFFFFFF :: u32) = NOT 0" by code_simp
  have "crc32_compute bs = NOT (foldl (crc_update build_table) (NOT 0) bs)"
    unfolding crc32_compute_def mask by simp
  then show ?thesis unfolding crc32_ref_def division_message ones foldl_crc_update .
qed

end
