(* ===== verification/Host.thy ===== *)
theory Host
  imports Common
begin

text \<open>
  The operating system as the program sees it: the regular files of the data directory, in
  directory order, and a script of answers that the system calls consume one by one. A call with
  no answer left completes, so a host with the empty script is one on which nothing fails; a
  script lets any single call fail or transfer fewer bytes than asked. The read and write loops
  of \<open>src/storage/wal.cpp\<close> are here, because they are the loops around these calls.
\<close>

section \<open>Files and scripted answers\<close>

datatype io_answer = Done | Fail | Short nat

record host =
  files :: "(string \<times> byte list) list"
  script :: "io_answer list"

definition next_io :: "host \<Rightarrow> io_answer \<times> host" where
  "next_io h = (case script h of [] \<Rightarrow> (Done, h) | a # s \<Rightarrow> (a, h\<lparr>script := s\<rparr>))"

text \<open>A call that either succeeds or fails (\<open>open\<close>, \<open>fsync\<close>, \<open>ftruncate\<close>, \<open>fopen\<close>, \<open>remove\<close>).\<close>

definition call_ok :: "host \<Rightarrow> bool \<times> host" where
  "call_ok h = (case next_io h of (a, h') \<Rightarrow> (a \<noteq> Fail, h'))"

fun dir_put :: "string \<Rightarrow> byte list \<Rightarrow> (string \<times> byte list) list \<Rightarrow> (string \<times> byte list) list" where
  "dir_put p bs [] = [(p, bs)]"
| "dir_put p bs (f # fs) = (if fst f = p then (p, bs) # fs else f # dir_put p bs fs)"

definition dir_remove :: "string \<Rightarrow> (string \<times> byte list) list \<Rightarrow> (string \<times> byte list) list" where
  "dir_remove p fs = filter (\<lambda>f. fst f \<noteq> p) fs"

definition file_bytes :: "host \<Rightarrow> string \<Rightarrow> byte list" where
  "file_bytes h p = (case map_of (files h) p of None \<Rightarrow> [] | Some bs \<Rightarrow> bs)"

definition set_file :: "string \<Rightarrow> byte list \<Rightarrow> host \<Rightarrow> host" where
  "set_file p bs h = h\<lparr>files := dir_put p bs (files h)\<rparr>"

section \<open>The write and read loops\<close>

text \<open>
  \<open>write(fd, data, n)\<close> at the end of the file: the number of bytes the call reports and the host
  after it. It never reports more than it was given.
\<close>

definition mosaic_write :: "host \<Rightarrow> string \<Rightarrow> byte list \<Rightarrow> int \<times> host" where
  "mosaic_write h p data =
     (case next_io h of
        (Fail, h') \<Rightarrow> (-1, h')
      | (Done, h') \<Rightarrow> (int (length data), set_file p (file_bytes h' p @ data) h')
      | (Short m, h') \<Rightarrow>
          (int (min m (length data)), set_file p (file_bytes h' p @ take m data) h'))"

lemma mosaic_write_bound: "mosaic_write h p data = (n, h') \<Longrightarrow> n \<le> int (length data)"
  by (auto simp: mosaic_write_def split: prod.splits io_answer.splits)

function write_all :: "host \<Rightarrow> string \<Rightarrow> byte list \<Rightarrow> bool \<times> host" where
  "write_all h p data =
     (if data = [] then (True, h)
      else case mosaic_write h p data of
        (n, h') \<Rightarrow> if n \<le> 0 then (False, h') else write_all h' p (drop (nat n) data))"
  by pat_completeness auto
termination
  by (relation "measure (\<lambda>(h, p, data). length data)") auto

declare write_all.simps [simp del]

text \<open>
  \<open>read(fd, buf, n)\<close> at the cursor, the cursor being the bytes that are left; at the end of the
  file the call reports 0.
\<close>

definition mosaic_read :: "host \<Rightarrow> byte list \<Rightarrow> nat \<Rightarrow> int \<times> host" where
  "mosaic_read h rest len =
     (case next_io h of
        (Fail, h') \<Rightarrow> (-1, h')
      | (Done, h') \<Rightarrow> (int (min len (length rest)), h')
      | (Short m, h') \<Rightarrow> (int (min m (min len (length rest))), h'))"

lemma mosaic_read_bound:
  "mosaic_read h rest len = (n, h') \<Longrightarrow> n \<le> int len \<and> n \<le> int (length rest)"
  by (auto simp: mosaic_read_def split: prod.splits io_answer.splits)

function read_all :: "host \<Rightarrow> byte list \<Rightarrow> nat \<Rightarrow> byte list option \<times> byte list \<times> host" where
  "read_all h rest len =
     (if len = 0 then (Some [], rest, h)
      else case mosaic_read h rest len of
        (n, h') \<Rightarrow>
          if n \<le> 0 then (None, rest, h')
          else case read_all h' (drop (nat n) rest) (len - nat n) of
            (r, rest', h'') \<Rightarrow> (map_option (\<lambda>bs. take (nat n) rest @ bs) r, rest', h''))"
  by pat_completeness auto
termination
  by (relation "measure (\<lambda>(h, rest, len). len)") auto

declare read_all.simps [simp del]

section \<open>Directory lemmas\<close>

lemma map_of_dir_put [simp]: "map_of (dir_put p bs fs) = (map_of fs)(p \<mapsto> bs)"
  by (induction fs) (auto simp: fun_eq_iff)

lemma map_of_dir_remove [simp]: "map_of (dir_remove p fs) = (map_of fs)(p := None)"
  by (induction fs) (auto simp: fun_eq_iff dir_remove_def)

lemma keys_dir_put: "fst ` set (dir_put p bs fs) = insert p (fst ` set fs)"
  by (induction fs) auto

lemma distinct_dir_put: "distinct (map fst fs) \<Longrightarrow> distinct (map fst (dir_put p bs fs))"
proof (induction fs)
  case (Cons f fs)
  then show ?case
    using keys_dir_put [of p bs fs] by (auto simp flip: set_map simp: image_iff)
qed simp

lemma distinct_dir_remove: "distinct (map fst fs) \<Longrightarrow> distinct (map fst (dir_remove p fs))"
  by (simp add: dir_remove_def distinct_map_filter)

lemma files_set_file [simp]: "files (set_file p bs h) = dir_put p bs (files h)"
  and script_set_file [simp]: "script (set_file p bs h) = script h"
  by (simp_all add: set_file_def)

lemma file_bytes_set_file [simp]:
  "file_bytes (set_file p bs h) q = (if q = p then bs else file_bytes h q)"
  by (simp add: file_bytes_def)

lemma dir_put_dir_put [simp]: "dir_put p b (dir_put p a fs) = dir_put p b fs"
  by (induction fs) auto

lemma set_file_set_file [simp]: "set_file p b (set_file p a h) = set_file p b h"
  by (simp add: set_file_def)

lemma file_bytes_script [simp]: "file_bytes (h\<lparr>script := s\<rparr>) p = file_bytes h p"
  by (simp add: file_bytes_def)

section \<open>A host on which nothing fails\<close>

lemma next_io_quiet [io_simps]: "script h = [] \<Longrightarrow> next_io h = (Done, h)"
  by (simp add: next_io_def)

lemma call_ok_quiet [io_simps]: "script h = [] \<Longrightarrow> call_ok h = (True, h)"
  by (simp add: call_ok_def next_io_quiet)

lemma write_all_quiet [io_simps]:
  assumes "script h = []"
  shows "write_all h p data = (True, if data = [] then h else set_file p (file_bytes h p @ data) h)"
proof (cases "data = []")
  case True
  then show ?thesis by (simp add: write_all.simps)
next
  case False
  with assms show ?thesis
    by (simp add: write_all.simps [of h p data] mosaic_write_def next_io_quiet)
      (simp add: write_all.simps [of "set_file p (file_bytes h p @ data) h" p "[]"])
qed

lemma read_all_quiet [io_simps]:
  assumes "script h = []"
  shows "read_all h rest len =
    (if len \<le> length rest then (Some (take len rest), drop len rest, h) else (None, [], h))"
proof (cases "len = 0 \<or> rest = []")
  case True
  with assms show ?thesis
    by (auto simp: read_all.simps [of h rest len] mosaic_read_def next_io_quiet)
next
  case False
  define n where "n = min len (length rest)"
  have n: "0 < n" "n \<le> len" using False by (auto simp: n_def)
  have step: "read_all h rest len =
      (case read_all h (drop n rest) (len - n) of
         (r, rest', h'') \<Rightarrow> (map_option (\<lambda>bs. take n rest @ bs) r, rest', h''))"
    using assms n False
    by (subst read_all.simps) (auto simp: mosaic_read_def next_io_quiet n_def min_def)
  show ?thesis
  proof (cases "len \<le> length rest")
    case True
    with step show ?thesis by (simp add: n_def read_all.simps [of h _ 0])
  next
    case False
    then have "n = length rest" by (simp add: n_def)
    with step assms False show ?thesis
      by (simp add: read_all.simps [of h "[]" "len - length rest"] mosaic_read_def next_io_quiet)
  qed
qed

section \<open>A host on which calls may fail\<close>

lemma next_io_files: "next_io h = (a, h') \<Longrightarrow> files h' = files h"
  by (auto simp: next_io_def split: list.splits)

lemma call_ok_files: "call_ok h = (b, h') \<Longrightarrow> files h' = files h"
  by (auto simp: call_ok_def dest: next_io_files split: prod.splits)

lemma next_io_file_bytes: "next_io h = (a, h') \<Longrightarrow> file_bytes h' p = file_bytes h p"
  by (simp add: file_bytes_def next_io_files)

lemma mosaic_write_appends:
  "mosaic_write h p data = (n, h') \<Longrightarrow>
   file_bytes h' p = file_bytes h p @ take (nat n) data"
  by (auto simp: mosaic_write_def next_io_file_bytes min_def split: prod.splits io_answer.splits)

text \<open>
  Whatever the system answers, \<open>write_all\<close> appends a prefix of its data, and all of it exactly
  when it reports success.
\<close>

lemma write_all_appends:
  "write_all h p data = (ok, h') \<Longrightarrow>
   \<exists>n \<le> length data. file_bytes h' p = file_bytes h p @ take n data
     \<and> (ok \<longrightarrow> n = length data) \<and> (\<not> ok \<longrightarrow> n < length data)"
proof (induction h p data arbitrary: ok h' rule: write_all.induct)
  case (1 h p data)
  show ?case
  proof (cases "data = []")
    case True
    with "1.prems" show ?thesis by (simp add: write_all.simps)
  next
    case False
    obtain n h1 where w: "mosaic_write h p data = (n, h1)" by fastforce
    note app = mosaic_write_appends [OF w]
    show ?thesis
    proof (cases "n \<le> 0")
      case True
      with False w app "1.prems" show ?thesis
        by (intro exI [of _ 0]) (auto simp: write_all.simps)
    next
      case pos: False
      with False w "1.prems" have "write_all h1 p (drop (nat n) data) = (ok, h')"
        by (simp add: write_all.simps [of h p data])
      from "1.IH" [OF False w [symmetric] pos this] obtain m where
        m: "m \<le> length data - nat n" "file_bytes h' p = file_bytes h1 p @ take m (drop (nat n) data)"
          "ok \<longrightarrow> m = length data - nat n" "\<not> ok \<longrightarrow> m < length data - nat n"
        by auto
      have "nat n \<le> length data" using mosaic_write_bound [OF w] by simp
      with m app show ?thesis
        by (intro exI [of _ "nat n + m"]) (auto simp: take_add)
    qed
  qed
qed

lemma read_all_Some:
  "read_all h rest len = (Some bs, rest', h') \<Longrightarrow> rest = bs @ rest' \<and> length bs = len"
proof (induction h rest len arbitrary: bs rest' h' rule: read_all.induct)
  case (1 h rest len)
  show ?case
  proof (cases "len = 0")
    case True
    with "1.prems" show ?thesis by (simp add: read_all.simps)
  next
    case False
    obtain n h1 where r: "mosaic_read h rest len = (n, h1)" by fastforce
    with False "1.prems" have pos: "\<not> n \<le> 0"
      by (auto simp: read_all.simps [of h rest len])
    with False r "1.prems" obtain bs' where
      rec: "read_all h1 (drop (nat n) rest) (len - nat n) = (Some bs', rest', h')"
      and bs: "bs = take (nat n) rest @ bs'"
      by (auto simp: read_all.simps [of h rest len] split: prod.splits)
    from "1.IH" [OF False r [symmetric] pos rec]
    have "drop (nat n) rest = bs' @ rest'" "length bs' = len - nat n" by auto
    with bs mosaic_read_bound [OF r] show ?thesis
      by (metis add_diff_cancel_left' append_assoc append_take_drop_id diff_diff_cancel length_append
          length_take min.absorb2 nat_le_iff le_add_diff_inverse)
  qed
qed

end
