(* ===== verification/Wal.thy ===== *)
theory Wal
  imports Host
begin

text \<open>
  \<open>src/storage/wal.cpp\<close>: the write-ahead log. A log object is the name of its file; the bytes are
  in the host. A record is \<open>[crc 4][type 1][key size 4][value size 4][key][value]\<close>, appended at the
  end of the file and read back from its start until the first record that is cut short, too
  large or fails its checksum.
\<close>

section \<open>The operations\<close>

type_synonym exn = string

definition HEADER_SIZE :: nat where
  "HEADER_SIZE = 4 + 1 + 4 + 4"

definition wal_open :: "host \<Rightarrow> string \<Rightarrow> (exn + string) \<times> host" where
  "wal_open h path =
     (case call_ok h of
        (False, h1) \<Rightarrow> (Inl (''Failed to open WAL file: '' @ path), h1)
      | (True, h1) \<Rightarrow>
          (Inr path, if path \<in> fst ` set (files h1) then h1 else set_file path [] h1))"

text \<open>
  The sum \<open>1 + 4 + 4 + key_size + val_size\<close> is computed in \<open>uint32_t\<close>, so the payload is cut at its
  value modulo \<open>2 ^ 32\<close>.
\<close>

definition wal_payload :: "OpType \<Rightarrow> string \<Rightarrow> string \<Rightarrow> byte list" where
  "wal_payload t key value =
     (let key_size = of_nat (length key) :: u32;
          val_size = of_nat (length value) :: u32;
          payload_size = 1 + 4 + 4 + key_size + val_size
      in take (unat payload_size)
           (byte_of_OpType t # encode_u32_le key_size @ encode_u32_le val_size
             @ take (unat key_size) (bytes_of key) @ take (unat val_size) (bytes_of value)))"

definition wal_append :: "host \<Rightarrow> string \<Rightarrow> OpType \<Rightarrow> string \<Rightarrow> string \<Rightarrow> Status \<times> host" where
  "wal_append h path t key value =
     (let payload = wal_payload t key value;
          crc = crc32_compute payload
      in case write_all h path (encode_u32_le crc) of
           (False, h1) \<Rightarrow> (IO_ERROR, h1)
         | (True, h1) \<Rightarrow>
             (case write_all h1 path payload of
                (False, h2) \<Rightarrow> (IO_ERROR, h2)
              | (True, h2) \<Rightarrow>
                  (case call_ok h2 of
                     (False, h3) \<Rightarrow> (IO_ERROR, h3)
                   | (True, h3) \<Rightarrow> (OK, h3))))"

function wal_recover_loop :: "host \<Rightarrow> byte list \<Rightarrow> Record list \<times> host" where
  "wal_recover_loop h rest =
     (case read_all h rest HEADER_SIZE of
        (None, _, h1) \<Rightarrow> ([], h1)
      | (Some header, rest1, h1) \<Rightarrow>
          let stored_crc = decode_u32_le header;
              type_byte = header ! 4;
              key_size = decode_u32_le (drop 5 header);
              val_size = decode_u32_le (drop 9 header)
          in if key_size > 10 * 1024 * 1024 \<or> val_size > 100 * 1024 * 1024 then ([], h1)
             else case (if key_size + val_size > 0
                        then read_all h1 rest1 (unat (key_size + val_size))
                        else (Some [], rest1, h1)) of
               (None, _, h2) \<Rightarrow> ([], h2)
             | (Some kv_data, rest2, h2) \<Rightarrow>
                 let payload = type_byte # encode_u32_le key_size @ encode_u32_le val_size @ kv_data;
                     computed_crc = crc32_compute payload
                 in if computed_crc \<noteq> stored_crc then ([], h2)
                    else let rec =
                           \<lparr>rec_type = OpType_of_byte type_byte,
                            rec_key = string_of (take (unat key_size) kv_data),
                            rec_value = (if val_size > 0
                              then string_of (take (unat val_size) (drop (unat key_size) kv_data))
                              else [])\<rparr>
                         in (case wal_recover_loop h2 rest2 of (rs, h3) \<Rightarrow> (rec # rs, h3)))"
  by pat_completeness auto
termination
proof (relation "measure (\<lambda>(h, rest). length rest)", goal_cases)
  case (2 h rest a b header rest1 h1 crc tb ks vs a' b' kv rest2 h2)
  then have "rest = header @ rest1" "length header = HEADER_SIZE"
    using read_all_Some by metis+
  moreover have "length rest2 \<le> length rest1"
    using 2 by (auto split: if_splits dest: read_all_Some [OF sym])
  ultimately show ?case by (simp add: HEADER_SIZE_def)
qed simp

declare wal_recover_loop.simps [simp del]

definition wal_recover :: "host \<Rightarrow> string \<Rightarrow> Record list \<times> host" where
  "wal_recover h path = wal_recover_loop h (file_bytes h path)"

definition wal_clear :: "host \<Rightarrow> string \<Rightarrow> Status \<times> host" where
  "wal_clear h path =
     (case call_ok h of
        (False, h1) \<Rightarrow> (IO_ERROR, h1)
      | (True, h1) \<Rightarrow> (OK, set_file path [] h1))"

definition wal_sync :: "host \<Rightarrow> string \<Rightarrow> Status \<times> host" where
  "wal_sync h path =
     (case call_ok h of (False, h1) \<Rightarrow> (IO_ERROR, h1) | (True, h1) \<Rightarrow> (OK, h1))"

section \<open>Records on disk\<close>

text \<open>What a record is as bytes, and which records the recovery limits accept.\<close>

definition wal_record_bytes :: "Record \<Rightarrow> byte list" where
  "wal_record_bytes r =
     (let payload = wal_payload (rec_type r) (rec_key r) (rec_value r)
      in encode_u32_le (crc32_compute payload) @ payload)"

definition wal_valid :: "Record \<Rightarrow> bool" where
  "wal_valid r \<longleftrightarrow> length (rec_key r) \<le> 10 * 1024 * 1024 \<and> length (rec_value r) \<le> 100 * 1024 * 1024
     \<and> OpType_of_byte (byte_of_OpType (rec_type r)) = rec_type r"

lemma optype_PUT_DELETE [simp]:
  "OpType_of_byte (byte_of_OpType PUT) = PUT" "OpType_of_byte (byte_of_OpType DELETE) = DELETE"
  by (simp_all add: OpType_of_byte_def byte_of_OpType_def)

lemma unat_sum_u32:
  "unat (a :: u32) + unat b < 2 ^ 32 \<Longrightarrow> unat (a + b) = unat a + unat b"
  by (simp add: unat_word_ariths)

lemma unat_size_sum:
  assumes "9 + m + n < 2 ^ 32"
  shows "unat (of_nat m + of_nat n :: u32) = m + n"
    and "unat (1 + 4 + 4 + of_nat m + of_nat n :: u32) = 9 + m + n"
proof -
  have "of_nat m + of_nat n = (of_nat (m + n) :: u32)"
    and "1 + 4 + 4 + of_nat m + of_nat n = (of_nat (9 + m + n) :: u32)" by simp_all
  then show "unat (of_nat m + of_nat n :: u32) = m + n"
    and "unat (1 + 4 + 4 + of_nat m + of_nat n :: u32) = 9 + m + n"
    using assms by (simp_all only: unat_of_nat) simp_all
qed

lemma wal_payload_small:
  assumes "9 + length key + length value < 2 ^ 32"
  shows "wal_payload t key value =
    byte_of_OpType t # encode_u32_le (of_nat (length key)) @ encode_u32_le (of_nat (length value))
      @ bytes_of key @ bytes_of value"
  using assms unat_size_sum [OF assms] by (simp add: wal_payload_def Let_def)

lemma wal_valid_small: "wal_valid r \<Longrightarrow> 9 + length (rec_key r) + length (rec_value r) < 2 ^ 32"
  by (simp add: wal_valid_def)

lemma length_wal_record_bytes:
  "wal_valid r \<Longrightarrow> length (wal_record_bytes r) = 13 + length (rec_key r) + length (rec_value r)"
  by (simp add: wal_record_bytes_def Let_def wal_payload_small [OF wal_valid_small])

section \<open>One step of recovery\<close>

lemma header_fields:
  assumes "header = encode_u32_le c @ tb # encode_u32_le ks @ encode_u32_le vs"
  shows "decode_u32_le header = c" "header ! 4 = tb"
    "decode_u32_le (drop 5 header) = ks" "decode_u32_le (drop 9 header) = vs"
    "length header = HEADER_SIZE"
  using assms by (simp_all add: nth_append drop_append HEADER_SIZE_def)

text \<open>
  The loop at the bytes of one complete record, whatever its checksum field and its contents
  are: it stops when the checksum of the payload is not the stored one and goes on after the
  record otherwise.
\<close>

lemma wal_recover_loop_record:
  assumes quiet: "script h = []"
    and ks: "unat ks \<le> 10 * 1024 * 1024" and vs: "unat vs \<le> 100 * 1024 * 1024"
    and kv: "length kv = unat ks + unat vs"
    and rest: "rest = (encode_u32_le c @ tb # encode_u32_le ks @ encode_u32_le vs) @ kv @ rest'"
  shows "wal_recover_loop h rest =
    (if crc32_compute (tb # encode_u32_le ks @ encode_u32_le vs @ kv) \<noteq> c then ([], h)
     else case wal_recover_loop h rest' of (rs, h') \<Rightarrow>
       (\<lparr>rec_type = OpType_of_byte tb, rec_key = string_of (take (unat ks) kv),
         rec_value = string_of (drop (unat ks) kv)\<rparr> # rs, h'))"
proof -
  define header where "header = encode_u32_le c @ tb # encode_u32_le ks @ encode_u32_le vs"
  note hf = header_fields [OF header_def]
  have r1: "read_all h rest HEADER_SIZE = (Some header, kv @ rest', h)"
    using quiet hf(5) by (simp add: rest header_def [symmetric] read_all_quiet del: append.simps)
  have le: "\<not> ks > 10 * 1024 * 1024" "\<not> vs > 100 * 1024 * 1024"
    using ks vs by (simp_all add: word_less_nat_alt)
  have sum: "unat (ks + vs) = length kv"
    using ks vs by (simp add: unat_sum_u32 kv)
  have r2: "(if ks + vs > 0 then read_all h (kv @ rest') (unat (ks + vs))
      else (Some [], kv @ rest', h)) = (Some kv, rest', h)"
    using quiet sum by (auto simp: read_all_quiet word_gt_0 simp flip: unat_eq_0)
  have v: "(if vs > 0 then string_of (take (unat vs) (drop (unat ks) kv)) else [])
      = string_of (drop (unat ks) kv)"
    using kv by (auto simp: word_gt_0 simp flip: unat_eq_0)
  show ?thesis
    using le by (subst wal_recover_loop.simps) (simp add: r1 r2 hf v Let_def)
qed

lemma wal_recover_loop_good:
  assumes "script h = []" "wal_valid r"
  shows "wal_recover_loop h (wal_record_bytes r @ rest) =
    (case wal_recover_loop h rest of (rs, h') \<Rightarrow> (r # rs, h'))"
proof -
  let ?ks = "of_nat (length (rec_key r)) :: u32" and ?vs = "of_nat (length (rec_value r)) :: u32"
  let ?kv = "bytes_of (rec_key r) @ bytes_of (rec_value r)"
  have u: "unat ?ks = length (rec_key r)" "unat ?vs = length (rec_value r)"
    using assms(2) by (auto simp: wal_valid_def)
  have "wal_record_bytes r @ rest = (encode_u32_le (crc32_compute
        (byte_of_OpType (rec_type r) # encode_u32_le ?ks @ encode_u32_le ?vs @ ?kv))
      @ byte_of_OpType (rec_type r) # encode_u32_le ?ks @ encode_u32_le ?vs) @ ?kv @ rest"
    by (simp add: wal_record_bytes_def Let_def wal_payload_small [OF wal_valid_small [OF assms(2)]])
  from wal_recover_loop_record [OF assms(1) _ _ _ this] show ?thesis
    using assms(2) u by (simp add: wal_valid_def split: prod.splits)
qed

lemma wal_recover_loop_all:
  assumes "script h = []" "\<forall>r \<in> set rs. wal_valid r"
  shows "wal_recover_loop h (concat (map wal_record_bytes rs) @ rest) =
    (case wal_recover_loop h rest of (rs', h') \<Rightarrow> (rs @ rs', h'))"
  using assms(2)
  by (induction rs) (auto simp: wal_recover_loop_good [OF assms(1)] split: prod.splits)

text \<open>A record that is cut short ends the recovery without a record of its own.\<close>

lemma wal_recover_loop_short_header:
  "script h = [] \<Longrightarrow> length rest < HEADER_SIZE \<Longrightarrow> wal_recover_loop h rest = ([], h)"
  by (subst wal_recover_loop.simps) (simp add: read_all_quiet)

lemma wal_recover_loop_Nil [simp]: "script h = [] \<Longrightarrow> wal_recover_loop h [] = ([], h)"
  by (rule wal_recover_loop_short_header) (simp_all add: HEADER_SIZE_def)

lemma wal_recover_loop_short_body:
  assumes quiet: "script h = []"
    and size: "length body < unat (ks + vs)"
    and rest: "rest = (encode_u32_le c @ tb # encode_u32_le ks @ encode_u32_le vs) @ body"
  shows "wal_recover_loop h rest = ([], h)"
proof -
  define header where "header = encode_u32_le c @ tb # encode_u32_le ks @ encode_u32_le vs"
  note hf = header_fields [OF header_def]
  have r1: "read_all h rest HEADER_SIZE = (Some header, body, h)"
    using quiet hf(5) by (simp add: rest header_def [symmetric] read_all_quiet del: append.simps)
  have "ks + vs > 0" using size by (auto simp: word_gt_0)
  moreover have "read_all h body (unat (ks + vs)) = (None, [], h)"
    using quiet size by (simp add: read_all_quiet)
  ultimately show ?thesis
    by (subst wal_recover_loop.simps) (simp add: r1 hf Let_def)
qed

lemma wal_recover_loop_torn:
  assumes "script h = []" "wal_valid r" "n < length (wal_record_bytes r)"
  shows "wal_recover_loop h (take n (wal_record_bytes r)) = ([], h)"
proof (cases "n < HEADER_SIZE")
  case True
  with assms show ?thesis by (intro wal_recover_loop_short_header) simp_all
next
  case False
  let ?ks = "of_nat (length (rec_key r)) :: u32" and ?vs = "of_nat (length (rec_value r)) :: u32"
  let ?kv = "bytes_of (rec_key r) @ bytes_of (rec_value r)"
  have len: "length (wal_record_bytes r) = 13 + length ?kv"
    using assms(2) by (simp add: length_wal_record_bytes)
  have "unat (?ks + ?vs) = length ?kv"
    using unat_size_sum [OF wal_valid_small [OF assms(2)]] by simp
  moreover have "take n (wal_record_bytes r) = (encode_u32_le (crc32_compute
        (byte_of_OpType (rec_type r) # encode_u32_le ?ks @ encode_u32_le ?vs @ ?kv))
      @ byte_of_OpType (rec_type r) # encode_u32_le ?ks @ encode_u32_le ?vs) @ take (n - 13) ?kv"
    using False
    by (simp add: wal_record_bytes_def Let_def wal_payload_small [OF wal_valid_small [OF assms(2)]]
        HEADER_SIZE_def take_Cons' numeral_eq_Suc)
  moreover have "length (take (n - 13) ?kv) < length ?kv"
    using assms(3) len False by (simp only: length_take HEADER_SIZE_def)
  ultimately show ?thesis
    by (intro wal_recover_loop_short_body [OF assms(1)]) simp_all
qed

section \<open>Appending\<close>

text \<open>
  For every behaviour of the host: an append that reports \<open>OK\<close> has added exactly the bytes of its
  record, and one that reports an error has added a prefix of them.
\<close>

lemma wal_append_bytes:
  assumes "wal_append h p t k v = (st, h')"
  shows "\<exists>n \<le> length (wal_record_bytes \<lparr>rec_type = t, rec_key = k, rec_value = v\<rparr>).
    file_bytes h' p = file_bytes h p @ take n (wal_record_bytes \<lparr>rec_type = t, rec_key = k, rec_value = v\<rparr>)
    \<and> (st = OK \<longrightarrow> n = length (wal_record_bytes \<lparr>rec_type = t, rec_key = k, rec_value = v\<rparr>))
    \<and> st \<in> {OK, IO_ERROR}"
proof -
  define payload where "payload = wal_payload t k v"
  define crc where "crc = encode_u32_le (crc32_compute payload)"
  have rb: "wal_record_bytes \<lparr>rec_type = t, rec_key = k, rec_value = v\<rparr> = crc @ payload"
    by (simp add: wal_record_bytes_def payload_def crc_def Let_def)
  obtain ok1 h1 where w1: "write_all h p crc = (ok1, h1)" by fastforce
  obtain n1 where n1: "n1 \<le> length crc" "file_bytes h1 p = file_bytes h p @ take n1 crc"
    "ok1 \<longrightarrow> n1 = length crc" using write_all_appends [OF w1] by blast
  obtain ok2 h2 where w2: "write_all h1 p payload = (ok2, h2)" by fastforce
  obtain n2 where n2: "n2 \<le> length payload" "file_bytes h2 p = file_bytes h1 p @ take n2 payload"
    "ok2 \<longrightarrow> n2 = length payload" using write_all_appends [OF w2] by blast
  obtain ok3 h3 where w3: "call_ok h2 = (ok3, h3)" by fastforce
  have f3: "file_bytes h3 p = file_bytes h2 p"
    using call_ok_files [OF w3] by (simp add: file_bytes_def)
  have res: "(st, h') = (if \<not> ok1 then (IO_ERROR, h1) else if \<not> ok2 then (IO_ERROR, h2)
      else if \<not> ok3 then (IO_ERROR, h3) else (OK, h3))"
    using assms w1 w2 w3
    by (auto simp: wal_append_def payload_def crc_def Let_def split: bool.splits)
  show ?thesis
  proof (cases ok1)
    case False
    with res n1 show ?thesis by (auto simp: rb intro!: exI [of _ n1])
  next
    case True
    with res n1 n2 f3 show ?thesis
      by (auto simp: rb intro!: exI [of _ "length crc + n2"] split: if_splits)
  qed
qed

lemma wal_append_quiet [io_simps]:
  assumes "script h = []"
  shows "wal_append h p t k v = (OK, set_file p (file_bytes h p @
    wal_record_bytes \<lparr>rec_type = t, rec_key = k, rec_value = v\<rparr>) h)"
proof -
  have "encode_u32_le c \<noteq> []" for c using length_encode_u32 [of c] by (metis list.size(3) zero_neq_numeral)
  with assms show ?thesis
    by (auto simp: wal_append_def wal_record_bytes_def Let_def io_simps)
qed

lemma wal_clear_quiet [io_simps]: "script h = [] \<Longrightarrow> wal_clear h p = (OK, set_file p [] h)"
  by (simp add: wal_clear_def io_simps)

section \<open>The contract of a durable log\<close>

text \<open>
  What the storage engine relies on: recovery returns the records appended since the log was
  last cleared, in order.
\<close>

locale durable_log =
  fixes log_append :: "'s \<Rightarrow> 'r \<Rightarrow> 's"
    and log_recover :: "'s \<Rightarrow> 'r list"
    and log_clear :: "'s \<Rightarrow> 's"
    and log_ok :: "'s \<Rightarrow> bool"
    and log_valid :: "'r \<Rightarrow> bool"
  assumes recover_append: "log_ok s \<Longrightarrow> log_valid r \<Longrightarrow> log_recover (log_append s r) = log_recover s @ [r]"
    and ok_append: "log_ok s \<Longrightarrow> log_valid r \<Longrightarrow> log_ok (log_append s r)"
    and recover_clear: "log_ok s \<Longrightarrow> log_recover (log_clear s) = []"
    and ok_clear: "log_ok s \<Longrightarrow> log_ok (log_clear s)"
begin

lemma ok_fold: "log_ok s \<Longrightarrow> \<forall>r \<in> set rs. log_valid r \<Longrightarrow> log_ok (foldl log_append s rs)"
  by (induction rs arbitrary: s) (auto intro: ok_append)

lemma recover_fold:
  "log_ok s \<Longrightarrow> \<forall>r \<in> set rs. log_valid r \<Longrightarrow>
   log_recover (foldl log_append s rs) = log_recover s @ rs"
  by (induction rs arbitrary: s) (simp_all add: recover_append ok_append)

lemma recover_since_clear:
  "log_ok s \<Longrightarrow> \<forall>r \<in> set rs. log_valid r \<Longrightarrow>
   log_recover (foldl log_append (log_clear s) rs) = rs"
  by (simp add: recover_fold ok_clear recover_clear)

end

text \<open>A log file that holds whole valid records, on a host on which nothing fails.\<close>

definition wal_holds :: "host \<Rightarrow> string \<Rightarrow> Record list \<Rightarrow> bool" where
  "wal_holds h p rs \<longleftrightarrow> script h = [] \<and> (\<forall>r \<in> set rs. wal_valid r)
     \<and> file_bytes h p = concat (map wal_record_bytes rs)"

definition wal_append_rec :: "string \<Rightarrow> host \<Rightarrow> Record \<Rightarrow> host" where
  "wal_append_rec p h r = snd (wal_append h p (rec_type r) (rec_key r) (rec_value r))"

lemma wal_holds_recover:
  assumes "wal_holds h p rs"
  shows "wal_recover h p = (rs, h)"
proof -
  from assms have q: "script h = []" and v: "\<forall>r \<in> set rs. wal_valid r"
    and f: "file_bytes h p = concat (map wal_record_bytes rs) @ []"
    by (simp_all add: wal_holds_def)
  show ?thesis
    unfolding wal_recover_def f by (subst wal_recover_loop_all [OF q v]) (simp add: q)
qed

lemma wal_holds_append:
  assumes "wal_holds h p rs" "wal_valid r"
  shows "wal_holds (wal_append_rec p h r) p (rs @ [r])"
  using assms by (cases r) (simp add: wal_holds_def wal_append_rec_def wal_append_quiet)

lemma wal_holds_clear: "wal_holds h p rs \<Longrightarrow> wal_holds (snd (wal_clear h p)) p []"
  by (simp add: wal_holds_def wal_clear_quiet)

interpretation wal_log: durable_log
  "wal_append_rec p" "\<lambda>h. fst (wal_recover h p)" "\<lambda>h. snd (wal_clear h p)"
  "\<lambda>h. \<exists>rs. wal_holds h p rs" wal_valid
  for p
proof unfold_locales
  fix h r assume "\<exists>rs. wal_holds h p rs" and r: "wal_valid r"
  then obtain rs where h: "wal_holds h p rs" by blast
  show "fst (wal_recover (wal_append_rec p h r) p) = fst (wal_recover h p) @ [r]"
    by (simp add: wal_holds_recover [OF h] wal_holds_recover [OF wal_holds_append [OF h r]])
  show "\<exists>rs. wal_holds (wal_append_rec p h r) p rs"
    using wal_holds_append [OF h r] by blast
next
  fix h assume "\<exists>rs. wal_holds h p rs"
  then obtain rs where h: "wal_holds h p rs" by blast
  show "fst (wal_recover (snd (wal_clear h p)) p) = []"
    by (simp add: wal_holds_recover [OF wal_holds_clear [OF h]])
  show "\<exists>rs. wal_holds (snd (wal_clear h p)) p rs"
    using wal_holds_clear [OF h] by blast
qed

section \<open>Properties of the log\<close>

text \<open>Concrete records and a host with one log file, for the instances below.\<close>

definition ex_put :: "string \<Rightarrow> string \<Rightarrow> Record" where
  "ex_put k v = \<lparr>rec_type = PUT, rec_key = k, rec_value = v\<rparr>"

definition ex_log_host :: "byte list \<Rightarrow> io_answer list \<Rightarrow> host" where
  "ex_log_host bs s = \<lparr>files = [(''wal.log'', bs)], script = s\<rparr>"

lemma ex_log_host_simps [simp]:
  "script (ex_log_host bs s) = s" "file_bytes (ex_log_host bs s) ''wal.log'' = bs"
  by (simp_all add: ex_log_host_def file_bytes_def)

lemma wal_valid_ex_put [simp]:
  "wal_valid (ex_put k v) \<longleftrightarrow> length k \<le> 10 * 1024 * 1024 \<and> length v \<le> 100 * 1024 * 1024"
  by (simp add: wal_valid_def ex_put_def)

lemma length_ex_put:
  "wal_valid (ex_put k v) \<Longrightarrow> length (wal_record_bytes (ex_put k v)) = 13 + length k + length v"
  by (simp add: length_wal_record_bytes) (simp add: ex_put_def)

lemma wal_recover_prefix:
  assumes "script h = []" "\<forall>r \<in> set rs. wal_valid r"
    and "file_bytes h p = concat (map wal_record_bytes rs) @ rest"
    and "wal_recover_loop h rest = (rs', h)"
  shows "wal_recover h p = (rs @ rs', h)"
  unfolding wal_recover_def assms(3) wal_recover_loop_all [OF assms(1,2)] assms(4) by simp

text \<open>
  C4: the log survives a crash at any byte of an append. If the file holds whole records followed
  by a proper prefix of one more record (the part of it that reached the disk), recovery returns
  exactly the whole records: nothing that was acknowledged is lost, nothing is made up from the
  torn tail.
\<close>

theorem wal_crash_recovery:
  assumes "script h = []" "\<forall>r \<in> set rs. wal_valid r" "wal_valid r"
    and "n < length (wal_record_bytes r)"
    and "file_bytes h p = concat (map wal_record_bytes rs) @ take n (wal_record_bytes r)"
  shows "wal_recover h p = (rs, h)"
  using wal_recover_prefix [OF assms(1,2,5) wal_recover_loop_torn [OF assms(1,3,4)]] by simp

theorem wal_crash_recovery_witness:
  "wal_recover (ex_log_host (concat (map wal_record_bytes [ex_put ''a'' ''1''])
       @ take 5 (wal_record_bytes (ex_put ''b'' ''2''))) []) ''wal.log''
   = ([ex_put ''a'' ''1''], ex_log_host (concat (map wal_record_bytes [ex_put ''a'' ''1''])
       @ take 5 (wal_record_bytes (ex_put ''b'' ''2''))) [])"
  by (rule wal_crash_recovery [where r = "ex_put ''b'' ''2''" and n = 5])
    (simp_all add: length_ex_put)

text \<open>
  C11: an append is atomic whatever the write, short write and sync calls answer. Started on a log
  of whole records, it reports only \<open>OK\<close> or \<open>IO_ERROR\<close>; after \<open>OK\<close> the next recovery returns the
  old records and the new one, after \<open>IO_ERROR\<close> it returns the old records with or without the
  new one.
\<close>

theorem wal_append_atomic:
  assumes "file_bytes h p = concat (map wal_record_bytes rs)"
    and "\<forall>r \<in> set rs. wal_valid r" "wal_valid \<lparr>rec_type = t, rec_key = k, rec_value = v\<rparr>"
    and "wal_append h p t k v = (st, h')"
    and "script q = []" "file_bytes q p = file_bytes h' p"
  shows "st = OK \<and> wal_recover q p = (rs @ [\<lparr>rec_type = t, rec_key = k, rec_value = v\<rparr>], q)
    \<or> st = IO_ERROR \<and> (wal_recover q p = (rs, q)
        \<or> wal_recover q p = (rs @ [\<lparr>rec_type = t, rec_key = k, rec_value = v\<rparr>], q))"
proof -
  let ?r = "\<lparr>rec_type = t, rec_key = k, rec_value = v\<rparr>"
  obtain n where n: "n \<le> length (wal_record_bytes ?r)"
    "file_bytes h' p = file_bytes h p @ take n (wal_record_bytes ?r)"
    "st = OK \<longrightarrow> n = length (wal_record_bytes ?r)" "st \<in> {OK, IO_ERROR}"
    using wal_append_bytes [OF assms(4)] by blast
  have f: "file_bytes q p = concat (map wal_record_bytes rs) @ take n (wal_record_bytes ?r)"
    using n(2) assms(1,6) by simp
  show ?thesis
  proof (cases "n = length (wal_record_bytes ?r)")
    case True
    have "wal_recover_loop q (take n (wal_record_bytes ?r)) = ([?r], q)"
      using True wal_recover_loop_good [OF assms(5,3), of "[]"] by (simp add: assms(5))
    from wal_recover_prefix [OF assms(5,2) f this] n(4) show ?thesis by auto
  next
    case False
    with n(1) have "n < length (wal_record_bytes ?r)" by simp
    from wal_recover_prefix [OF assms(5,2) f wal_recover_loop_torn [OF assms(5,3) this]]
    show ?thesis using n(3,4) False by auto
  qed
qed

theorem wal_append_atomic_witness:
  "wal_append (ex_log_host (wal_record_bytes (ex_put ''a'' ''1'')) [Fail]) ''wal.log'' PUT ''b'' ''2''
     = (IO_ERROR, ex_log_host (wal_record_bytes (ex_put ''a'' ''1'')) [])
   \<and> (IO_ERROR = OK \<or> fst (wal_recover (ex_log_host (wal_record_bytes (ex_put ''a'' ''1'')) []) ''wal.log'')
        \<in> {[ex_put ''a'' ''1''], [ex_put ''a'' ''1'', ex_put ''b'' ''2'']})"
proof -
  let ?h = "ex_log_host (wal_record_bytes (ex_put ''a'' ''1'')) [Fail]"
  let ?q = "ex_log_host (wal_record_bytes (ex_put ''a'' ''1'')) []"
  have w: "write_all ?h ''wal.log'' (encode_u32_le c) = (False, ?q)" for c
    by (subst write_all.simps)
      (simp add: encode_u32_le_def mosaic_write_def next_io_def ex_log_host_def)
  then have a: "wal_append ?h ''wal.log'' PUT ''b'' ''2'' = (IO_ERROR, ?q)"
    by (simp add: wal_append_def Let_def)
  have "IO_ERROR = OK \<and> wal_recover ?q ''wal.log'' =
      ([ex_put ''a'' ''1''] @ [\<lparr>rec_type = PUT, rec_key = ''b'', rec_value = ''2''\<rparr>], ?q)
    \<or> IO_ERROR = IO_ERROR \<and> (wal_recover ?q ''wal.log'' = ([ex_put ''a'' ''1''], ?q)
      \<or> wal_recover ?q ''wal.log'' =
        ([ex_put ''a'' ''1''] @ [\<lparr>rec_type = PUT, rec_key = ''b'', rec_value = ''2''\<rparr>], ?q))"
    by (rule wal_append_atomic [OF _ _ _ a]) (simp_all add: wal_valid_def ex_put_def)
  with a show ?thesis by (auto simp: ex_put_def)
qed

text \<open>
  A checksummed frame \<open>crc(pay) @ pay\<close> with one byte changed is a frame whose checksum field does
  not match its payload.
\<close>

lemma crc_frame_update:
  assumes "i < 4 + length pay" "x \<noteq> (encode_u32_le (crc32_compute pay) @ pay) ! i"
  shows "\<exists>c'. (encode_u32_le (crc32_compute pay) @ pay)[i := x]
      = encode_u32_le c' @ (if i < 4 then pay else pay[i - 4 := x])
    \<and> crc32_compute (if i < 4 then pay else pay[i - 4 := x]) \<noteq> c'"
proof (cases "i < 4")
  case True
  define cb where "cb = encode_u32_le (crc32_compute pay)"
  have len: "length cb = 4" by (simp add: cb_def)
  have dec: "encode_u32_le (decode_u32_le (cb[i := x])) = cb[i := x]"
    using len by (simp add: encode_decode_u32)
  have "x \<noteq> cb ! i" using assms(2) True by (simp add: cb_def nth_append)
  then have ne: "cb[i := x] \<noteq> cb" using True len by (metis nth_list_update_eq)
  have "crc32_compute pay \<noteq> decode_u32_le (cb[i := x])"
  proof
    assume eq: "crc32_compute pay = decode_u32_le (cb[i := x])"
    have "cb = encode_u32_le (decode_u32_le (cb[i := x]))"
      unfolding eq [symmetric] by (rule cb_def)
    with dec ne show False by simp
  qed
  moreover have "(cb @ pay)[i := x] = encode_u32_le (decode_u32_le (cb[i := x])) @ pay"
    using True len by (simp add: list_update_append dec)
  ultimately show ?thesis
    using True by (intro exI [of _ "decode_u32_le (cb[i := x])"]) (simp add: cb_def)
next
  case False
  with assms have "crc32_compute (pay[i - 4 := x]) \<noteq> crc32_compute pay"
    by (intro crc32_update_byte) (auto simp: nth_append)
  with False show ?thesis by (auto simp: list_update_append)
qed

text \<open>
  C24: one corrupted byte is detected. If any single byte of a record's checksum, type, key or
  value is changed on disk, recovery stops in front of that record: it returns the records
  before it and never the altered one.
\<close>

theorem wal_corruption_detected:
  assumes "script h = []" "\<forall>r \<in> set rs. wal_valid r" "wal_valid r"
    and "i < length (wal_record_bytes r)" "i < 5 \<or> 13 \<le> i" "x \<noteq> wal_record_bytes r ! i"
    and "file_bytes h p = concat (map wal_record_bytes rs) @ (wal_record_bytes r)[i := x] @ rest"
  shows "wal_recover h p = (rs, h)"
proof -
  define ks vs :: u32 where "ks = of_nat (length (rec_key r))" and "vs = of_nat (length (rec_value r))"
  define tb kv where "tb = byte_of_OpType (rec_type r)"
    and "kv = bytes_of (rec_key r) @ bytes_of (rec_value r)"
  define pay where "pay tb kv = tb # encode_u32_le ks @ encode_u32_le vs @ kv" for tb kv
  have rb: "wal_record_bytes r = encode_u32_le (crc32_compute (pay tb kv)) @ pay tb kv"
    by (simp add: wal_record_bytes_def Let_def wal_payload_small [OF wal_valid_small [OF assms(3)]]
        ks_def vs_def kv_def tb_def pay_def)
  have u: "unat ks = length (rec_key r)" "unat vs = length (rec_value r)"
    using assms(3) by (auto simp: wal_valid_def ks_def vs_def)
  have lim: "unat ks \<le> 10 * 1024 * 1024" "unat vs \<le> 100 * 1024 * 1024"
    using assms(3) u by (simp_all add: wal_valid_def)
  have stop: "wal_recover_loop h (encode_u32_le c' @ pay tb' kv' @ rest) = ([], h)"
    if "crc32_compute (pay tb' kv') \<noteq> c'" "length kv' = length kv" for c' tb' kv'
    using that wal_recover_loop_record [OF assms(1) lim, of kv' _ c' tb' rest] u
    by (simp add: pay_def kv_def)
  obtain c' where c': "(wal_record_bytes r)[i := x]
      = encode_u32_le c' @ (if i < 4 then pay tb kv else (pay tb kv)[i - 4 := x])"
    "crc32_compute (if i < 4 then pay tb kv else (pay tb kv)[i - 4 := x]) \<noteq> c'"
    using crc_frame_update [of i "pay tb kv" x] assms(4,6) by (auto simp: rb)
  have "(pay tb kv)[0 := x] = pay x kv" by (simp add: pay_def)
  moreover have "(pay tb kv)[i - 4 := x] = pay tb (kv[i - 13 := x])" if "13 \<le> i"
  proof -
    obtain j where "i = j + 13" using \<open>13 \<le> i\<close> by (metis le_add_diff_inverse2)
    then have "i - 4 = Suc (8 + j)" "i - 13 = j" by simp_all
    then show ?thesis by (simp add: pay_def list_update_append)
  qed
  ultimately obtain tb' kv' where
    p': "(if i < 4 then pay tb kv else (pay tb kv)[i - 4 := x]) = pay tb' kv'" "length kv' = length kv"
    using assms(5) by (cases "i < 4"; cases "i = 4") (auto intro: that)
  have "wal_recover_loop h ((wal_record_bytes r)[i := x] @ rest) = ([], h)"
    using stop c' p' by simp
  from wal_recover_prefix [OF assms(1,2,7) this] show ?thesis by simp
qed

theorem wal_corruption_detected_witness:
  "wal_recover (ex_log_host (concat (map wal_record_bytes [ex_put ''a'' ''1''])
       @ (wal_record_bytes (ex_put ''b'' ''2''))[14 := byte_of_char CHR ''3''] @ []) []) ''wal.log''
   = ([ex_put ''a'' ''1''], ex_log_host (concat (map wal_record_bytes [ex_put ''a'' ''1''])
       @ (wal_record_bytes (ex_put ''b'' ''2''))[14 := byte_of_char CHR ''3''] @ []) [])"
proof (rule wal_corruption_detected [where r = "ex_put ''b'' ''2''" and i = 14])
  have "wal_record_bytes (ex_put ''b'' ''2'') ! 14 = byte_of_char CHR ''2''"
    by (simp add: wal_record_bytes_def ex_put_def wal_payload_small nth_append bytes_of_def Let_def)
  moreover have "byte_of_char CHR ''3'' \<noteq> byte_of_char CHR ''2''"
    by (simp add: byte_of_char_def)
  ultimately show "byte_of_char CHR ''3'' \<noteq> wal_record_bytes (ex_put ''b'' ''2'') ! 14" by simp
qed (simp_all add: length_ex_put)

text \<open>
  C38: the tail is never repaired. \<open>recover\<close> leaves a torn tail in the file and \<open>append\<close> writes behind
  it, so when the torn record has its whole header and the bytes appended later are fewer than
  the bytes it is missing, an append that reports \<open>OK\<close> is not returned by the next recovery.
\<close>

theorem wal_append_after_torn_tail_lost:
  assumes "script h = []" "\<forall>r \<in> set rs. wal_valid r" "wal_valid torn"
    and "13 \<le> n"
    and "n + length (wal_record_bytes \<lparr>rec_type = t, rec_key = k, rec_value = v\<rparr>)
           < length (wal_record_bytes torn)"
    and "file_bytes h p = concat (map wal_record_bytes rs) @ take n (wal_record_bytes torn)"
  shows "\<exists>h'. wal_append h p t k v = (OK, h') \<and> wal_recover h' p = (rs, h')"
proof -
  let ?new = "wal_record_bytes \<lparr>rec_type = t, rec_key = k, rec_value = v\<rparr>"
  let ?ks = "of_nat (length (rec_key torn)) :: u32"
    and ?vs = "of_nat (length (rec_value torn)) :: u32"
  let ?kv = "bytes_of (rec_key torn) @ bytes_of (rec_value torn)"
  let ?tb = "byte_of_OpType (rec_type torn)"
  let ?c = "crc32_compute (?tb # encode_u32_le ?ks @ encode_u32_le ?vs @ ?kv)"
  define h' where "h' = set_file p (file_bytes h p @ ?new) h"
  have a: "wal_append h p t k v = (OK, h')"
    by (simp add: h'_def wal_append_quiet assms(1))
  have "take n (wal_record_bytes torn) @ ?new = (encode_u32_le ?c
      @ ?tb # encode_u32_le ?ks @ encode_u32_le ?vs) @ take (n - 13) ?kv @ ?new"
    using assms(4)
    by (simp add: wal_record_bytes_def [of torn] Let_def wal_payload_small [OF wal_valid_small [OF assms(3)]]
        take_Cons' numeral_eq_Suc)
  moreover have "length (take (n - 13) ?kv @ ?new) < unat (?ks + ?vs)"
    using assms(4,5) unat_size_sum(1) [OF wal_valid_small [OF assms(3)]]
    by (simp add: length_wal_record_bytes [OF assms(3)])
  ultimately have "wal_recover_loop h' (take n (wal_record_bytes torn) @ ?new) = ([], h')"
    by (intro wal_recover_loop_short_body) (simp_all add: h'_def assms(1))
  from wal_recover_prefix [OF _ assms(2) _ this] have "wal_recover h' p = (rs, h')"
    by (simp add: h'_def assms(1,6))
  with a show ?thesis by blast
qed

theorem wal_append_after_torn_tail_lost_witness:
  "\<exists>h'. wal_append (ex_log_host (take 13 (wal_record_bytes (ex_put ''a'' (replicate 100 CHR ''x'')))) [])
       ''wal.log'' PUT ''b'' ''2'' = (OK, h') \<and> wal_recover h' ''wal.log'' = ([], h')"
  by (rule wal_append_after_torn_tail_lost [where torn = "ex_put ''a'' (replicate 100 CHR ''x'')"
        and n = 13])
    (simp_all add: ex_put_def length_wal_record_bytes wal_valid_def)

end
