(* ===== verification/Memtable.thy ===== *)
theory Memtable
  imports Common
begin

text \<open>
  \<open>src/storage/memtable.cpp\<close>: the in-memory table, a \<open>std::map\<close> from keys to optional values (a
  tombstone is \<open>None\<close>) with a running count of its bytes. Also here: the result of a point lookup,
  which the reader of an on-disk table returns in the same form, and the contract that both kinds
  of table offer the storage engine (\<open>sorted_run\<close>).
\<close>

section \<open>Lookup results\<close>

record LookupResult =
  found :: bool
  is_tombstone :: bool
  lr_value :: string

text \<open>The answer a table gives for a key, from what it stores under it.\<close>

definition lookup_result :: "string option option \<Rightarrow> LookupResult" where
  "lookup_result x =
     (case x of
        None \<Rightarrow> \<lparr>found = False, is_tombstone = False, lr_value = []\<rparr>
      | Some None \<Rightarrow> \<lparr>found = True, is_tombstone = True, lr_value = []\<rparr>
      | Some (Some v) \<Rightarrow> \<lparr>found = True, is_tombstone = False, lr_value = v\<rparr>)"

lemma lookup_result_simps [simp]:
  "found (lookup_result x) \<longleftrightarrow> x \<noteq> None"
  "is_tombstone (lookup_result x) \<longleftrightarrow> x = Some None"
  "lr_value (lookup_result (Some (Some v))) = v"
  by (auto simp: lookup_result_def split: option.splits)

section \<open>The table\<close>

record MemTable =
  mt_data :: "string option smap"
  current_size :: u64
  flush_threshold :: u64

definition memtable_new :: "u64 \<Rightarrow> MemTable" where
  "memtable_new threshold =
     \<lparr>mt_data = [], current_size = 0, flush_threshold = threshold\<rparr>"

definition str_size :: "string \<Rightarrow> u64" where
  "str_size s = of_nat (length s)"

definition memtable_put :: "string \<Rightarrow> string \<Rightarrow> MemTable \<Rightarrow> MemTable" where
  "memtable_put key value m =
     (let size = (case map_of (mt_data m) key of
                    Some old \<Rightarrow>
                      (case old of
                         Some v \<Rightarrow> current_size m - str_size key - str_size v
                       | None \<Rightarrow> current_size m - str_size key)
                  | None \<Rightarrow> current_size m)
      in m\<lparr>mt_data := smap_put key (Some value) (mt_data m),
           current_size := size + (str_size key + str_size value)\<rparr>)"

definition memtable_remove :: "string \<Rightarrow> MemTable \<Rightarrow> MemTable" where
  "memtable_remove key m =
     (case map_of (mt_data m) key of
        Some old \<Rightarrow>
          (let size = (case old of
                         Some v \<Rightarrow> current_size m - str_size key - str_size v
                       | None \<Rightarrow> current_size m - str_size key)
           in m\<lparr>mt_data := smap_put key None (mt_data m), current_size := size + str_size key\<rparr>)
      | None \<Rightarrow>
          m\<lparr>mt_data := smap_put key None (mt_data m), current_size := current_size m + str_size key\<rparr>)"

definition memtable_get :: "MemTable \<Rightarrow> string \<Rightarrow> LookupResult" where
  "memtable_get m key =
     (case map_of (mt_data m) key of
        None \<Rightarrow> \<lparr>found = False, is_tombstone = False, lr_value = []\<rparr>
      | Some None \<Rightarrow> \<lparr>found = True, is_tombstone = True, lr_value = []\<rparr>
      | Some (Some v) \<Rightarrow> \<lparr>found = True, is_tombstone = False, lr_value = v\<rparr>)"

definition memtable_scan :: "MemTable \<Rightarrow> string \<Rightarrow> string \<Rightarrow> (string \<times> string option) list" where
  "memtable_scan m start_key end_key = smap_range start_key end_key (mt_data m)"

definition memtable_contains :: "MemTable \<Rightarrow> string \<Rightarrow> bool" where
  "memtable_contains m key \<longleftrightarrow> map_of (mt_data m) key \<noteq> None"

definition should_flush :: "MemTable \<Rightarrow> bool" where
  "should_flush m \<longleftrightarrow> current_size m \<ge> flush_threshold m"

definition dump_sorted :: "MemTable \<Rightarrow> (string \<times> string option) list" where
  "dump_sorted m = mt_data m"

definition memtable_clear :: "MemTable \<Rightarrow> MemTable" where
  "memtable_clear m = m\<lparr>mt_data := [], current_size := 0\<rparr>"

definition size_bytes :: "MemTable \<Rightarrow> u64" where
  "size_bytes m = current_size m"

definition entry_count :: "MemTable \<Rightarrow> nat" where
  "entry_count m = length (mt_data m)"

section \<open>The byte count and the invariant\<close>

definition entry_bytes :: "string \<times> string option \<Rightarrow> nat" where
  "entry_bytes e = length (fst e) + (case snd e of None \<Rightarrow> 0 | Some v \<Rightarrow> length v)"

definition memtable_wf :: "MemTable \<Rightarrow> bool" where
  "memtable_wf m \<longleftrightarrow> smap_wf (mt_data m)
     \<and> current_size m = of_nat (sum_list (map entry_bytes (mt_data m)))"

text \<open>Writing a key replaces the bytes of its old entry by those of its new one.\<close>

lemma bytes_smap_put:
  assumes "smap_wf m"
  shows "sum_list (map entry_bytes (smap_put k x m))
      + (case map_of m k of None \<Rightarrow> 0 | Some y \<Rightarrow> entry_bytes (k, y))
    = sum_list (map entry_bytes m) + entry_bytes (k, x)"
  using assms
proof (induction m)
  case (Cons e m)
  have "map_of m k = None" if "k < fst e"
    using that Cons.prems by (auto simp: map_of_eq_None_iff smap_wf_Cons)
  with Cons show ?case
    by (cases e) (auto simp: smap_wf_Cons split: option.splits)
qed simp

lemma word_size_swap:
  assumes "a + y = b + (x :: nat)"
  shows "of_nat a = of_nat b - of_nat y + (of_nat x :: u64)"
proof -
  have "of_nat a + of_nat y = (of_nat b + of_nat x :: u64)"
    using assms by (metis of_nat_add)
  then show ?thesis by (simp add: algebra_simps)
qed

lemma memtable_wf_new [simp]: "memtable_wf (memtable_new t)"
  by (simp add: memtable_wf_def memtable_new_def)

lemma memtable_wf_put:
  assumes "memtable_wf m"
  shows "memtable_wf (memtable_put k v m)"
  using assms word_size_swap [OF bytes_smap_put [of "mt_data m" k "Some v"]]
  by (auto simp: memtable_wf_def memtable_put_def Let_def smap_wf_put entry_bytes_def str_size_def
      algebra_simps split: option.splits)

lemma memtable_wf_remove:
  assumes "memtable_wf m"
  shows "memtable_wf (memtable_remove k m)"
  using assms word_size_swap [OF bytes_smap_put [of "mt_data m" k None]]
  by (auto simp: memtable_wf_def memtable_remove_def Let_def smap_wf_put entry_bytes_def str_size_def
      algebra_simps split: option.splits)

lemma memtable_wf_clear: "memtable_wf (memtable_clear m)"
  by (simp add: memtable_wf_def memtable_clear_def)

lemma memtable_data_simps [simp]:
  "mt_data (memtable_put k v m) = smap_put k (Some v) (mt_data m)"
  "mt_data (memtable_remove k m) = smap_put k None (mt_data m)"
  "mt_data (memtable_clear m) = []"
  "mt_data (memtable_new t) = []"
  by (simp_all add: memtable_put_def memtable_remove_def memtable_clear_def memtable_new_def Let_def
      split: option.splits)

lemma memtable_threshold_simps [simp]:
  "flush_threshold (memtable_put k v m) = flush_threshold m"
  "flush_threshold (memtable_remove k m) = flush_threshold m"
  "flush_threshold (memtable_clear m) = flush_threshold m"
  "flush_threshold (memtable_new t) = t"
  by (simp_all add: memtable_put_def memtable_remove_def memtable_clear_def memtable_new_def Let_def
      split: option.splits)

section \<open>The contract of a sorted table\<close>

text \<open>
  What the engine relies on, of the table in memory and of a table on disk alike: there is an
  ordered map of entries behind the table, a point lookup answers from it and a scan returns its
  range. The lemmas say what a stack of such tables answers.
\<close>

locale sorted_run =
  fixes run_entries :: "'t \<Rightarrow> string option smap"
    and run_get :: "'t \<Rightarrow> string \<Rightarrow> LookupResult"
    and run_scan :: "'t \<Rightarrow> string \<Rightarrow> string \<Rightarrow> string option smap"
    and run_ok :: "'t \<Rightarrow> bool"
  assumes entries_wf: "run_ok t \<Longrightarrow> smap_wf (run_entries t)"
    and get_law: "run_ok t \<Longrightarrow> run_get t k = lookup_result (map_of (run_entries t) k)"
    and scan_law: "run_ok t \<Longrightarrow> lo \<le> hi \<Longrightarrow> run_scan t lo hi = smap_range lo hi (run_entries t)"
begin

lemma scan_wf: "run_ok t \<Longrightarrow> lo \<le> hi \<Longrightarrow> smap_wf (run_scan t lo hi)"
  by (simp add: scan_law smap_range_filter smap_wf_filter entries_wf)

lemma map_of_scan:
  "run_ok t \<Longrightarrow> lo \<le> hi \<Longrightarrow>
   map_of (run_scan t lo hi) k = (if lo \<le> k \<and> k \<le> hi then map_of (run_entries t) k else None)"
  by (simp add: scan_law map_of_smap_range entries_wf)

text \<open>Asking the tables in turn until one has the key is the lookup in the layered map.\<close>

lemma find_get:
  assumes "\<forall>t \<in> set ts. run_ok t"
  shows "(case find (\<lambda>t. found (run_get t k)) ts of
            None \<Rightarrow> lookup_result None | Some t \<Rightarrow> run_get t k)
    = lookup_result (layered (map run_entries ts) k)"
  using assms by (induction ts) (auto simp: get_law split: option.splits)

text \<open>Merging the scans of the tables, oldest first, is the layered map between the bounds.\<close>

lemma layered_scans:
  assumes "\<forall>t \<in> set ts. run_ok t" "lo \<le> hi"
  shows "layered (map (\<lambda>t. run_scan t lo hi) ts) k
    = (if lo \<le> k \<and> k \<le> hi then layered (map run_entries ts) k else None)"
  using assms by (induction ts) (auto simp: map_of_scan split: option.splits)

lemma merge_scans:
  assumes "\<forall>t \<in> set ts. run_ok t" "lo \<le> hi"
  shows "map_of (fold smap_put_all (rev (map (\<lambda>t. run_scan t lo hi) ts)) []) k
    = (if lo \<le> k \<and> k \<le> hi then layered (map run_entries ts) k else None)"
  using assms by (subst map_of_merge_layers) (auto simp: scan_wf layered_scans)

end

interpretation mem_run: sorted_run mt_data memtable_get memtable_scan memtable_wf
  by unfold_locales
    (auto simp: memtable_wf_def memtable_get_def memtable_scan_def lookup_result_def
      split: option.splits)

section \<open>Properties of the table\<close>

datatype mem_op = MPut string string | MRemove string | MClear

fun mem_step :: "mem_op \<Rightarrow> MemTable \<Rightarrow> MemTable" where
  "mem_step (MPut k v) m = memtable_put k v m"
| "mem_step (MRemove k) m = memtable_remove k m"
| "mem_step MClear m = memtable_clear m"

text \<open>What the table promises: a map from keys to values and tombstones.\<close>

fun mem_spec :: "mem_op \<Rightarrow> (string \<rightharpoonup> string option) \<Rightarrow> (string \<rightharpoonup> string option)" where
  "mem_spec (MPut k v) f = f(k \<mapsto> Some v)"
| "mem_spec (MRemove k) f = f(k \<mapsto> None)"
| "mem_spec MClear f = Map.empty"

lemma mem_step_wf: "memtable_wf m \<Longrightarrow> memtable_wf (mem_step a m)"
  by (cases a) (simp_all add: memtable_wf_put memtable_wf_remove memtable_wf_clear)

text \<open>
  C27: after any sequence of puts, removals and clears on a new table, the byte count is the sum of
  the sizes of the keys and values it holds (modulo \<open>2 ^ 64\<close>, with no drift and no underflow from
  the subtractions of overwritten entries) and its keys are in strictly ascending order.
\<close>

theorem memtable_size_exact:
  "memtable_wf (fold mem_step ops (memtable_new t))"
proof -
  have "memtable_wf m \<Longrightarrow> memtable_wf (fold mem_step ops m)" for m
    by (induction ops arbitrary: m) (simp_all add: mem_step_wf)
  then show ?thesis by simp
qed

lemma mem_step_map: "map_of (mt_data (mem_step a m)) = mem_spec a (map_of (mt_data m))"
  by (cases a) (simp_all add: map_of_smap_put)

text \<open>
  C26: the table refines a map from keys to values and tombstones. After any sequence of
  operations a lookup answers from the map that the same operations build: a value, a tombstone
  or nothing.
\<close>

theorem memtable_refines_map:
  "memtable_get (fold mem_step ops (memtable_new t)) k = lookup_result (fold mem_spec ops Map.empty k)"
proof -
  have "map_of (mt_data (fold mem_step ops m)) = fold mem_spec ops (map_of (mt_data m))" for m
    by (induction ops arbitrary: m) (simp_all add: mem_step_map)
  from this [of "memtable_new t"] show ?thesis
    by (simp add: memtable_get_def lookup_result_def split: option.splits)
qed

end
