(* ===== verification/Bloom.thy ===== *)
theory Bloom
  imports Common
begin

text \<open>
  \<open>src/index/bloom_filter.cpp\<close>: the Bloom filter of an on-disk table, with its two hash functions
  in 32-bit wrap-around arithmetic and the bit array as bytes. Reading or writing the bit array
  out of range is undefined in C++; the model ignores such a write and answers \<open>False\<close> to such a
  read, and \<open>bloom_access_in_range\<close> shows that neither happens on a well-formed filter.
\<close>

section \<open>The filter\<close>

record BloomFilter =
  bits :: "byte list"
  num_bits :: u32
  num_hashes :: u32

definition bloom_new :: "u32 \<Rightarrow> u32 \<Rightarrow> BloomFilter" where
  "bloom_new nb nh =
     \<lparr>bits = replicate (unat ((nb + 7) div 8)) 0, num_bits = nb, num_hashes = nh\<rparr>"

definition bloom_from :: "byte list \<Rightarrow> u32 \<Rightarrow> u32 \<Rightarrow> BloomFilter" where
  "bloom_from dat nb nh = \<lparr>bits = dat, num_bits = nb, num_hashes = nh\<rparr>"

definition set_bit_at :: "u32 \<Rightarrow> BloomFilter \<Rightarrow> BloomFilter" where
  "set_bit_at pos b =
     (let i = unat (pos div 8)
      in b\<lparr>bits := (bits b)[i := bits b ! i OR push_bit (unat (pos mod 8)) 1]\<rparr>)"

definition get_bit :: "BloomFilter \<Rightarrow> u32 \<Rightarrow> bool" where
  "get_bit b pos =
     (let i = unat (pos div 8)
      in i < length (bits b) \<and> bits b ! i AND push_bit (unat (pos mod 8)) 1 \<noteq> 0)"

definition fnv1a :: "string \<Rightarrow> u32" where
  "fnv1a key = foldl (\<lambda>hash c. (hash XOR ucast (byte_of_char c)) * 16777619) 2166136261 key"

definition murmur_step :: "u32 \<Rightarrow> char \<Rightarrow> u32" where
  "murmur_step hash c =
     (let k = ucast (byte_of_char c) * 0x5bd1e995;
          k = k XOR drop_bit 24 k;
          k = k * 0x5bd1e995
      in (hash * 0x5bd1e995) XOR k)"

definition murmur_mix :: "string \<Rightarrow> u32" where
  "murmur_mix key =
     (let hash = foldl murmur_step 0x5bd1e995 key;
          hash = hash XOR drop_bit 13 hash;
          hash = hash * 0x5bd1e995
      in hash XOR drop_bit 15 hash)"

definition bloom_pos :: "BloomFilter \<Rightarrow> string \<Rightarrow> nat \<Rightarrow> u32" where
  "bloom_pos b key i = (fnv1a key + of_nat i * murmur_mix key) mod num_bits b"

definition bloom_add :: "string \<Rightarrow> BloomFilter \<Rightarrow> BloomFilter" where
  "bloom_add key b =
     fold (\<lambda>i b. set_bit_at (bloom_pos b key i) b) [0..<unat (num_hashes b)] b"

definition possibly_contains :: "BloomFilter \<Rightarrow> string \<Rightarrow> bool" where
  "possibly_contains b key =
     list_all (\<lambda>i. get_bit b (bloom_pos b key i)) [0..<unat (num_hashes b)]"

definition create_for_entries :: "u32 \<Rightarrow> BloomFilter" where
  "create_for_entries num_entries =
     (let nb = num_entries * 10;
          nb = (if nb < 64 then 64 else nb)
      in bloom_new nb 7)"

section \<open>Well-formed filters\<close>

definition bloom_wf :: "BloomFilter \<Rightarrow> bool" where
  "bloom_wf b \<longleftrightarrow> num_bits b \<noteq> 0 \<and> unat (num_bits b) \<le> 8 * length (bits b)"

lemma pos_div_in_range:
  assumes "bloom_wf b" "pos < num_bits b"
  shows "unat (pos div 8) < length (bits b)"
  using assms by (simp add: bloom_wf_def word_less_nat_alt unat_div less_mult_imp_div_less mult.commute)

lemma bloom_pos_less: "bloom_wf b \<Longrightarrow> bloom_pos b key i < num_bits b"
  by (simp add: bloom_pos_def bloom_wf_def word_mod_less_divisor word_gt_0)

lemma set_bit_at_simps [simp]:
  "num_bits (set_bit_at p b) = num_bits b"
  "num_hashes (set_bit_at p b) = num_hashes b"
  "length (bits (set_bit_at p b)) = length (bits b)"
  by (simp_all add: set_bit_at_def Let_def)

lemma bloom_pos_set_bit [simp]: "bloom_pos (set_bit_at p b) key i = bloom_pos b key i"
  by (simp add: bloom_pos_def)

lemma bloom_wf_set_bit [simp]: "bloom_wf (set_bit_at p b) = bloom_wf b"
  by (simp add: bloom_wf_def)

lemma mask_nonzero:
  fixes x :: byte
  assumes "n < 8"
  shows "(x OR push_bit n 1) AND push_bit n 1 \<noteq> 0"
proof
  have "bit (push_bit n 1 :: byte) n"
    using assms by (simp add: bit_push_bit_iff del: push_bit_of_1)
  then have "bit ((x OR push_bit n 1) AND push_bit n 1) n"
    by (simp only: bit_and_iff bit_or_iff simp_thms)
  moreover assume "(x OR push_bit n 1) AND push_bit n 1 = 0"
  ultimately have "bit (0 :: byte) n" by (simp only:)
  then show False by simp
qed

lemma get_set_bit:
  "unat (p div 8) < length (bits b) \<Longrightarrow> get_bit (set_bit_at p b) p"
proof -
  have "unat (p mod 8) < 8" by (simp add: unat_mod)
  then show "unat (p div 8) < length (bits b) \<Longrightarrow> get_bit (set_bit_at p b) p"
    using mask_nonzero by (simp add: get_bit_def set_bit_at_def Let_def)
qed

lemma get_set_bit_mono:
  assumes "get_bit b q"
  shows "get_bit (set_bit_at p b) q"
proof -
  have "(x OR y) AND z \<noteq> 0" if "x AND z \<noteq> 0" for x y z :: byte
    using that by (metis and.commute bit.conj_disj_distrib2 or_eq_0_iff)
  with assms show ?thesis
    by (cases "unat (p div 8) = unat (q div 8)")
      (auto simp: get_bit_def set_bit_at_def Let_def)
qed

lemma set_bits_fold:
  "num_bits (fold (\<lambda>i b. set_bit_at (bloom_pos b key i) b) ns b) = num_bits b"
  "num_hashes (fold (\<lambda>i b. set_bit_at (bloom_pos b key i) b) ns b) = num_hashes b"
  "bloom_wf (fold (\<lambda>i b. set_bit_at (bloom_pos b key i) b) ns b) = bloom_wf b"
  "bloom_pos (fold (\<lambda>i b. set_bit_at (bloom_pos b key i) b) ns b) key' j = bloom_pos b key' j"
  "length (bits (fold (\<lambda>i b. set_bit_at (bloom_pos b key i) b) ns b)) = length (bits b)"
  by (induction ns arbitrary: b) simp_all

lemma bloom_add_simps [simp]:
  "num_bits (bloom_add key b) = num_bits b" "num_hashes (bloom_add key b) = num_hashes b"
  "bloom_wf (bloom_add key b) = bloom_wf b" "length (bits (bloom_add key b)) = length (bits b)"
  "bloom_pos (bloom_add key b) key' j = bloom_pos b key' j"
  by (simp_all add: bloom_add_def set_bits_fold)

lemma set_bits_fold_mono:
  "get_bit b q \<Longrightarrow> get_bit (fold (\<lambda>i b. set_bit_at (bloom_pos b key i) b) ns b) q"
  by (induction ns arbitrary: b) (simp_all add: get_set_bit_mono)

lemma set_bits_fold_sets:
  "bloom_wf b \<Longrightarrow> i \<in> set ns \<Longrightarrow>
   get_bit (fold (\<lambda>i b. set_bit_at (bloom_pos b key i) b) ns b) (bloom_pos b key i)"
proof (induction ns arbitrary: b)
  case (Cons j js)
  show ?case
  proof (cases "i = j")
    case True
    have "get_bit (set_bit_at (bloom_pos b key j) b) (bloom_pos b key j)"
      using Cons.prems by (intro get_set_bit pos_div_in_range bloom_pos_less)
    with True show ?thesis by (simp add: set_bits_fold_mono)
  next
    case False
    with Cons.IH [of "set_bit_at (bloom_pos b key j) b"] Cons.prems show ?thesis by simp
  qed
qed simp

section \<open>The contract of a membership filter\<close>

text \<open>A filter may answer yes for a key that was not added and never answers no for one that was.\<close>

locale membership_filter =
  fixes f_add :: "'k \<Rightarrow> 'f \<Rightarrow> 'f"
    and f_query :: "'f \<Rightarrow> 'k \<Rightarrow> bool"
    and f_ok :: "'f \<Rightarrow> bool"
  assumes query_added: "f_ok f \<Longrightarrow> f_query (f_add k f) k"
    and query_kept: "f_ok f \<Longrightarrow> f_query f k \<Longrightarrow> f_query (f_add k' f) k"
    and ok_added: "f_ok f \<Longrightarrow> f_ok (f_add k f)"
begin

lemma ok_fold: "f_ok f \<Longrightarrow> f_ok (fold f_add ks f)"
  by (induction ks arbitrary: f) (simp_all add: ok_added)

lemma query_kept_fold: "f_ok f \<Longrightarrow> f_query f k \<Longrightarrow> f_query (fold f_add ks f) k"
  by (induction ks arbitrary: f) (simp_all add: ok_added query_kept)

lemma no_false_negatives: "f_ok f \<Longrightarrow> k \<in> set ks \<Longrightarrow> f_query (fold f_add ks f) k"
  by (induction ks arbitrary: f) (auto simp: ok_added query_added intro: query_kept_fold)

end

interpretation bloom: membership_filter bloom_add possibly_contains bloom_wf
proof unfold_locales
  fix b k k'
  assume wf: "bloom_wf b"
  show "possibly_contains (bloom_add k b) k"
    using set_bits_fold_sets [OF wf]
    by (simp add: possibly_contains_def list_all_iff) (simp add: bloom_add_def)
  show "bloom_wf (bloom_add k b)" using wf by simp
  assume "possibly_contains b k"
  then show "possibly_contains (bloom_add k' b) k"
    by (auto simp: possibly_contains_def list_all_iff) (simp add: bloom_add_def set_bits_fold_mono)
qed

section \<open>Properties of the filter\<close>

lemma bloom_wf_create:
  assumes "unat n \<le> 429496728"
  shows "bloom_wf (create_for_entries n)"
proof -
  define nb :: u32 where "nb = (if n * 10 < 64 then 64 else n * 10)"
  have n10: "unat (n * 10) = unat n * 10"
    using assms by (simp add: unat_word_ariths)
  have lo: "64 \<le> unat nb" and hi: "unat nb \<le> 4294967280"
    using assms n10 by (auto simp: nb_def word_less_nat_alt)
  have "unat (nb + 7) = unat nb + 7"
    using hi by (simp add: unat_word_ariths)
  then have "unat ((nb + 7) div 8) = (unat nb + 7) div 8"
    by (simp add: unat_div)
  moreover have "unat nb \<le> 8 * ((unat nb + 7) div 8)" by simp
  moreover have "nb \<noteq> 0" using lo by auto
  ultimately show ?thesis
    by (simp add: bloom_wf_def create_for_entries_def bloom_new_def Let_def nb_def [symmetric])
qed

text \<open>
  C25: no false negatives. A filter created for at most 429496728 entries answers yes for every key
  that was added to it, whatever other keys are added before and after and however they hash.
\<close>

theorem bloom_no_false_negatives:
  assumes "unat n \<le> 429496728" "key \<in> set keys"
  shows "possibly_contains (fold bloom_add keys (create_for_entries n)) key"
  using assms by (intro bloom.no_false_negatives bloom_wf_create)

theorem bloom_no_false_negatives_witness:
  "possibly_contains (fold bloom_add [''apple'', ''kiwi''] (create_for_entries 2)) ''kiwi''"
  by (rule bloom_no_false_negatives) simp_all

text \<open>
  C37: every access to the bit array is inside it. For a filter created for at most 429496728
  entries, after any additions, the position computed for any key and any hash number is below
  the number of bits and its byte is an element of the array.
\<close>

theorem bloom_access_in_range:
  assumes "unat n \<le> 429496728" "b = fold bloom_add keys (create_for_entries n)"
  shows "bloom_pos b key i < num_bits b \<and> unat (bloom_pos b key i div 8) < length (bits b)"
proof -
  have "bloom_wf b"
    unfolding assms(2) using assms(1) by (intro bloom.ok_fold bloom_wf_create)
  then show ?thesis by (simp add: bloom_pos_less pos_div_in_range)
qed

theorem bloom_access_in_range_witness:
  "bloom_pos (fold bloom_add [''apple''] (create_for_entries 1)) ''kiwi'' 3
     < num_bits (fold bloom_add [''apple''] (create_for_entries 1))
   \<and> unat (bloom_pos (fold bloom_add [''apple''] (create_for_entries 1)) ''kiwi'' 3 div 8)
     < length (bits (fold bloom_add [''apple''] (create_for_entries 1)))"
  by (rule bloom_access_in_range [of 1, OF _ refl]) simp

text \<open>
  The bound is sharp. For 429496729 entries the size computation wraps around in 32 bits: the
  filter is created with 4294967290 bits and an empty bit array.
\<close>

theorem bloom_size_overflow:
  "num_bits (create_for_entries 429496729) = 4294967290 \<and> bits (create_for_entries 429496729) = []"
  by (simp add: create_for_entries_def bloom_new_def Let_def)

end
