(* ===== verification/Sstable.thy ===== *)
theory Sstable
  imports Wal Memtable Bloom
begin

text \<open>
  \<open>src/storage/sstable.cpp\<close>: the on-disk table. The writer lays out
  \<open>[entries][bloom header and bits][sparse index][footer]\<close>; the reader checks the footer, loads the
  filter and the index, and answers lookups from the file. A \<open>FILE*\<close> positioned in a file is the
  list of the bytes that are left (\<open>fread\<close>, \<open>fseek_set\<close>, and \<open>drop\<close> for a relative seek); sizes and
  offsets keep the width they have in the code, so \<open>8 + ksz + vsz\<close> is a sum of 32-bit words.
\<close>

section \<open>Writer\<close>

record IndexEntry =
  ie_key :: string
  ie_offset :: u64

definition sst_val_size :: "string option \<Rightarrow> u32" where
  "sst_val_size val = (case val of Some v \<Rightarrow> of_nat (length v) | None \<Rightarrow> TOMBSTONE_VAL_SIZE)"

definition sst_entry_bytes :: "string \<times> string option \<Rightarrow> byte list" where
  "sst_entry_bytes e =
     (let key_size = of_nat (length (fst e)) :: u32
      in encode_u32_le key_size @ encode_u32_le (sst_val_size (snd e))
         @ take (unat key_size) (bytes_of (fst e))
         @ (case snd e of Some v \<Rightarrow> if v \<noteq> [] then bytes_of v else [] | None \<Rightarrow> []))"

fun sst_build_loop ::
  "(string \<times> string option) list \<Rightarrow> nat \<Rightarrow> u64 \<Rightarrow> IndexEntry list \<Rightarrow> BloomFilter \<Rightarrow> byte list
   \<Rightarrow> u64 \<times> IndexEntry list \<times> BloomFilter \<times> byte list" where
  "sst_build_loop [] i offset index bloom out = (offset, index, bloom, out)"
| "sst_build_loop (e # es) i offset index bloom out =
     (let index' = (if i mod SPARSE_INDEX_INTERVAL = 0
                    then index @ [\<lparr>ie_key = fst e, ie_offset = offset\<rparr>] else index);
          key_size = of_nat (length (fst e)) :: u32;
          step = ucast (8 + key_size) + (case snd e of Some v \<Rightarrow> of_nat (length v) | None \<Rightarrow> 0)
      in sst_build_loop es (Suc i) (offset + step) index' (bloom_add (fst e) bloom)
           (out @ sst_entry_bytes e))"

definition index_entry_bytes :: "IndexEntry \<Rightarrow> byte list" where
  "index_entry_bytes ie =
     (let ksz = of_nat (length (ie_key ie)) :: u32
      in encode_u32_le ksz @ encode_u64_le (ie_offset ie) @ take (unat ksz) (bytes_of (ie_key ie)))"

definition sst_footer :: "u64 \<Rightarrow> u32 \<Rightarrow> u64 \<Rightarrow> u32 \<Rightarrow> u32 \<Rightarrow> byte list" where
  "sst_footer bloom_offset bloom_total_size index_offset n_index n_entries =
     encode_u64_le bloom_offset @ encode_u32_le bloom_total_size @ encode_u64_le index_offset
     @ encode_u32_le n_index @ encode_u32_le n_entries @ encode_u32_le SSTABLE_MAGIC"

text \<open>The bytes that \<open>build\<close> hands to \<open>fwrite\<close>, in order.\<close>

definition sst_image :: "(string \<times> string option) list \<Rightarrow> byte list" where
  "sst_image entries =
     (case sst_build_loop entries 0 0 [] (create_for_entries (of_nat (length entries))) [] of
        (bloom_offset, index, bloom, dat) \<Rightarrow>
          let bloom_total_size = of_nat (8 + length (bits bloom)) :: u32;
              index_offset = bloom_offset + ucast bloom_total_size
          in dat
             @ encode_u32_le (num_bits bloom) @ encode_u32_le (num_hashes bloom) @ bits bloom
             @ concat (map index_entry_bytes index)
             @ sst_footer bloom_offset bloom_total_size index_offset
                 (of_nat (length index)) (of_nat (length entries)))"

text \<open>
  The results of \<open>fwrite\<close>, \<open>fflush\<close> and \<open>fclose\<close> are ignored, so once the file is open the outcome is
  \<open>OK\<close>; what has reached the file is all of the image, or a prefix of it when the disk failed.
\<close>

definition sst_build :: "host \<Rightarrow> string \<Rightarrow> (string \<times> string option) list \<Rightarrow> Status \<times> host" where
  "sst_build h path entries =
     (if entries = [] then (INVALID_ARGUMENT, h)
      else case call_ok h of
        (False, h1) \<Rightarrow> (IO_ERROR, h1)
      | (True, h1) \<Rightarrow>
          (case next_io h1 of
             (Done, h2) \<Rightarrow> (OK, set_file path (sst_image entries) h2)
           | (Short n, h2) \<Rightarrow> (OK, set_file path (take n (sst_image entries)) h2)
           | (Fail, h2) \<Rightarrow> (OK, set_file path [] h2)))"

section \<open>Reader\<close>

record SSTableReader =
  rd_path :: string
  rd_file :: "byte list"
  rd_index :: "IndexEntry list"
  rd_bloom :: "BloomFilter option"
  rd_num_entries :: u32
  rd_bloom_offset :: u64
  rd_bloom_size :: u32
  rd_index_offset :: u64
  rd_min_key :: string
  rd_max_key :: string

definition fread :: "nat \<Rightarrow> byte list \<Rightarrow> (byte list \<times> byte list) option" where
  "fread n rest = (if n \<le> length rest then Some (take n rest, drop n rest) else None)"

text \<open>
  \<open>fseek(f, (long) offset, SEEK_SET)\<close> with a 64-bit \<open>long\<close>: an offset of \<open>2 ^ 63\<close> or more is negative and
  the call fails; an offset behind the end succeeds and the next read finds nothing.
\<close>

definition fseek_set :: "byte list \<Rightarrow> u64 \<Rightarrow> byte list option" where
  "fseek_set file offset = (if offset < 2 ^ 63 then Some (drop (unat offset) file) else None)"

definition reserve_capacity :: "u32 \<Rightarrow> nat" where
  "reserve_capacity n = unat n"

definition read_footer :: "byte list \<Rightarrow> (u64 \<times> u32 \<times> u64 \<times> nat \<times> u32) option" where
  "read_footer file =
     (if length file < SSTABLE_FOOTER_SIZE then None
      else let footer = drop (length file - SSTABLE_FOOTER_SIZE) file
           in if decode_u32_le (drop 28 footer) \<noteq> SSTABLE_MAGIC then None
              else Some (decode_u64_le footer, decode_u32_le (drop 8 footer),
                         decode_u64_le (drop 12 footer),
                         reserve_capacity (decode_u32_le (drop 20 footer)),
                         decode_u32_le (drop 24 footer)))"

definition read_bloom :: "byte list \<Rightarrow> u64 \<Rightarrow> u32 \<Rightarrow> BloomFilter option option" where
  "read_bloom file bloom_offset bloom_size =
     (if bloom_size = 0 then Some None
      else case fseek_set file bloom_offset of
        None \<Rightarrow> None
      | Some rest \<Rightarrow>
          (case fread 8 rest of
             None \<Rightarrow> None
           | Some (bhdr, rest1) \<Rightarrow>
               let nb = decode_u32_le bhdr;
                   nh = decode_u32_le (drop 4 bhdr);
                   dsz = unat (bloom_size - 8)
               in case fread dsz rest1 of
                    None \<Rightarrow> None
                  | Some (bdata, _) \<Rightarrow> Some (Some (bloom_from bdata nb nh))))"

fun read_index_loop :: "nat \<Rightarrow> byte list \<Rightarrow> IndexEntry list \<Rightarrow> IndexEntry list option" where
  "read_index_loop 0 rest index = Some index"
| "read_index_loop (Suc n) rest index =
     (case fread 12 rest of
        None \<Rightarrow> None
      | Some (buf, rest1) \<Rightarrow>
          let ksz = decode_u32_le buf;
              off = decode_u64_le (drop 4 buf)
          in case fread (unat ksz) rest1 of
               None \<Rightarrow> None
             | Some (kb, rest2) \<Rightarrow>
                 read_index_loop n rest2 (index @ [\<lparr>ie_key = string_of kb, ie_offset = off\<rparr>]))"

definition read_index :: "byte list \<Rightarrow> u64 \<Rightarrow> nat \<Rightarrow> IndexEntry list option" where
  "read_index file index_offset cap =
     (case fseek_set file index_offset of
        None \<Rightarrow> None
      | Some rest \<Rightarrow> read_index_loop cap rest [])"

text \<open>
  The size of an entry as the read loops add it up: \<open>8 + ksz + actual_vsz\<close> in 32 bits, where a
  tombstone has no value bytes.
\<close>

definition actual_vsz :: "u32 \<Rightarrow> u32" where
  "actual_vsz vsz = (if vsz = TOMBSTONE_VAL_SIZE then 0 else vsz)"

definition str_resize :: "nat \<Rightarrow> string \<Rightarrow> string" where
  "str_resize n s = take n s @ replicate (n - length s) (CHR 0x00)"

lemma fread_Some: "fread n rest = Some (bs, rest') \<Longrightarrow> length bs = n \<and> rest = bs @ rest'"
  by (auto simp: fread_def split: if_splits)

lemma fread_shorter: "fread n rest = Some (bs, rest') \<Longrightarrow> length rest' = length rest - n \<and> n \<le> length rest"
  by (auto simp: fread_def split: if_splits)

function last_key_loop :: "byte list \<Rightarrow> u64 \<Rightarrow> u64 \<Rightarrow> string \<Rightarrow> string" where
  "last_key_loop rest pos bloom_offset last_key =
     (if \<not> pos < bloom_offset then last_key
      else case fread 8 rest of
        None \<Rightarrow> last_key
      | Some (hdr, rest1) \<Rightarrow>
          let ksz = decode_u32_le hdr;
              vsz = decode_u32_le (drop 4 hdr);
              resized = str_resize (unat ksz) last_key
          in case fread (unat ksz) rest1 of
               None \<Rightarrow> string_of rest1 @ drop (length rest1) resized
             | Some (kb, rest2) \<Rightarrow>
                 let skip = ucast (actual_vsz vsz) :: u64
                 in last_key_loop (drop (unat skip) rest2) (pos + (ucast (8 + ksz) + skip))
                      bloom_offset (string_of kb))"
  by pat_completeness auto
termination
  by (relation "measure (\<lambda>(rest, _). length rest)") (auto dest!: fread_shorter)

definition sst_open :: "host \<Rightarrow> string \<Rightarrow> (exn + SSTableReader) \<times> host" where
  "sst_open h path =
     (case call_ok h of
        (False, h1) \<Rightarrow> (Inl (''Failed to open SSTable: '' @ path), h1)
      | (True, h1) \<Rightarrow>
          (case map_of (files h1) path of
             None \<Rightarrow> (Inl (''Failed to open SSTable: '' @ path), h1)
           | Some file \<Rightarrow>
               (case read_footer file of
                  None \<Rightarrow> (Inl (''Corrupt SSTable: '' @ path), h1)
                | Some (bloom_offset, bloom_size, index_offset, cap, num_entries) \<Rightarrow>
                    (case read_bloom file bloom_offset bloom_size of
                       None \<Rightarrow> (Inl (''Corrupt SSTable: '' @ path), h1)
                     | Some bloom \<Rightarrow>
                         (case read_index file index_offset cap of
                            None \<Rightarrow> (Inl (''Corrupt SSTable: '' @ path), h1)
                          | Some index \<Rightarrow>
                              (Inr \<lparr>rd_path = path, rd_file = file, rd_index = index, rd_bloom = bloom,
                                rd_num_entries = num_entries, rd_bloom_offset = bloom_offset,
                                rd_bloom_size = bloom_size, rd_index_offset = index_offset,
                                rd_min_key = (if index = [] then [] else ie_key (hd index)),
                                rd_max_key = (if index = [] then []
                                   else last_key_loop file 0 bloom_offset [])\<rparr>, h1))))))"

text \<open>The binary search of \<open>get\<close> and \<open>scan\<close>: the last index entry whose key is at most the one sought.\<close>

function index_search :: "IndexEntry list \<Rightarrow> string \<Rightarrow> nat \<Rightarrow> nat \<Rightarrow> nat \<Rightarrow> nat" where
  "index_search index key lo hi idx =
     (if \<not> lo \<le> hi then idx
      else let mid = lo + (hi - lo) div 2
           in if ie_key (index ! mid) \<le> key
              then (if mid = hi then mid else index_search index key (mid + 1) hi mid)
              else (if mid = 0 then idx else index_search index key lo (mid - 1) idx))"
  by pat_completeness auto
termination
  by (relation "measure (\<lambda>(index, key, lo, hi, idx). Suc hi - lo)") auto

function scan_from_loop :: "byte list \<Rightarrow> u64 \<Rightarrow> u64 \<Rightarrow> string \<Rightarrow> LookupResult" where
  "scan_from_loop rest pos end_offset key =
     (let not_found = \<lparr>found = False, is_tombstone = False, lr_value = []\<rparr>
      in if \<not> pos < end_offset then not_found
         else case fread 8 rest of
           None \<Rightarrow> not_found
         | Some (hdr, rest1) \<Rightarrow>
             let ksz = decode_u32_le hdr;
                 vsz = decode_u32_le (drop 4 hdr);
                 is_tomb = (vsz = TOMBSTONE_VAL_SIZE);
                 avsz = actual_vsz vsz
             in case fread (unat ksz) rest1 of
                  None \<Rightarrow> not_found
                | Some (kb, rest2) \<Rightarrow>
                    let entry_key = string_of kb
                    in if entry_key = key
                       then (if is_tomb
                             then \<lparr>found = True, is_tombstone = True, lr_value = []\<rparr>
                             else case fread (unat avsz) rest2 of
                               None \<Rightarrow> not_found
                             | Some (vb, _) \<Rightarrow>
                                 \<lparr>found = True, is_tombstone = False, lr_value = string_of vb\<rparr>)
                       else if entry_key > key then not_found
                       else scan_from_loop (drop (unat avsz) rest2) (pos + ucast (8 + ksz + avsz))
                              end_offset key)"
  by pat_completeness auto
termination
  by (relation "measure (\<lambda>(rest, _). length rest)") (auto dest!: fread_shorter)

text \<open>
  A seek to a negative offset fails and its result is not checked; the offsets of an image are far
  below \<open>2 ^ 63\<close>, and for others the model reads nothing.
\<close>

definition seek_or_nothing :: "byte list \<Rightarrow> u64 \<Rightarrow> byte list" where
  "seek_or_nothing file offset = (case fseek_set file offset of None \<Rightarrow> [] | Some rest \<Rightarrow> rest)"

definition scan_from :: "SSTableReader \<Rightarrow> u64 \<Rightarrow> u64 \<Rightarrow> string \<Rightarrow> LookupResult" where
  "scan_from r offset end_offset key =
     scan_from_loop (seek_or_nothing (rd_file r) offset) offset end_offset key"

definition sst_get :: "SSTableReader \<Rightarrow> string \<Rightarrow> LookupResult" where
  "sst_get r key =
     (let not_found = \<lparr>found = False, is_tombstone = False, lr_value = []\<rparr>
      in if rd_index r = [] then not_found
         else if key < rd_min_key r \<or> key > rd_max_key r then not_found
         else if (case rd_bloom r of None \<Rightarrow> False | Some b \<Rightarrow> \<not> possibly_contains b key)
         then not_found
         else let idx = index_search (rd_index r) key 0 (length (rd_index r) - 1) 0;
                  start = ie_offset (rd_index r ! idx);
                  end_offset = (if idx + 1 < length (rd_index r)
                                then ie_offset (rd_index r ! (idx + 1)) else rd_bloom_offset r)
              in scan_from r start end_offset key)"

function scan_loop ::
  "byte list \<Rightarrow> u64 \<Rightarrow> u64 \<Rightarrow> string \<Rightarrow> string \<Rightarrow> (string \<times> string option) list
   \<Rightarrow> (string \<times> string option) list" where
  "scan_loop rest pos bloom_offset start_key end_key result =
     (if \<not> pos < bloom_offset then result
      else case fread 8 rest of
        None \<Rightarrow> result
      | Some (hdr, rest1) \<Rightarrow>
          let ksz = decode_u32_le hdr;
              vsz = decode_u32_le (drop 4 hdr);
              is_tomb = (vsz = TOMBSTONE_VAL_SIZE);
              avsz = actual_vsz vsz;
              pos' = pos + ucast (8 + ksz + avsz)
          in case fread (unat ksz) rest1 of
               None \<Rightarrow> result
             | Some (kb, rest2) \<Rightarrow>
                 let entry_key = string_of kb
                 in if entry_key > end_key then result
                    else if entry_key \<ge> start_key
                    then (if is_tomb
                          then scan_loop rest2 pos' bloom_offset start_key end_key
                                 (result @ [(entry_key, None)])
                          else case fread (unat avsz) rest2 of
                            None \<Rightarrow> result
                          | Some (vb, rest3) \<Rightarrow>
                              scan_loop rest3 pos' bloom_offset start_key end_key
                                (result @ [(entry_key, Some (string_of vb))]))
                    else scan_loop (drop (unat avsz) rest2) pos' bloom_offset start_key end_key result)"
  by pat_completeness auto
termination
  by (relation "measure (\<lambda>(rest, _). length rest)") (auto dest!: fread_shorter)

definition sst_scan :: "SSTableReader \<Rightarrow> string \<Rightarrow> string \<Rightarrow> (string \<times> string option) list" where
  "sst_scan r start_key end_key =
     (if rd_index r = [] then []
      else if rd_min_key r > end_key \<or> rd_max_key r < start_key then []
      else let idx = index_search (rd_index r) start_key 0 (length (rd_index r) - 1) 0;
               offset = ie_offset (rd_index r ! idx)
           in scan_loop (seek_or_nothing (rd_file r) offset) offset (rd_bloom_offset r)
                start_key end_key [])"

function read_entries_loop ::
  "byte list \<Rightarrow> u64 \<Rightarrow> u64 \<Rightarrow> (string \<times> string option) list \<Rightarrow> (string \<times> string option) list" where
  "read_entries_loop rest pos bloom_offset result =
     (if \<not> pos < bloom_offset then result
      else case fread 8 rest of
        None \<Rightarrow> result
      | Some (hdr, rest1) \<Rightarrow>
          let ksz = decode_u32_le hdr;
              vsz = decode_u32_le (drop 4 hdr);
              is_tomb = (vsz = TOMBSTONE_VAL_SIZE);
              avsz = actual_vsz vsz;
              pos' = pos + ucast (8 + ksz + avsz)
          in case fread (unat ksz) rest1 of
               None \<Rightarrow> result
             | Some (kb, rest2) \<Rightarrow>
                 if is_tomb
                 then read_entries_loop rest2 pos' bloom_offset (result @ [(string_of kb, None)])
                 else case fread (unat avsz) rest2 of
                   None \<Rightarrow> result
                 | Some (vb, rest3) \<Rightarrow>
                     read_entries_loop rest3 pos' bloom_offset
                       (result @ [(string_of kb, Some (string_of vb))]))"
  by pat_completeness auto
termination
  by (relation "measure (\<lambda>(rest, _). length rest)") (auto dest!: fread_shorter)

declare last_key_loop.simps [simp del] index_search.simps [simp del] scan_from_loop.simps [simp del]
  scan_loop.simps [simp del] read_entries_loop.simps [simp del]

definition read_all_entries :: "SSTableReader \<Rightarrow> (string \<times> string option) list" where
  "read_all_entries r = read_entries_loop (rd_file r) 0 (rd_bloom_offset r) []"

definition sst_validate :: "host \<Rightarrow> string \<Rightarrow> bool \<times> host" where
  "sst_validate h path =
     (case call_ok h of
        (False, h1) \<Rightarrow> (False, h1)
      | (True, h1) \<Rightarrow>
          (case map_of (files h1) path of
             None \<Rightarrow> (False, h1)
           | Some file \<Rightarrow>
               (if length file < SSTABLE_FOOTER_SIZE then False
                else decode_u32_le (drop 28 (drop (length file - SSTABLE_FOOTER_SIZE) file))
                     = SSTABLE_MAGIC, h1)))"

end
