(* ===== verification/Sstable_Correct.thy ===== *)
theory Sstable_Correct
  imports Sstable
begin

text \<open>
  What the reader of an on-disk table returns on a file that the writer produced. The proof follows
  the layout: one entry, the loops over a run of entries, the sparse index and its binary search.
  \<open>Sstable_Reader\<close> puts them together.
\<close>

section \<open>One entry on disk\<close>

definition entry_size :: "string \<times> string option \<Rightarrow> nat" where
  "entry_size e = 8 + entry_bytes e"

definition data_size :: "(string \<times> string option) list \<Rightarrow> nat" where
  "data_size es = sum_list (map entry_size es)"

definition entry_ok :: "string \<times> string option \<Rightarrow> bool" where
  "entry_ok e \<longleftrightarrow> entry_size e < 2 ^ 32 - 1"

definition val_bytes :: "string option \<Rightarrow> byte list" where
  "val_bytes v = (case v of None \<Rightarrow> [] | Some s \<Rightarrow> bytes_of s)"

definition entry_hdr :: "string \<times> string option \<Rightarrow> byte list" where
  "entry_hdr e = encode_u32_le (of_nat (length (fst e))) @ encode_u32_le (sst_val_size (snd e))"

lemma data_size_simps [simp]:
  "data_size [] = 0" "data_size (e # es) = entry_size e + data_size es"
  "data_size (es @ fs) = data_size es + data_size fs"
  by (simp_all add: data_size_def)

lemma entry_size_ge [simp]: "8 \<le> entry_size e"
  by (simp add: entry_size_def)

lemma length_val_bytes: "length (val_bytes v) = (case v of None \<Rightarrow> 0 | Some s \<Rightarrow> length s)"
  by (simp add: val_bytes_def split: option.splits)

lemma entry_size_alt: "entry_size e = 8 + length (fst e) + length (val_bytes (snd e))"
  by (simp add: entry_size_def entry_bytes_def length_val_bytes)

lemma sst_entry_layout:
  assumes "entry_ok e"
  shows "sst_entry_bytes e = entry_hdr e @ bytes_of (fst e) @ val_bytes (snd e)"
  using assms
  by (auto simp: sst_entry_bytes_def entry_hdr_def val_bytes_def entry_ok_def entry_size_alt Let_def
      split: option.splits)

lemma length_sst_entry: "entry_ok e \<Longrightarrow> length (sst_entry_bytes e) = entry_size e"
  by (simp add: sst_entry_layout entry_hdr_def entry_size_alt)

lemma entry_hdr_fields [simp]:
  "length (entry_hdr e) = 8"
  "decode_u32_le (entry_hdr e) = of_nat (length (fst e))"
  "decode_u32_le (drop 4 (entry_hdr e)) = sst_val_size (snd e)"
  by (simp_all add: entry_hdr_def)

lemma word_of_nat_unat_u32: "(of_nat (unat w) :: u64) = ucast (w :: u32)"
  by simp

lemma entry_ok_sizes:
  assumes "entry_ok e"
  shows "unat (of_nat (length (fst e)) :: u32) = length (fst e)"
    and "sst_val_size (snd e) = TOMBSTONE_VAL_SIZE \<longleftrightarrow> snd e = None"
    and "unat (actual_vsz (sst_val_size (snd e))) = length (val_bytes (snd e))"
    and "ucast (8 + of_nat (length (fst e)) + actual_vsz (sst_val_size (snd e)) :: u32)
       = (of_nat (entry_size e) :: u64)"
proof -
  have k: "length (fst e) < 2 ^ 32" and v: "length (val_bytes (snd e)) < 2 ^ 32 - 1"
    and sz: "entry_size e < 2 ^ 32"
    using assms by (auto simp: entry_ok_def entry_size_alt)
  show k': "unat (of_nat (length (fst e)) :: u32) = length (fst e)" using k by simp
  show t: "sst_val_size (snd e) = TOMBSTONE_VAL_SIZE \<longleftrightarrow> snd e = None"
  proof (cases "snd e")
    case (Some s)
    then have "unat (of_nat (length s) :: u32) \<noteq> unat TOMBSTONE_VAL_SIZE"
      using v by (simp add: TOMBSTONE_VAL_SIZE_def val_bytes_def)
    with Some show ?thesis by (auto simp: sst_val_size_def)
  qed (simp add: sst_val_size_def)
  show a: "unat (actual_vsz (sst_val_size (snd e))) = length (val_bytes (snd e))"
    using v t by (auto simp: actual_vsz_def sst_val_size_def val_bytes_def split: option.splits)
  have "unat (8 + of_nat (length (fst e)) + actual_vsz (sst_val_size (snd e)) :: u32)
      = (8 + length (fst e) + length (val_bytes (snd e))) mod 2 ^ 32"
    by (simp add: unat_word_ariths a k' mod_simps)
  also have "\<dots> = entry_size e" using sz by (simp add: entry_size_alt)
  finally have "unat (8 + of_nat (length (fst e)) + actual_vsz (sst_val_size (snd e)) :: u32)
      = entry_size e" .
  then show "ucast (8 + of_nat (length (fst e)) + actual_vsz (sst_val_size (snd e)) :: u32)
       = (of_nat (entry_size e) :: u64)" by (metis word_of_nat_unat_u32)
qed

lemma last_key_step_size:
  assumes "entry_ok e"
  shows "ucast (8 + of_nat (length (fst e)) :: u32) + ucast (actual_vsz (sst_val_size (snd e)))
       = (of_nat (entry_size e) :: u64)"
proof -
  have "8 + length (fst e) < 2 ^ 32" using assms by (simp add: entry_ok_def entry_size_alt)
  then have "unat (8 + of_nat (length (fst e)) :: u32) = 8 + length (fst e)"
    by (simp add: unat_word_ariths mod_simps unat_of_nat)
  then have "ucast (8 + of_nat (length (fst e)) :: u32) = (of_nat (8 + length (fst e)) :: u64)"
    and "ucast (actual_vsz (sst_val_size (snd e))) = (of_nat (length (val_bytes (snd e))) :: u64)"
    using entry_ok_sizes(3) [OF assms] by (metis word_of_nat_unat_u32)+
  then show ?thesis by (simp add: entry_size_alt)
qed

lemma fread_append [simp]: "length xs = n \<Longrightarrow> fread n (xs @ ys) = Some (xs, ys)"
  by (simp add: fread_def)

lemma fread_entry:
  assumes "entry_ok e"
  shows "fread 8 (sst_entry_bytes e @ rest) =
    Some (entry_hdr e, bytes_of (fst e) @ val_bytes (snd e) @ rest)"
  using assms by (simp add: sst_entry_layout)

section \<open>The loops over a run of entries\<close>

text \<open>One iteration of each loop at the bytes of an entry.\<close>

lemma val_bytes_None [simp]: "val_bytes None = []"
  by (simp add: val_bytes_def)

lemma val_bytes_Some: "v \<noteq> None \<Longrightarrow> Some (string_of (val_bytes v)) = v"
  by (auto simp: val_bytes_def)

lemma lookup_result_Some:
  "lookup_result (Some v) = (if v = None then \<lparr>found = True, is_tombstone = True, lr_value = []\<rparr>
     else \<lparr>found = True, is_tombstone = False, lr_value = string_of (val_bytes v)\<rparr>)"
  by (auto simp: lookup_result_def val_bytes_def)

lemma lookup_result_None: "lookup_result None = \<lparr>found = False, is_tombstone = False, lr_value = []\<rparr>"
  by (simp add: lookup_result_def)

lemma read_entries_step:
  assumes "entry_ok e" "pos < fin"
  shows "read_entries_loop (sst_entry_bytes e @ rest) pos fin res =
    read_entries_loop rest (pos + of_nat (entry_size e)) fin (res @ [e])"
  using assms entry_ok_sizes [OF assms(1)]
  by (cases e, subst read_entries_loop.simps) (auto simp: fread_entry Let_def val_bytes_Some)

lemma last_key_step:
  assumes "entry_ok e" "pos < fin"
  shows "last_key_loop (sst_entry_bytes e @ rest) pos fin k =
    last_key_loop rest (pos + of_nat (entry_size e)) fin (fst e)"
  using assms entry_ok_sizes [OF assms(1)] last_key_step_size [OF assms(1)]
  by (subst last_key_loop.simps) (simp add: fread_entry Let_def)

lemma scan_from_step:
  assumes "entry_ok e" "pos < fin"
  shows "scan_from_loop (sst_entry_bytes e @ rest) pos fin key =
    (if fst e = key then lookup_result (Some (snd e))
     else if key < fst e then lookup_result None
     else scan_from_loop rest (pos + of_nat (entry_size e)) fin key)"
  using assms entry_ok_sizes [OF assms(1)]
  by (subst scan_from_loop.simps)
    (auto simp: fread_entry Let_def lookup_result_Some lookup_result_None)

lemma scan_step:
  assumes "entry_ok e" "pos < fin"
  shows "scan_loop (sst_entry_bytes e @ rest) pos fin lo hi res =
    (if hi < fst e then res
     else scan_loop rest (pos + of_nat (entry_size e)) fin lo hi
            (if lo \<le> fst e then res @ [e] else res))"
  using assms entry_ok_sizes [OF assms(1)]
  by (cases e, subst scan_loop.simps) (auto simp: fread_entry Let_def val_bytes_Some)

lemma loops_stop:
  assumes "\<not> pos < fin"
  shows "read_entries_loop rest pos fin res = res" "last_key_loop rest pos fin k = k"
    "scan_from_loop rest pos fin key = lookup_result None" "scan_loop rest pos fin lo hi res = res"
  using assms by (simp_all add: read_entries_loop.simps last_key_loop.simps scan_from_loop.simps
      scan_loop.simps lookup_result_None)

definition data_bytes :: "(string \<times> string option) list \<Rightarrow> byte list" where
  "data_bytes es = concat (map sst_entry_bytes es)"

lemma data_bytes_simps [simp]:
  "data_bytes [] = []" "data_bytes (e # es) = sst_entry_bytes e @ data_bytes es"
  "data_bytes (es @ fs) = data_bytes es @ data_bytes fs"
  by (simp_all add: data_bytes_def)

lemma length_data_bytes: "\<forall>e \<in> set es. entry_ok e \<Longrightarrow> length (data_bytes es) = data_size es"
  by (induction es) (simp_all add: length_sst_entry)

lemma of_nat_less_u64: "p < 2 ^ 64 \<Longrightarrow> q < 2 ^ 64 \<Longrightarrow> (of_nat p :: u64) < of_nat q \<longleftrightarrow> p < q"
  by (simp add: word_less_nat_alt)

text \<open>A run of entries that starts at offset \<open>p\<close> of the file and fills it up to \<open>p + data_size es\<close>.\<close>

lemma run_pos_less:
  assumes "p + data_size (e # es) < 2 ^ 64"
  shows "(of_nat p :: u64) < of_nat (p + data_size (e # es))"
proof -
  have "p < p + data_size (e # es)" by (simp add: entry_size_def)
  with assms show ?thesis by (subst of_nat_less_u64) simp_all
qed

lemma run_pos_step:
  "(of_nat p :: u64) + of_nat (entry_size e) = of_nat (p + entry_size e)"
  "p + data_size (e # es) = (p + entry_size e) + data_size es"
  by simp_all

lemma read_entries_run:
  assumes "\<forall>e \<in> set es. entry_ok e" "p + data_size es < 2 ^ 64"
  shows "read_entries_loop (data_bytes es @ tail) (of_nat p) (of_nat (p + data_size es)) res = res @ es"
  using assms
proof (induction es arbitrary: p res)
  case (Cons e es)
  have "read_entries_loop (sst_entry_bytes e @ data_bytes es @ tail) (of_nat p)
      (of_nat (p + data_size (e # es))) res
    = read_entries_loop (data_bytes es @ tail) (of_nat (p + entry_size e))
        (of_nat ((p + entry_size e) + data_size es)) (res @ [e])"
    using Cons.prems run_pos_less [OF Cons.prems(2)]
    by (simp only: read_entries_step run_pos_step list.set_intros)
  also have "\<dots> = (res @ [e]) @ es"
    using Cons.prems by (intro Cons.IH) simp_all
  finally show ?case by simp
qed (simp add: loops_stop)

lemma last_key_run:
  assumes "\<forall>e \<in> set es. entry_ok e" "p + data_size es < 2 ^ 64"
  shows "last_key_loop (data_bytes es @ tail) (of_nat p) (of_nat (p + data_size es)) k
    = (if es = [] then k else fst (last es))"
  using assms
proof (induction es arbitrary: p k)
  case (Cons e es)
  have "last_key_loop (sst_entry_bytes e @ data_bytes es @ tail) (of_nat p)
      (of_nat (p + data_size (e # es))) k
    = last_key_loop (data_bytes es @ tail) (of_nat (p + entry_size e))
        (of_nat ((p + entry_size e) + data_size es)) (fst e)"
    using Cons.prems run_pos_less [OF Cons.prems(2)]
    by (simp only: last_key_step run_pos_step list.set_intros)
  also have "\<dots> = (if es = [] then fst e else fst (last es))"
    using Cons.prems by (intro Cons.IH) simp_all
  finally show ?case by simp
qed (simp add: loops_stop)

lemma scan_from_run:
  assumes "\<forall>e \<in> set es. entry_ok e" "p + data_size es < 2 ^ 64" "smap_wf es"
  shows "scan_from_loop (data_bytes es @ tail) (of_nat p) (of_nat (p + data_size es)) key
    = lookup_result (map_of es key)"
  using assms
proof (induction es arbitrary: p)
  case (Cons e es)
  have "map_of es key = None" if "key < fst e"
    using that Cons.prems(3) by (auto simp: map_of_eq_None_iff smap_wf_Cons)
  moreover have "scan_from_loop (data_bytes es @ tail) (of_nat (p + entry_size e))
      (of_nat ((p + entry_size e) + data_size es)) key = lookup_result (map_of es key)"
    using Cons.prems by (intro Cons.IH) (simp_all add: smap_wf_Cons)
  moreover have "scan_from_loop (sst_entry_bytes e @ data_bytes es @ tail) (of_nat p)
      (of_nat (p + data_size (e # es))) key
    = (if fst e = key then lookup_result (Some (snd e))
       else if key < fst e then lookup_result None
       else scan_from_loop (data_bytes es @ tail) (of_nat (p + entry_size e))
        (of_nat ((p + entry_size e) + data_size es)) key)"
    using Cons.prems run_pos_less [OF Cons.prems(2)]
    by (simp only: scan_from_step run_pos_step list.set_intros)
  ultimately show ?case by (cases e) auto
qed (simp add: loops_stop)

lemma scan_run:
  assumes "\<forall>e \<in> set es. entry_ok e" "p + data_size es < 2 ^ 64" "smap_wf es"
  shows "scan_loop (data_bytes es @ tail) (of_nat p) (of_nat (p + data_size es)) lo hi res
    = res @ filter (\<lambda>e. lo \<le> fst e \<and> fst e \<le> hi) es"
  using assms
proof (induction es arbitrary: p res)
  case (Cons e es)
  have "filter (\<lambda>e. lo \<le> fst e \<and> fst e \<le> hi) es = []" if "hi < fst e"
    using that Cons.prems(3) by (auto simp: filter_empty_conv smap_wf_Cons)
  moreover have "scan_loop (data_bytes es @ tail) (of_nat (p + entry_size e))
      (of_nat ((p + entry_size e) + data_size es)) lo hi res'
    = res' @ filter (\<lambda>e. lo \<le> fst e \<and> fst e \<le> hi) es" for res'
    using Cons.prems by (intro Cons.IH) (simp_all add: smap_wf_Cons)
  moreover have "scan_loop (sst_entry_bytes e @ data_bytes es @ tail) (of_nat p)
      (of_nat (p + data_size (e # es))) lo hi res
    = (if hi < fst e then res
       else scan_loop (data_bytes es @ tail) (of_nat (p + entry_size e))
        (of_nat ((p + entry_size e) + data_size es)) lo hi (if lo \<le> fst e then res @ [e] else res))"
    using Cons.prems run_pos_less [OF Cons.prems(2)]
    by (simp only: scan_step run_pos_step list.set_intros)
  ultimately show ?case by auto
qed (simp add: loops_stop)

section \<open>The sparse index\<close>

text \<open>The index the writer builds: every sixteenth entry with the offset of its bytes.\<close>

definition sparse_index :: "(string \<times> string option) list \<Rightarrow> IndexEntry list" where
  "sparse_index es = map (\<lambda>j. \<lparr>ie_key = fst (es ! j), ie_offset = of_nat (data_size (take j es))\<rparr>)
     (filter (\<lambda>j. j mod SPARSE_INDEX_INTERVAL = 0) [0..<length es])"

lemma build_step_size:
  assumes "entry_ok e"
  shows "ucast (8 + of_nat (length (fst e)) :: u32)
      + (case snd e of Some v \<Rightarrow> of_nat (length v) | None \<Rightarrow> 0) = (of_nat (entry_size e) :: u64)"
proof -
  have "8 + length (fst e) < 2 ^ 32" using assms by (simp add: entry_ok_def entry_size_alt)
  then have "unat (8 + of_nat (length (fst e)) :: u32) = 8 + length (fst e)"
    by (simp add: unat_word_ariths mod_simps unat_of_nat)
  then have "ucast (8 + of_nat (length (fst e)) :: u32) = (of_nat (8 + length (fst e)) :: u64)"
    by (metis word_of_nat_unat_u32)
  then show ?thesis by (simp add: entry_size_def entry_bytes_def split: option.splits)
qed

text \<open>The state of the writer's loop after the entries \<open>pre\<close>.\<close>

lemma sst_build_loop_run:
  assumes "\<forall>e \<in> set es. entry_ok e"
  shows "sst_build_loop es (length pre) (of_nat (data_size pre)) (sparse_index pre) b out
    = (of_nat (data_size (pre @ es)), sparse_index (pre @ es), fold bloom_add (map fst es) b,
       out @ data_bytes es)"
  using assms
proof (induction es arbitrary: pre b out)
  case (Cons e es)
  have off: "of_nat (data_size pre) + (ucast (8 + of_nat (length (fst e)) :: u32)
      + (case snd e of Some v \<Rightarrow> of_nat (length v) | None \<Rightarrow> 0)) = (of_nat (data_size (pre @ [e])) :: u64)"
    using Cons.prems build_step_size [of e] by simp
  have idx: "sparse_index (pre @ [e]) = (if length pre mod SPARSE_INDEX_INTERVAL = 0
      then sparse_index pre @ [\<lparr>ie_key = fst e, ie_offset = of_nat (data_size pre)\<rparr>] else sparse_index pre)"
    by (auto simp: sparse_index_def nth_append)
  show ?case
    using Cons.IH [of "pre @ [e]"] Cons.prems
    by (simp add: Let_def off idx [symmetric] del: data_size_simps)
qed simp

definition n_blocks :: "'a list \<Rightarrow> nat" where
  "n_blocks es = (length es + 15) div 16"

lemma filter_mod_16: "filter (\<lambda>j. j mod 16 = 0) [0..<n] = map (\<lambda>q. 16 * q) [0..<(n + 15) div 16]"
proof (induction n)
  case (Suc n)
  show ?case
  proof (cases "n mod 16 = 0")
    case True
    then obtain a where a: "n = 16 * a" by auto
    have "(Suc n + 15) div 16 = Suc ((n + 15) div 16)" and "16 * ((n + 15) div 16) = n"
      unfolding a by simp_all
    then show ?thesis using True by (simp only: upt_Suc filter_append) (simp add: Suc.IH)
  next
    case False
    define a r where "a = n div 16" and "r = n mod 16"
    have n: "n = 16 * a + r" and "0 < r" "r < 16" using False by (simp_all add: a_def r_def)
    then have "(Suc n + 15) div 16 = a + 1" "(n + 15) div 16 = a + 1" by linarith+
    then have "(Suc n + 15) div 16 = (n + 15) div 16" by simp
    with False show ?thesis by (simp only: upt_Suc filter_append) (simp add: Suc.IH)
  qed
qed simp

lemma sparse_index_blocks:
  "sparse_index es = map (\<lambda>q. \<lparr>ie_key = fst (es ! (16 * q)),
     ie_offset = of_nat (data_size (take (16 * q) es))\<rparr>) [0..<n_blocks es]"
  by (simp add: sparse_index_def SPARSE_INDEX_INTERVAL_def filter_mod_16 n_blocks_def)

lemma length_sparse_index [simp]: "length (sparse_index es) = n_blocks es"
  by (simp add: sparse_index_blocks)

lemma nth_sparse_index:
  "q < n_blocks es \<Longrightarrow> sparse_index es ! q =
     \<lparr>ie_key = fst (es ! (16 * q)), ie_offset = of_nat (data_size (take (16 * q) es))\<rparr>"
  by (simp add: sparse_index_blocks)

lemma n_blocks_pos: "es \<noteq> [] \<Longrightarrow> 0 < n_blocks es"
  by (cases es) (simp_all add: n_blocks_def)

lemma n_blocks_nth: "q < n_blocks es \<Longrightarrow> 16 * q < length es"
  by (simp add: n_blocks_def)

lemma n_blocks_last: "length es \<le> 16 * n_blocks es"
  by (simp add: n_blocks_def)

lemma smap_wf_nth_less: "smap_wf es \<Longrightarrow> i < j \<Longrightarrow> j < length es \<Longrightarrow> fst (es ! i) < fst (es ! j)"
  using sorted_wrt_nth_less [of "(<)" "map fst es" i j] by (simp add: smap_wf_def)

lemma sparse_index_ascending:
  assumes "smap_wf es" "i < j" "j < n_blocks es"
  shows "ie_key (sparse_index es ! i) < ie_key (sparse_index es ! j)"
  using assms smap_wf_nth_less [OF assms(1), of "16 * i" "16 * j"] n_blocks_nth [OF assms(3)]
  by (simp add: nth_sparse_index)

section \<open>The binary search\<close>

text \<open>
  On an index in ascending order the search ends at the last entry whose key is not above the key
  sought, or at the first entry when there is none. The premises of the lemma are the loop's
  invariant.
\<close>

definition search_post :: "IndexEntry list \<Rightarrow> string \<Rightarrow> nat \<Rightarrow> nat \<Rightarrow> bool" where
  "search_post index key n r \<longleftrightarrow> r < n \<and> (\<forall>j. r < j \<and> j < n \<longrightarrow> key < ie_key (index ! j))
     \<and> (ie_key (index ! 0) \<le> key \<longrightarrow> ie_key (index ! r) \<le> key)
     \<and> (key < ie_key (index ! 0) \<longrightarrow> r = 0)"

lemma index_search_inv:
  assumes mono: "\<And>i j. i < j \<Longrightarrow> j < n \<Longrightarrow> ie_key (index ! i) < ie_key (index ! j)"
    and "hi < n" "\<forall>j < lo. ie_key (index ! j) \<le> key" "\<forall>j. hi < j \<and> j < n \<longrightarrow> key < ie_key (index ! j)"
    and "idx = lo - 1" "lo \<le> Suc hi"
  shows "search_post index key n (index_search index key lo hi idx)"
  using assms(2-)
proof (induction "Suc hi - lo" arbitrary: lo hi idx rule: less_induct)
  case less
  note inv = less.prems
  show ?case
  proof (cases "lo \<le> hi")
    case False
    with inv have e: "lo = Suc hi" "idx = hi" by simp_all
    then have "index_search index key lo hi idx = hi" by (simp add: index_search.simps)
    moreover have "\<not> key < ie_key (index ! 0)" using inv(2) e by (auto simp: not_less)
    ultimately show ?thesis using inv e by (simp add: search_post_def)
  next
    case lohi: True
    define mid where "mid = lo + (hi - lo) div 2"
    have mid: "lo \<le> mid" "mid \<le> hi" using lohi by (auto simp: mid_def)
    have unf: "index_search index key lo hi idx = (if ie_key (index ! mid) \<le> key
        then (if mid = hi then mid else index_search index key (mid + 1) hi mid)
        else (if mid = 0 then idx else index_search index key lo (mid - 1) idx))"
      using lohi by (subst index_search.simps)
        (simp only: Let_def mid_def [symmetric] if_False not_True_eq_False simp_thms)
    show ?thesis
    proof (cases "ie_key (index ! mid) \<le> key")
      case le: True
      have below: "ie_key (index ! j) \<le> key" if "j < mid + 1" for j
        using that le mono [of j mid] mid inv(1) by (cases "j = mid") auto
      have first: "\<not> key < ie_key (index ! 0)" using below [of 0] by simp
      have "search_post index key n hi" if "mid = hi"
        using that le first inv by (auto simp: search_post_def)
      moreover have "search_post index key n (index_search index key (mid + 1) hi mid)" if "mid \<noteq> hi"
      proof (rule less.hyps)
        show "Suc hi - (mid + 1) < Suc hi - lo" using lohi mid by simp
        show "\<forall>j < mid + 1. ie_key (index ! j) \<le> key" using below by simp
        show "mid + 1 \<le> Suc hi" using mid by simp
      qed (use inv in simp_all)
      ultimately show ?thesis using unf le by simp
    next
      case gt: False
      have above: "key < ie_key (index ! j)" if "mid \<le> j" "j < n" for j
        using that gt mono [of mid j] by (cases "j = mid") auto
      have "search_post index key n idx" if "mid = 0"
      proof -
        have "idx = 0" using that inv(4) mid by simp
        moreover have "\<not> ie_key (index ! 0) \<le> key" using gt that by simp
        ultimately show ?thesis using that above inv(1) by (simp add: search_post_def)
      qed
      moreover have "search_post index key n (index_search index key lo (mid - 1) idx)" if "mid \<noteq> 0"
      proof (rule less.hyps)
        show "Suc (mid - 1) - lo < Suc hi - lo" using that lohi mid by simp
        show "mid - 1 < n" using mid inv(1) by simp
        show "\<forall>j. mid - 1 < j \<and> j < n \<longrightarrow> key < ie_key (index ! j)"
          using above that by (metis Suc_leI Suc_pred neq0_conv One_nat_def)
        show "lo \<le> Suc (mid - 1)" using that mid by simp
      qed (use inv in simp_all)
      ultimately show ?thesis using unf gt by simp
    qed
  qed
qed

lemma index_search_spec:
  assumes "smap_wf es" "es \<noteq> []"
    and q_def: "q = index_search (sparse_index es) key 0 (length (sparse_index es) - 1) 0"
  shows "q < n_blocks es"
    and "\<And>j. q < j \<Longrightarrow> j < n_blocks es \<Longrightarrow> key < fst (es ! (16 * j))"
    and "fst (es ! 0) \<le> key \<Longrightarrow> fst (es ! (16 * q)) \<le> key"
    and "key < fst (es ! 0) \<Longrightarrow> q = 0"
proof -
  have pos: "0 < n_blocks es" by (rule n_blocks_pos [OF assms(2)])
  have "search_post (sparse_index es) key (n_blocks es) q"
    unfolding q_def
  proof (rule index_search_inv)
    show "\<And>i j. i < j \<Longrightarrow> j < n_blocks es \<Longrightarrow>
        ie_key (sparse_index es ! i) < ie_key (sparse_index es ! j)"
      by (rule sparse_index_ascending [OF assms(1)])
  qed (use pos in auto)
  then show "q < n_blocks es"
    and "\<And>j. q < j \<Longrightarrow> j < n_blocks es \<Longrightarrow> key < fst (es ! (16 * j))"
    and "fst (es ! 0) \<le> key \<Longrightarrow> fst (es ! (16 * q)) \<le> key"
    and "key < fst (es ! 0) \<Longrightarrow> q = 0"
    using pos by (auto simp: search_post_def nth_sparse_index)
qed

end
