(* ===== verification/Sstable_Reader.thy ===== *)
theory Sstable_Reader
  imports Sstable_Correct
begin

text \<open>
  A reader that is open on a table answers lookups, scans and full reads from the entries the writer
  was given; opening a written image gives such a reader. The last part interprets the
  \<open>sorted_run\<close> contract on the reader.
\<close>

section \<open>A reader that is open on a table\<close>

text \<open>
  The entries a table can hold: a non-empty ordered map, each entry below the 32-bit size limit (so
  that no size is the tombstone mark), few enough entries for the filter, and data well below the
  range of a signed 64-bit offset.
\<close>

definition sst_ok :: "(string \<times> string option) list \<Rightarrow> bool" where
  "sst_ok es \<longleftrightarrow> es \<noteq> [] \<and> smap_wf es \<and> (\<forall>e \<in> set es. entry_ok e)
     \<and> length es \<le> 429496728 \<and> data_size es < 2 ^ 62"

definition table_bloom :: "(string \<times> string option) list \<Rightarrow> BloomFilter" where
  "table_bloom es = fold bloom_add (map fst es) (create_for_entries (of_nat (length es)))"

definition reader_for :: "(string \<times> string option) list \<Rightarrow> SSTableReader \<Rightarrow> bool" where
  "reader_for es r \<longleftrightarrow> sst_ok es \<and> (\<exists>tail. rd_file r = data_bytes es @ tail)
     \<and> rd_index r = sparse_index es \<and> rd_bloom r = Some (table_bloom es)
     \<and> rd_bloom_offset r = of_nat (data_size es)
     \<and> rd_min_key r = fst (hd es) \<and> rd_max_key r = fst (last es)"

lemma seek_data:
  assumes "\<forall>e \<in> set pre. entry_ok e" "data_size pre < 2 ^ 62"
  shows "seek_or_nothing (data_bytes pre @ rest) (of_nat (data_size pre)) = rest"
proof -
  have "unat (of_nat (data_size pre) :: u64) = data_size pre" using assms(2) by simp
  moreover have "(of_nat (data_size pre) :: u64) < 2 ^ 63"
    using assms(2) by (simp add: word_less_nat_alt)
  ultimately show ?thesis
    using length_data_bytes [OF assms(1)] by (simp add: seek_or_nothing_def fseek_set_def)
qed

lemma table_bloom_contains:
  assumes "length es \<le> 429496728" "key \<in> fst ` set es"
  shows "possibly_contains (table_bloom es) key"
proof -
  have "unat (of_nat (length es) :: u32) \<le> 429496728" using assms(1) by simp
  then show ?thesis
    unfolding table_bloom_def using assms(2) by (intro bloom.no_false_negatives bloom_wf_create) auto
qed

lemma smap_wf_bounds:
  assumes "smap_wf es" "e \<in> set es"
  shows "fst (hd es) \<le> fst e" "fst e \<le> fst (last es)"
proof -
  obtain i where i: "i < length es" "es ! i = e" using assms(2) by (auto simp: in_set_conv_nth)
  have "fst (es ! 0) \<le> fst (es ! i)"
    using smap_wf_nth_less [OF assms(1), of 0 i] i by (cases "i = 0") auto
  moreover have "fst (es ! i) \<le> fst (es ! (length es - 1))"
  proof (cases "i = length es - 1")
    case False
    then have "i < length es - 1" "length es - 1 < length es" using i(1) by linarith+
    then show ?thesis using smap_wf_nth_less [OF assms(1)] by (simp add: less_imp_le)
  qed simp
  moreover have "es \<noteq> []" using assms(2) by auto
  ultimately show "fst (hd es) \<le> fst e" "fst e \<le> fst (last es)"
    using i by (auto simp: hd_conv_nth last_conv_nth)
qed

lemma read_all_entries_reader:
  assumes "reader_for es r"
  shows "read_all_entries r = es"
proof -
  obtain tail where "rd_file r = data_bytes es @ tail" using assms by (auto simp: reader_for_def)
  moreover have "\<forall>e \<in> set es. entry_ok e" "0 + data_size es < 2 ^ 64"
    using assms by (auto simp: reader_for_def sst_ok_def)
  ultimately show ?thesis
    using assms read_entries_run [of es 0 tail "[]"] by (simp add: read_all_entries_def reader_for_def)
qed

text \<open>The key sought can only be in the block that the index search selects.\<close>

lemma map_of_block:
  assumes "smap_wf (pre @ blk @ post)"
    and "blk \<noteq> []" "fst (hd blk) \<le> key" "post \<noteq> [] \<Longrightarrow> key < fst (hd post)"
  shows "map_of (pre @ blk @ post) key = map_of blk key"
proof -
  have "fst x < key" if "x \<in> set pre" for x
  proof -
    have "fst x < fst (hd blk)"
      using assms(1,2) that by (auto simp: smap_wf_append)
    with assms(3) show ?thesis by simp
  qed
  then have "map_of pre key = None" by (force simp: map_of_eq_None_iff)
  moreover have "key < fst x" if "x \<in> set post" for x
  proof -
    have "fst (hd post) \<le> fst x"
      using assms(1) that by (intro smap_wf_bounds) (auto simp: smap_wf_append)
    moreover have "post \<noteq> []" using that by auto
    ultimately show ?thesis using assms(4) by simp
  qed
  then have "map_of post key = None" by (force simp: map_of_eq_None_iff)
  ultimately show ?thesis
    by (simp add: map_of_append map_add_def split: option.splits)
qed

lemma scan_from_block:
  assumes es: "es = pre @ blk @ post" and ok: "sst_ok es"
    and fl: "rd_file r = data_bytes es @ tail"
  shows "scan_from r (of_nat (data_size pre)) (of_nat (data_size pre + data_size blk)) key
    = lookup_result (map_of blk key)"
proof -
  have e: "\<forall>e \<in> set pre. entry_ok e" "\<forall>e \<in> set blk. entry_ok e"
    and d: "data_size pre < 2 ^ 62" "data_size pre + data_size blk < 2 ^ 64" and wf: "smap_wf blk"
    using ok by (auto simp: es sst_ok_def smap_wf_append)
  have "seek_or_nothing (rd_file r) (of_nat (data_size pre)) = data_bytes blk @ data_bytes post @ tail"
    using seek_data [OF e(1) d(1)] by (simp add: fl es)
  then show ?thesis
    using scan_from_run [OF e(2) d(2) wf] by (simp add: scan_from_def)
qed

text \<open>The entries before, in and behind block \<open>q\<close>, and where the block ends in the file.\<close>

lemma block_split: "es = take (16 * q) es @ take 16 (drop (16 * q) es) @ drop (16 * Suc q) es"
proof -
  have "drop (16 * Suc q) es = drop 16 (drop (16 * q) es)" by (simp add: add.commute)
  then show ?thesis by (simp only: append_take_drop_id)
qed

lemma block_end:
  assumes "q < n_blocks es"
  shows "(if q + 1 < n_blocks es then ie_offset (sparse_index es ! (q + 1)) else of_nat (data_size es))
    = (of_nat (data_size (take (16 * q) es) + data_size (take 16 (drop (16 * q) es))) :: u64)"
proof (cases "q + 1 < n_blocks es")
  case True
  have "take (16 * (q + 1)) es = take (16 * q) es @ take 16 (drop (16 * q) es)"
    by (simp add: take_add [symmetric] add.commute)
  with True show ?thesis by (simp add: nth_sparse_index)
next
  case False
  then have "drop (16 * Suc q) es = []" using n_blocks_last [of es] assms by simp
  then have "es = take (16 * q) es @ take 16 (drop (16 * q) es)" using block_split [of es q] by simp
  with False show ?thesis by (metis data_size_simps(3))
qed

lemma block_lookup:
  assumes "smap_wf es" "q < n_blocks es" "fst (es ! (16 * q)) \<le> key"
    and "q + 1 < n_blocks es \<Longrightarrow> key < fst (es ! (16 * (q + 1)))"
  shows "map_of (take 16 (drop (16 * q) es)) key = map_of es key"
proof -
  let ?blk = "take 16 (drop (16 * q) es)" and ?post = "drop (16 * Suc q) es"
  have "16 * q < length es" by (rule n_blocks_nth [OF assms(2)])
  then have "?blk \<noteq> []" "hd ?blk = es ! (16 * q)" by (auto simp: hd_drop_conv_nth)
  moreover have "key < fst (hd ?post)" if "?post \<noteq> []"
    using that assms(4) n_blocks_last [of es] by (simp add: hd_drop_conv_nth)
  ultimately show ?thesis
    using map_of_block [of "take (16 * q) es" ?blk ?post key, folded block_split] assms(1,3) by simp
qed

lemma absent_key:
  assumes "sst_ok es"
    and "key < fst (hd es) \<or> fst (last es) < key \<or> \<not> possibly_contains (table_bloom es) key"
  shows "map_of es key = None"
proof (rule ccontr)
  assume "map_of es key \<noteq> None"
  then obtain e where e: "e \<in> set es" "fst e = key" by (auto simp: map_of_eq_None_iff)
  have "fst (hd es) \<le> key" "key \<le> fst (last es)"
    using smap_wf_bounds [OF _ e(1)] assms(1) e(2) by (auto simp: sst_ok_def)
  moreover have "possibly_contains (table_bloom es) key"
    using e assms(1) by (intro table_bloom_contains) (auto simp: sst_ok_def)
  ultimately show False using assms(2) by (meson not_less)
qed

lemma sparse_index_ne: "es \<noteq> [] \<Longrightarrow> sparse_index es \<noteq> []"
  using n_blocks_pos [of es] length_sparse_index [of es] by (metis length_0_conv less_irrefl)

lemma sst_get_reader:
  assumes "reader_for es r"
  shows "sst_get r key = lookup_result (map_of es key)"
proof -
  have ok: "sst_ok es" and wf: "smap_wf es" and ne: "es \<noteq> []"
    and idx: "rd_index r = sparse_index es" and bl: "rd_bloom r = Some (table_bloom es)"
    and bo: "rd_bloom_offset r = of_nat (data_size es)"
    and mk: "rd_min_key r = fst (hd es)" "rd_max_key r = fst (last es)"
    using assms by (auto simp: reader_for_def sst_ok_def)
  obtain tail where fl: "rd_file r = data_bytes es @ tail" using assms by (auto simp: reader_for_def)
  note ine = sparse_index_ne [OF ne]
  show ?thesis
  proof (cases "key < fst (hd es) \<or> fst (last es) < key \<or> \<not> possibly_contains (table_bloom es) key")
    case True
    with absent_key [OF ok this] show ?thesis
      by (auto simp: sst_get_def Let_def idx ine mk bl lookup_result_None)
  next
    case False
    define q where "q = index_search (sparse_index es) key 0 (length (sparse_index es) - 1) 0"
    note q = index_search_spec [OF wf ne q_def]
    have "index_search (sparse_index es) key 0 (n_blocks es - 1) 0 = q" by (simp add: q_def)
    moreover have "ie_offset (sparse_index es ! q) = of_nat (data_size (take (16 * q) es))"
      using q(1) by (simp add: nth_sparse_index)
    ultimately have "sst_get r key = scan_from r (of_nat (data_size (take (16 * q) es)))
        (of_nat (data_size (take (16 * q) es) + data_size (take 16 (drop (16 * q) es)))) key"
      using False block_end [OF q(1)]
      by (simp only: sst_get_def idx ine mk bl bo Let_def length_sparse_index if_False
          option.case not_True_eq_False de_Morgan_disj not_not simp_thms)
    also have "\<dots> = lookup_result (map_of (take 16 (drop (16 * q) es)) key)"
      by (rule scan_from_block [OF block_split ok fl])
    also have "map_of (take 16 (drop (16 * q) es)) key = map_of es key"
    proof (rule block_lookup [OF wf q(1)])
      show "fst (es ! (16 * q)) \<le> key" using q(3) False ne by (auto simp: hd_conv_nth not_less)
    qed (use q(2) [of "q + 1"] in simp)
    finally show ?thesis .
  qed
qed

lemma skipped_prefix:
  assumes "smap_wf es" "q < n_blocks es"
    and "lo < fst (es ! 0) \<Longrightarrow> q = 0" "fst (es ! 0) \<le> lo \<Longrightarrow> fst (es ! (16 * q)) \<le> lo"
  shows "filter (\<lambda>e. lo \<le> fst e \<and> fst e \<le> hi) (take (16 * q) es) = []"
proof (cases "lo < fst (es ! 0)")
  case False
  have "\<not> lo \<le> fst x" if x: "x \<in> set (take (16 * q) es)" for x
  proof -
    obtain i where "i < 16 * q" "es ! i = x" using x by (auto simp: in_set_conv_nth)
    then have "fst x < fst (es ! (16 * q))"
      using smap_wf_nth_less [OF assms(1) _ n_blocks_nth [OF assms(2)]] by blast
    moreover have "fst (es ! (16 * q)) \<le> lo" using False assms(4) by simp
    ultimately show ?thesis by simp
  qed
  then show ?thesis by (simp add: filter_empty_conv)
qed (use assms(3) in simp)

lemma sst_scan_reader:
  assumes "reader_for es r"
  shows "sst_scan r lo hi = smap_range lo hi es"
proof -
  have ok: "sst_ok es" and wf: "smap_wf es" and ne: "es \<noteq> []"
    and idx: "rd_index r = sparse_index es" and bo: "rd_bloom_offset r = of_nat (data_size es)"
    and mk: "rd_min_key r = fst (hd es)" "rd_max_key r = fst (last es)"
    using assms by (auto simp: reader_for_def sst_ok_def)
  obtain tail where fl: "rd_file r = data_bytes es @ tail" using assms by (auto simp: reader_for_def)
  note ine = sparse_index_ne [OF ne]
  show ?thesis
  proof (cases "fst (hd es) > hi \<or> fst (last es) < lo")
    case True
    have "\<not> (lo \<le> fst e \<and> fst e \<le> hi)" if "e \<in> set es" for e
      using True smap_wf_bounds [OF wf that] by (auto dest: order_trans)
    then have "filter (\<lambda>e. lo \<le> fst e \<and> fst e \<le> hi) es = []" by (simp add: filter_empty_conv)
    then have "smap_range lo hi es = []" using smap_range_filter [OF wf] by simp
    moreover have "sst_scan r lo hi = []" using True by (simp add: sst_scan_def mk)
    ultimately show ?thesis by simp
  next
    case False
    define q where "q = index_search (sparse_index es) lo 0 (length (sparse_index es) - 1) 0"
    note q = index_search_spec [OF wf ne q_def]
    define pre suf where "pre = take (16 * q) es" and "suf = drop (16 * q) es"
    have es: "es = pre @ suf" by (simp add: pre_def suf_def)
    have e: "\<forall>e \<in> set pre. entry_ok e" "\<forall>e \<in> set suf. entry_ok e"
      and d: "data_size pre < 2 ^ 62" "data_size pre + data_size suf < 2 ^ 64" and ws: "smap_wf suf"
      using ok by (auto simp: es sst_ok_def smap_wf_append)
    have "seek_or_nothing (rd_file r) (of_nat (data_size pre)) = data_bytes suf @ tail"
      using seek_data [OF e(1) d(1)] by (simp add: fl es)
    moreover have "(of_nat (data_size es) :: u64) = of_nat (data_size pre + data_size suf)"
      by (simp add: es)
    moreover have "\<not> (hi < fst (hd es) \<or> fst (last es) < lo)" using False .
    moreover have off: "ie_offset (sparse_index es ! q) = of_nat (data_size pre)"
      using q(1) by (simp add: nth_sparse_index pre_def)
    ultimately have "sst_scan r lo hi = filter (\<lambda>e. lo \<le> fst e \<and> fst e \<le> hi) suf"
      using scan_run [OF e(2) d(2) ws, of tail lo hi "[]"]
      by (simp only: sst_scan_def idx ine mk bo q_def [symmetric] Let_def if_False append_Nil)
    moreover have "filter (\<lambda>e. lo \<le> fst e \<and> fst e \<le> hi) pre = []"
      unfolding pre_def by (rule skipped_prefix [OF wf q(1) q(4) q(3)]) simp_all
    ultimately show ?thesis
      by (subst smap_range_filter [OF wf]) (simp add: es)
  qed
qed

section \<open>Opening a written image\<close>

definition bloom_section :: "BloomFilter \<Rightarrow> byte list" where
  "bloom_section b = encode_u32_le (num_bits b) @ encode_u32_le (num_hashes b) @ bits b"

definition index_section :: "(string \<times> string option) list \<Rightarrow> byte list" where
  "index_section es = concat (map index_entry_bytes (sparse_index es))"

definition table_footer :: "(string \<times> string option) list \<Rightarrow> byte list" where
  "table_footer es = (let n = 8 + length (bits (table_bloom es)) in
     sst_footer (of_nat (data_size es)) (of_nat n) (of_nat (data_size es + n))
       (of_nat (n_blocks es)) (of_nat (length es)))"

lemma fold_bloom_add_simps [simp]:
  "num_bits (fold bloom_add ks b) = num_bits b" "num_hashes (fold bloom_add ks b) = num_hashes b"
  "length (bits (fold bloom_add ks b)) = length (bits b)"
  by (induction ks arbitrary: b) simp_all

lemma table_bloom_size: "length (bits (table_bloom es)) < 2 ^ 30"
proof -
  have "unat (w div 8 :: u32) < 2 ^ 30" for w
    using less_mult_imp_div_less [of "unat w" "2 ^ 30" 8] unat_u32_less [of w] by (simp add: unat_div)
  then show ?thesis by (simp add: table_bloom_def create_for_entries_def bloom_new_def Let_def)
qed

lemma bloom_total_lt: "n < 2 ^ 30 \<Longrightarrow> 8 + n < 2 ^ 32" "n < 2 ^ 30 \<Longrightarrow> n < (2 :: nat) ^ 32"
  by simp_all

lemma sst_image_sections:
  assumes "sst_ok es"
  shows "sst_image es = data_bytes es @ bloom_section (table_bloom es) @ index_section es @ table_footer es"
proof -
  have "\<forall>e \<in> set es. entry_ok e" using assms by (simp add: sst_ok_def)
  from sst_build_loop_run [OF this, of "[]"]
  have "sst_build_loop es 0 0 [] (create_for_entries (of_nat (length es))) [] =
      (of_nat (data_size es), sparse_index es, table_bloom es, data_bytes es)"
    by (simp add: sparse_index_def table_bloom_def)
  moreover have "ucast (of_nat (8 + length (bits (table_bloom es))) :: u32)
      = (of_nat (8 + length (bits (table_bloom es))) :: u64)"
    using table_bloom_size [of es] by (metis word_of_nat_unat_u32 unat_of_nat_u32 bloom_total_lt)
  ultimately show ?thesis
    by (simp add: sst_image_def bloom_section_def index_section_def table_footer_def Let_def)
qed

lemma length_table_footer [simp]: "length (table_footer es) = 32"
  by (simp add: table_footer_def sst_footer_def Let_def)

lemma footer_fields:
  assumes "f = sst_footer bo bs io ni ne"
  shows "decode_u64_le f = bo" "decode_u32_le (drop 8 f) = bs" "decode_u64_le (drop 12 f) = io"
    "decode_u32_le (drop 20 f) = ni" "decode_u32_le (drop 24 f) = ne"
    "decode_u32_le (drop 28 f) = SSTABLE_MAGIC"
  by (simp_all add: assms sst_footer_def)

lemma length_sst_footer [simp]: "length (sst_footer bo bs io ni ne) = 32"
  by (simp add: sst_footer_def)

lemma read_footer_append:
  "read_footer (pre @ sst_footer bo bs io ni ne) = Some (bo, bs, io, unat ni, ne)"
proof -
  have "drop (length (pre @ sst_footer bo bs io ni ne) - 32) (pre @ sst_footer bo bs io ni ne)
      = sst_footer bo bs io ni ne" by simp
  then show ?thesis
    by (simp only: read_footer_def SSTABLE_FOOTER_SIZE_def Let_def footer_fields [OF refl]
        reserve_capacity_def) simp
qed

lemma read_footer_image:
  assumes "sst_ok es"
  shows "read_footer (pre @ table_footer es) =
    (let n = 8 + length (bits (table_bloom es)) in
     Some (of_nat (data_size es), of_nat n, of_nat (data_size es + n), n_blocks es, of_nat (length es)))"
proof -
  have "n_blocks es < 2 ^ 32" using assms by (simp add: sst_ok_def n_blocks_def less_mult_imp_div_less)
  then show ?thesis
    by (simp add: table_footer_def read_footer_append Let_def del: of_nat_add)
qed

lemma fseek_set_append:
  "length pre < 2 ^ 63 \<Longrightarrow> fseek_set (pre @ rest) (of_nat (length pre)) = Some rest"
  by (simp add: fseek_set_def word_less_nat_alt)

lemma read_bloom_image:
  assumes "length pre < 2 ^ 63" "length (bits b) < 2 ^ 30"
  shows "read_bloom (pre @ bloom_section b @ rest) (of_nat (length pre)) (of_nat (8 + length (bits b)))
    = Some (Some b)"
proof -
  have n: "unat (of_nat (8 + length (bits b)) :: u32) = 8 + length (bits b)"
    using assms(2) by (intro unat_of_nat_u32) simp
  then have nz: "(of_nat (8 + length (bits b)) :: u32) \<noteq> 0" by (metis add_eq_0_iff_both_eq_0 unat_0 zero_neq_numeral)
  have "(of_nat (8 + length (bits b)) :: u32) - 8 = of_nat (length (bits b))" by simp
  then have d: "unat ((of_nat (8 + length (bits b)) :: u32) - 8) = length (bits b)"
    using assms(2) by (metis unat_of_nat_u32 bloom_total_lt(2))
  have "fread 8 (bloom_section b @ rest)
      = Some (encode_u32_le (num_bits b) @ encode_u32_le (num_hashes b), bits b @ rest)"
    using fread_append [of "encode_u32_le (num_bits b) @ encode_u32_le (num_hashes b)" 8]
    by (simp add: bloom_section_def)
  then show ?thesis
    using nz d fseek_set_append [OF assms(1)]
    by (simp add: read_bloom_def bloom_from_def Let_def del: of_nat_add)
qed

lemma read_index_loop_run:
  assumes "\<forall>ie \<in> set index. length (ie_key ie) < 2 ^ 32"
  shows "read_index_loop (length index) (concat (map index_entry_bytes index) @ rest) acc
    = Some (acc @ index)"
  using assms
proof (induction index arbitrary: acc)
  case (Cons ie index)
  let ?h = "encode_u32_le (of_nat (length (ie_key ie))) @ encode_u64_le (ie_offset ie)"
  have "index_entry_bytes ie = ?h @ bytes_of (ie_key ie)"
    using Cons.prems by (simp add: index_entry_bytes_def Let_def)
  moreover have "fread 12 (?h @ xs) = Some (?h, xs)" for xs by (rule fread_append) simp
  ultimately show ?case using Cons by simp
qed simp

lemma sparse_index_keys:
  assumes "sst_ok es" "ie \<in> set (sparse_index es)"
  shows "length (ie_key ie) < 2 ^ 32"
proof -
  obtain q where "q < n_blocks es" "ie_key ie = fst (es ! (16 * q))"
    using assms(2) by (auto simp: sparse_index_blocks)
  then have "entry_ok (es ! (16 * q))" using assms(1) n_blocks_nth [of q es] by (simp add: sst_ok_def)
  with \<open>ie_key ie = _\<close> show ?thesis by (simp add: entry_ok_def entry_size_alt)
qed

lemma read_index_image:
  assumes "sst_ok es" "length pre < 2 ^ 63"
  shows "read_index (pre @ index_section es @ rest) (of_nat (length pre)) (n_blocks es)
    = Some (sparse_index es)"
  using read_index_loop_run [of "sparse_index es" rest "[]"] sparse_index_keys [OF assms(1)]
    fseek_set_append [OF assms(2)]
  by (simp add: read_index_def index_section_def)

lemma last_key_image:
  assumes "sst_ok es"
  shows "last_key_loop (data_bytes es @ tail) 0 (of_nat (data_size es)) k = fst (last es)"
  using assms last_key_run [of es 0 tail k] by (simp add: sst_ok_def)

text \<open>Opening the file that holds the image of a table succeeds and gives a reader of its entries.\<close>

lemma sst_open_image:
  assumes "script h = []" "map_of (files h) path = Some (sst_image es)" "sst_ok es"
  shows "\<exists>r. sst_open h path = (Inr r, h) \<and> rd_path r = path \<and> reader_for es r"
proof -
  define n where "n = 8 + length (bits (table_bloom es))"
  let ?b = "bloom_section (table_bloom es)"
  have img: "sst_image es = data_bytes es @ ?b @ index_section es @ table_footer es"
    by (rule sst_image_sections [OF assms(3)])
  have dl: "length (data_bytes es) = data_size es"
    using assms(3) by (simp add: length_data_bytes sst_ok_def)
  have lt: "data_size es < 2 ^ 63" and lt': "length (data_bytes es @ ?b) < 2 ^ 63"
    using assms(3) table_bloom_size [of es] by (auto simp: sst_ok_def dl bloom_section_def)
  have ft: "read_footer (sst_image es) =
      Some (of_nat (data_size es), of_nat n, of_nat (data_size es + n), n_blocks es, of_nat (length es))"
    using read_footer_image [OF assms(3), of "data_bytes es @ ?b @ index_section es"]
    by (simp add: img n_def Let_def)
  have bl: "read_bloom (sst_image es) (of_nat (data_size es)) (of_nat n) = Some (Some (table_bloom es))"
    using read_bloom_image [of "data_bytes es"] lt table_bloom_size dl by (simp add: img n_def)
  have "length (data_bytes es @ ?b) = data_size es + n" by (simp add: dl bloom_section_def n_def)
  then have ix: "read_index (sst_image es) (of_nat (data_size es + n)) (n_blocks es) = Some (sparse_index es)"
    using read_index_image [OF assms(3) lt', of "table_footer es"] by (simp add: img)
  have ne: "es \<noteq> []" and hd: "ie_key (hd (sparse_index es)) = fst (hd es)"
    using assms(3) n_blocks_pos [of es]
    by (auto simp: sst_ok_def sparse_index_blocks hd_map hd_conv_nth)
  show ?thesis
    using assms last_key_image [OF assms(3)] sparse_index_ne [OF ne] hd
    by (simp add: sst_open_def call_ok_quiet ft bl ix reader_for_def del: of_nat_add) (simp add: img)
qed

lemma sst_validate_image:
  assumes "script h = []" "map_of (files h) path = Some (sst_image es)" "sst_ok es"
  shows "sst_validate h path = (True, h)"
  using assms footer_fields [OF refl]
  by (simp add: sst_validate_def call_ok_quiet sst_image_sections SSTABLE_FOOTER_SIZE_def
      table_footer_def Let_def del: of_nat_add)

interpretation sst_run: sorted_run read_all_entries sst_get sst_scan "\<lambda>r. \<exists>es. reader_for es r"
proof
  fix r k lo hi
  assume "\<exists>es. reader_for es r"
  then obtain es where es: "reader_for es r" ..
  then show "smap_wf (read_all_entries r)"
    by (auto simp: read_all_entries_reader [OF es] reader_for_def sst_ok_def)
  show "sst_get r k = lookup_result (map_of (read_all_entries r) k)"
    by (simp add: read_all_entries_reader [OF es] sst_get_reader [OF es])
  show "sst_scan r lo hi = smap_range lo hi (read_all_entries r)"
    by (simp add: read_all_entries_reader [OF es] sst_scan_reader [OF es])
qed

section \<open>Properties of the table on disk\<close>

text \<open>
  C3: what the writer lays out, the reader gets back. On a system where no call fails, building a
  table of entries within the size limits and opening the file gives a reader that returns exactly
  the entries, answers every lookup as the ordered map of the entries does (a value, a tombstone,
  or nothing, also for keys the Bloom filter or the key range excludes), and scans exactly the
  entries between the bounds in key order.
\<close>

theorem sst_round_trip:
  assumes "script h = []" "sst_ok es"
  shows "\<exists>h' r. sst_build h path es = (OK, h') \<and> sst_validate h' path = (True, h')
    \<and> sst_open h' path = (Inr r, h') \<and> read_all_entries r = es
    \<and> (\<forall>k. sst_get r k = lookup_result (map_of es k))
    \<and> (\<forall>lo hi. sst_scan r lo hi = filter (\<lambda>e. lo \<le> fst e \<and> fst e \<le> hi) es)"
proof -
  let ?h = "set_file path (sst_image es) h"
  have q: "script ?h = []" "map_of (files ?h) path = Some (sst_image es)" using assms(1) by simp_all
  have wf: "smap_wf es" and "es \<noteq> []" using assms(2) by (simp_all add: sst_ok_def)
  then have "sst_build h path es = (OK, ?h)"
    using assms(1) by (simp add: sst_build_def call_ok_quiet next_io_quiet)
  moreover obtain r where "sst_open ?h path = (Inr r, ?h)" "reader_for es r"
    using sst_open_image [OF q assms(2)] by blast
  ultimately show ?thesis
    using sst_validate_image [OF q assms(2)] read_all_entries_reader sst_get_reader sst_scan_reader
      smap_range_filter [OF wf] by (intro exI [of _ ?h] exI [of _ r]) simp
qed

definition ex_table :: "(string \<times> string option) list" where
  "ex_table = [(''a'', Some ''1''), (''b'', None), (''c'', Some [])]"

lemma ex_table_ok: "sst_ok ex_table"
  by (simp add: sst_ok_def ex_table_def smap_wf_def entry_ok_def entry_size_def entry_bytes_def)

theorem sst_round_trip_witness:
  "sst_ok ex_table
   \<and> (\<exists>h' r. sst_build \<lparr>files = [], script = []\<rparr> ''t'' ex_table = (OK, h') \<and> sst_open h' ''t'' = (Inr r, h')
      \<and> sst_get r ''b'' = \<lparr>found = True, is_tombstone = True, lr_value = []\<rparr>
      \<and> sst_get r ''a'' = \<lparr>found = True, is_tombstone = False, lr_value = ''1''\<rparr>)"
proof -
  obtain h' r where "sst_build \<lparr>files = [], script = []\<rparr> ''t'' ex_table = (OK, h')"
    "sst_open h' ''t'' = (Inr r, h')" "\<forall>k. sst_get r k = lookup_result (map_of ex_table k)"
    using sst_round_trip [of "\<lparr>files = [], script = []\<rparr>" ex_table "''t''"] ex_table_ok by auto
  then show ?thesis
    using ex_table_ok by (intro conjI exI [of _ h'] exI [of _ r]) (simp_all add: ex_table_def lookup_result_def)
qed

text \<open>
  C34: the binary search over the sparse index agrees with a linear one. On an index with strictly
  ascending keys it returns the position of the last entry whose key is at most the one sought, and
  position 0 when there is none.
\<close>

theorem index_search_linear:
  assumes "index \<noteq> []" "sorted_wrt (\<lambda>a b. ie_key a < ie_key b) index"
  shows "index_search index key 0 (length index - 1) 0
    = length (takeWhile (\<lambda>ie. ie_key ie \<le> key) index) - 1"
proof -
  define q where "q = index_search index key 0 (length index - 1) 0"
  have mono: "ie_key (index ! i) < ie_key (index ! j)" if "i < j" "j < length index" for i j
    using sorted_wrt_nth_less [OF assms(2) that] .
  have "search_post index key (length index) q"
    unfolding q_def by (rule index_search_inv) (use mono assms(1) in auto)
  then have q: "q < length index" "\<And>j. q < j \<Longrightarrow> j < length index \<Longrightarrow> key < ie_key (index ! j)"
    "ie_key (index ! 0) \<le> key \<Longrightarrow> ie_key (index ! q) \<le> key" "key < ie_key (index ! 0) \<Longrightarrow> q = 0"
    by (auto simp: search_post_def)
  show ?thesis
  proof (cases "ie_key (index ! 0) \<le> key")
    case True
    have "ie_key (index ! j) \<le> key" if "j < Suc q" for j
      using that q(1) q(3) [OF True] mono [of j q] by (cases "j = q") auto
    then have "takeWhile (\<lambda>ie. ie_key ie \<le> key) index = take (Suc q) index"
      using q(1) q(2) [of "Suc q"] by (intro takeWhile_eq_take_P_nth) (auto simp: not_le)
    then show ?thesis using q(1) unfolding q_def [symmetric] by simp
  next
    case False
    then show ?thesis using q(4) assms(1) unfolding q_def [symmetric] by (cases index) auto
  qed
qed

theorem index_search_linear_witness:
  "index_search (sparse_index ex_table) ''b'' 0 (length (sparse_index ex_table) - 1) 0
     = length (takeWhile (\<lambda>ie. ie_key ie \<le> ''b'') (sparse_index ex_table)) - 1"
  by (rule index_search_linear)
    (simp_all add: sparse_index_def ex_table_def SPARSE_INDEX_INTERVAL_def upt_rec)

text \<open>
  A file that is shorter than a footer, or whose last four bytes are not the magic number, is
  refused: validation says no and opening throws, whatever the rest of the file holds.
\<close>

theorem sst_open_rejects:
  assumes "script h = []" "map_of (files h) path = Some bs"
    and "length bs < SSTABLE_FOOTER_SIZE \<or> decode_u32_le (drop (length bs - 4) bs) \<noteq> SSTABLE_MAGIC"
  shows "sst_open h path = (Inl (''Corrupt SSTable: '' @ path), h) \<and> sst_validate h path = (False, h)"
proof -
  have "drop 28 (drop (length bs - 32) bs) = drop (length bs - 4) bs" if "\<not> length bs < 32"
    using that by simp
  with assms show ?thesis
    by (auto simp: sst_open_def sst_validate_def read_footer_def call_ok_quiet Let_def
        SSTABLE_FOOTER_SIZE_def)
qed

theorem sst_open_rejects_witness:
  "sst_open \<lparr>files = [(''t'', [77, 83])], script = []\<rparr> ''t''
     = (Inl ''Corrupt SSTable: t'', \<lparr>files = [(''t'', [77, 83])], script = []\<rparr>)
   \<and> sst_open \<lparr>files = [(''u'', replicate 36 0)], script = []\<rparr> ''u''
     = (Inl ''Corrupt SSTable: u'', \<lparr>files = [(''u'', replicate 36 0)], script = []\<rparr>)"
  using sst_open_rejects [of "\<lparr>files = [(''t'', [77, 83])], script = []\<rparr>" "''t''" "[77, 83]"]
    sst_open_rejects [of "\<lparr>files = [(''u'', replicate 36 0)], script = []\<rparr>" "''u''" "replicate 36 0"]
  by (simp add: SSTABLE_FOOTER_SIZE_def SSTABLE_MAGIC_def decode_u32_le_def)

text \<open>
  The writer does not notice that the disk is full. When the file can be created but nothing
  can be written to it, \<open>build\<close> still reports success, and the file it leaves is refused by the
  reader.
\<close>

theorem sst_build_ignores_write_errors:
  assumes "script h = [Done, Fail]" "es \<noteq> []"
  shows "\<exists>h'. sst_build h path es = (OK, h') \<and> file_bytes h' path = []
    \<and> sst_open h' path = (Inl (''Corrupt SSTable: '' @ path), h')"
  using assms
  by (simp add: sst_build_def call_ok_def next_io_def sst_open_def read_footer_def
      SSTABLE_FOOTER_SIZE_def)

theorem sst_build_ignores_write_errors_witness:
  "\<exists>h'. sst_build \<lparr>files = [], script = [Done, Fail]\<rparr> ''t'' ex_table = (OK, h') \<and> file_bytes h' ''t'' = []"
  using sst_build_ignores_write_errors [of "\<lparr>files = [], script = [Done, Fail]\<rparr>" ex_table "''t''"]
  by (auto simp: ex_table_def)

end
