(* ===== verification/Compaction.thy ===== *)
theory Compaction
  imports Sstable_Reader
begin

text \<open>
  \<open>src/compaction/compaction.cpp\<close>: merging the tables on disk into one. The inputs are ordered newest
  first; the merge inserts them oldest first, so that newer entries overwrite older ones, drops the
  tombstones and writes what is left.
\<close>

definition compact_merge :: "SSTableReader list \<Rightarrow> (string \<times> string option) list" where
  "compact_merge inputs = fold (\<lambda>r merged. smap_put_all (read_all_entries r) merged) (rev inputs) []"

definition compact_result :: "SSTableReader list \<Rightarrow> (string \<times> string option) list" where
  "compact_result inputs =
     (let result = filter (\<lambda>e. snd e \<noteq> None) (compact_merge inputs)
      in if result = [] then result @ [(''__empty__'', Some [])] else result)"

definition compact :: "host \<Rightarrow> SSTableReader list \<Rightarrow> string \<Rightarrow> Status \<times> host" where
  "compact h inputs output_path =
     (if inputs = [] then (INVALID_ARGUMENT, h)
      else sst_build h output_path (compact_result inputs))"

section \<open>What is left after the merge\<close>

definition run_ok :: "SSTableReader \<Rightarrow> bool" where
  "run_ok r \<longleftrightarrow> (\<exists>es. reader_for es r)"

text \<open>The value a client sees in a stack of maps: the newest entry of the key, if it is live.\<close>

definition live :: "string option smap list \<Rightarrow> string \<Rightarrow> string option" where
  "live ms k = (case layered ms k of Some (Some v) \<Rightarrow> Some v | _ \<Rightarrow> None)"

lemma compact_merge_fold: "compact_merge inputs = fold smap_put_all (rev (map read_all_entries inputs)) []"
  by (simp add: compact_merge_def fold_map comp_def rev_map)

lemma smap_wf_compact_merge: "smap_wf (compact_merge inputs)"
  by (simp add: compact_merge_fold smap_wf_merge)

lemma map_of_compact_merge:
  assumes "\<forall>r \<in> set inputs. run_ok r"
  shows "map_of (compact_merge inputs) k = layered (map read_all_entries inputs) k"
proof -
  have "\<forall>m \<in> set (map read_all_entries inputs). smap_wf m"
    using assms sst_run.entries_wf by (auto simp: run_ok_def)
  then show ?thesis by (simp add: compact_merge_fold map_of_merge_layers)
qed

lemma map_of_filter_live:
  assumes "smap_wf m"
  shows "map_of (filter (\<lambda>e. snd e \<noteq> None) m) k = (case map_of m k of Some (Some v) \<Rightarrow> Some (Some v) | _ \<Rightarrow> None)"
  using assms
proof (induction m)
  case (Cons e m)
  have "map_of m (fst e) = None"
    using Cons.prems by (auto simp: map_of_eq_None_iff smap_wf_Cons)
  with Cons show ?case by (cases e) (auto simp: smap_wf_Cons split: option.splits)
qed simp

lemma filter_live_Nil:
  assumes "smap_wf m"
  shows "filter (\<lambda>e. snd e \<noteq> None) m = [] \<longleftrightarrow> (\<forall>k v. map_of m k \<noteq> Some (Some v))"
proof -
  have "distinct (map fst m)" by (rule smap_wf_distinct [OF assms])
  then show ?thesis by (auto simp: filter_empty_conv map_of_eq_Some_iff) (metis option.exhaust)
qed

lemma compact_result_map:
  assumes "\<forall>r \<in> set inputs. run_ok r" "live (map read_all_entries inputs) k0 \<noteq> None"
  shows "compact_result inputs \<noteq> []" "smap_wf (compact_result inputs)"
    "map_of (compact_result inputs) k = map_option Some (live (map read_all_entries inputs) k)"
    "set (compact_result inputs) \<subseteq> set (compact_merge inputs)"
    "length (compact_result inputs) \<le> length (compact_merge inputs)"
proof -
  let ?live = "filter (\<lambda>e. snd e \<noteq> None) (compact_merge inputs)"
  have wf: "smap_wf (compact_merge inputs)" by (rule smap_wf_compact_merge)
  have ne: "?live \<noteq> []"
    using assms(2) filter_live_Nil [OF wf] map_of_compact_merge [OF assms(1)]
    by (auto simp: live_def split: option.splits)
  then have r: "compact_result inputs = ?live" by (simp add: compact_result_def)
  show "compact_result inputs \<noteq> []" "smap_wf (compact_result inputs)"
    "set (compact_result inputs) \<subseteq> set (compact_merge inputs)"
    "length (compact_result inputs) \<le> length (compact_merge inputs)"
    using ne r wf by (auto simp: smap_wf_filter)
  show "map_of (compact_result inputs) k = map_option Some (live (map read_all_entries inputs) k)"
    unfolding r map_of_filter_live [OF wf] map_of_compact_merge [OF assms(1)] live_def
    by (simp split: option.splits)
qed

text \<open>Entries of the merge come from an input.\<close>

lemma set_smap_put_sub: "set (smap_put k v m) \<subseteq> insert (k, v) (set m)"
  by (induction m) auto

lemma set_smap_put_all_sub: "set (smap_put_all es m) \<subseteq> set es \<union> set m"
proof (induction es arbitrary: m)
  case (Cons e es)
  show ?case
    using Cons.IH [of "smap_put (fst e) (snd e) m"] set_smap_put_sub [of "fst e" "snd e" m]
    by (cases e) (auto simp: smap_put_all_def)
qed (simp add: smap_put_all_def)

lemma set_merge_sub: "set (fold smap_put_all ms acc) \<subseteq> \<Union> (set ` set ms) \<union> set acc"
proof (induction ms arbitrary: acc)
  case (Cons m ms)
  show ?case using Cons.IH [of "smap_put_all m acc"] set_smap_put_all_sub [of m acc] by auto
qed simp

lemma set_compact_merge: "set (compact_merge inputs) \<subseteq> (\<Union>r \<in> set inputs. set (read_all_entries r))"
  using set_merge_sub [of "rev (map read_all_entries inputs)" "[]"] by (simp add: compact_merge_fold)

lemma length_compact_merge: "length (compact_merge inputs) \<le> sum_list (map (length \<circ> read_all_entries) inputs)"
  using length_merge_le [of "rev (map read_all_entries inputs)" "[]"]
  by (simp add: compact_merge_fold rev_map [symmetric] sum_list_rev)

section \<open>Properties of compaction\<close>

text \<open>
  C14: compaction keeps what clients see. When some key of the input tables is live, the merged
  table holds exactly the keys whose newest entry is a value, each with that value: overwritten
  values, tombstones and the values they hide are gone, and the keys are in ascending order.
\<close>

theorem compact_keeps_live:
  assumes "\<forall>r \<in> set inputs. \<exists>es. reader_for es r" "live (map read_all_entries inputs) k0 = Some v0"
  shows "smap_wf (compact_result inputs)
    \<and> (\<forall>k. map_of (compact_result inputs) k = map_option Some (live (map read_all_entries inputs) k))"
  using compact_result_map(2,3) [of inputs k0] assms by (simp add: run_ok_def)

text \<open>
  When every key of the inputs is deleted, the merged table is not empty but holds a key
  \<open>__empty__\<close> that no client wrote, with the empty value.
\<close>

theorem compact_phantom_key:
  assumes "\<forall>r \<in> set inputs. \<exists>es. reader_for es r" "\<forall>k. live (map read_all_entries inputs) k = None"
  shows "compact_result inputs = [(''__empty__'', Some [])]"
proof -
  have "\<forall>r \<in> set inputs. run_ok r" using assms(1) by (simp add: run_ok_def)
  then have "filter (\<lambda>e. snd e \<noteq> None) (compact_merge inputs) = []"
    using assms(2) filter_live_Nil [OF smap_wf_compact_merge]
    by (auto simp: map_of_compact_merge live_def split: option.splits)
  then show ?thesis by (simp add: compact_result_def)
qed

text \<open>A reader over a given table, for the witnesses.\<close>

definition ex_reader :: "(string \<times> string option) list \<Rightarrow> SSTableReader" where
  "ex_reader es = \<lparr>rd_path = ''t'', rd_file = data_bytes es, rd_index = sparse_index es,
     rd_bloom = Some (table_bloom es), rd_num_entries = of_nat (length es),
     rd_bloom_offset = of_nat (data_size es), rd_bloom_size = 0, rd_index_offset = 0,
     rd_min_key = fst (hd es), rd_max_key = fst (last es)\<rparr>"

lemma ex_reader_for: "sst_ok es \<Longrightarrow> reader_for es (ex_reader es)"
  by (simp add: reader_for_def ex_reader_def)

definition ex_dead :: "(string \<times> string option) list" where
  "ex_dead = [(''a'', None), (''c'', None)]"

lemma ex_dead_ok: "sst_ok ex_dead"
  by (simp add: sst_ok_def ex_dead_def smap_wf_def entry_ok_def entry_size_def entry_bytes_def)

lemma ex_readers:
  "\<forall>r \<in> set [ex_reader ex_dead, ex_reader ex_table]. \<exists>es. reader_for es r"
  "read_all_entries (ex_reader ex_dead) = ex_dead" "read_all_entries (ex_reader ex_table) = ex_table"
  using ex_reader_for [OF ex_dead_ok] ex_reader_for [OF ex_table_ok] read_all_entries_reader by auto

theorem compact_keeps_live_witness:
  "map_of (compact_result [ex_reader ex_table, ex_reader ex_dead]) ''a'' = Some (Some ''1'')
   \<and> map_of (compact_result [ex_reader ex_table, ex_reader ex_dead]) ''b'' = None"
  using compact_keeps_live [of "[ex_reader ex_table, ex_reader ex_dead]" "''a''" "''1''"] ex_readers
  by (simp add: live_def ex_table_def ex_dead_def)

theorem compact_phantom_key_witness:
  "compact_result [ex_reader ex_dead, ex_reader ex_table] = [(''__empty__'', Some [])]"
  by (rule compact_phantom_key)
    (use ex_readers in \<open>auto simp: live_def ex_dead_def ex_table_def split: option.splits\<close>)

end
