(* ===== verification/Engine.thy ===== *)
theory Engine
  imports Compaction Decimal
begin

text \<open>
  \<open>src/engine/storage_engine.cpp\<close>: the storage engine. Its state is the table in memory, the readers of
  the tables on disk (newest first), the next sequence number and the host with the files of the
  data directory. Files are named relative to that directory, so \<open>fs::path(data_dir_) / name\<close> is
  \<open>name\<close>. Writers hold \<open>write_mutex_\<close>, so each operation is one step here.
\<close>

definition COMPACTION_THRESHOLD :: nat where
  "COMPACTION_THRESHOLD = 4"

record StorageEngine =
  memtable :: MemTable
  sstables :: "SSTableReader list"
  next_seq :: u64
  disk :: host

definition wal_path :: string where
  "wal_path = ''wal.log''"

definition sstable_path :: "u64 \<Rightarrow> string" where
  "sstable_path seq = ''sst_'' @ zero_pad 6 (dec_digits (unat seq)) @ ''.db''"

definition fs_remove :: "string \<Rightarrow> host \<Rightarrow> host" where
  "fs_remove path h =
     (case call_ok h of
        (False, h1) \<Rightarrow> h1
      | (True, h1) \<Rightarrow> h1\<lparr>files := dir_remove path (files h1)\<rparr>)"

section \<open>Opening the engine\<close>

definition is_sst_name :: "string \<Rightarrow> bool" where
  "is_sst_name name \<longleftrightarrow> length name > 4 \<and> take 4 name = ''sst_'' \<and> drop (length name - 3) name = ''.db''"

definition sst_seq :: "string \<Rightarrow> u64 option" where
  "sst_seq name = (if is_sst_name name then stoull (take (length name - 7) (drop 4 name)) else None)"

text \<open>The loop over the directory: tables that validate are kept, the others are removed.\<close>

fun find_sstables :: "string list \<Rightarrow> (u64 \<times> string) list \<Rightarrow> host \<Rightarrow> (u64 \<times> string) list \<times> host" where
  "find_sstables [] tables h = (tables, h)"
| "find_sstables (name # names) tables h =
     (case sst_seq name of
        None \<Rightarrow> find_sstables names tables h
      | Some seq \<Rightarrow>
          (case sst_validate h name of
             (True, h1) \<Rightarrow> find_sstables names (tables @ [(seq, name)]) h1
           | (False, h1) \<Rightarrow> find_sstables names tables (fs_remove name h1)))"

text \<open>\<open>std::sort\<close> with \<open>a.first > b.first\<close>; entries of equal number, which it may order either way, are reversed.\<close>

definition sort_desc :: "(u64 \<times> string) list \<Rightarrow> (u64 \<times> string) list" where
  "sort_desc tables = rev (sort_key fst tables)"

fun open_sstables ::
  "(u64 \<times> string) list \<Rightarrow> SSTableReader list \<Rightarrow> u64 \<Rightarrow> host \<Rightarrow> SSTableReader list \<times> u64 \<times> host" where
  "open_sstables [] ssts nxt h = (ssts, nxt, h)"
| "open_sstables ((seq, path) # tables) ssts nxt h =
     (case sst_open h path of
        (Inr r, h1) \<Rightarrow> open_sstables tables (ssts @ [r]) (if seq \<ge> nxt then seq + 1 else nxt) h1
      | (Inl _, h1) \<Rightarrow> open_sstables tables ssts nxt h1)"

definition load_sstables :: "host \<Rightarrow> SSTableReader list \<times> u64 \<times> host" where
  "load_sstables h =
     (case find_sstables (map fst (files h)) [] h of
        (tables, h1) \<Rightarrow> open_sstables (sort_desc tables) [] 0 h1)"

definition replay :: "Record \<Rightarrow> MemTable \<Rightarrow> MemTable" where
  "replay r m =
     (case rec_type r of
        PUT \<Rightarrow> memtable_put (rec_key r) (rec_value r) m
      | DELETE \<Rightarrow> memtable_remove (rec_key r) m
      | OpOther _ \<Rightarrow> m)"

definition flush_memtable :: "StorageEngine \<Rightarrow> Status \<times> StorageEngine" where
  "flush_memtable e =
     (let entries = dump_sorted (memtable e)
      in if entries = [] then (OK, e)
         else let path = sstable_path (next_seq e)
              in case sst_build (disk e) path entries of
                   (OK, h1) \<Rightarrow>
                     (case sst_open h1 path of
                        (Inr r, h2) \<Rightarrow>
                          (OK, e\<lparr>sstables := r # sstables e, next_seq := next_seq e + 1,
                                 memtable := memtable_clear (memtable e),
                                 disk := snd (wal_clear h2 wal_path)\<rparr>)
                      | (Inl _, h2) \<Rightarrow> (IO_ERROR, e\<lparr>disk := h2\<rparr>))
                 | (s, h1) \<Rightarrow> (s, e\<lparr>disk := h1\<rparr>))"

definition engine_recover :: "StorageEngine \<Rightarrow> Status \<times> StorageEngine" where
  "engine_recover e =
     (case wal_recover (disk e) wal_path of
        (records, h1) \<Rightarrow>
          let e1 = e\<lparr>memtable := fold replay records (memtable e), disk := h1\<rparr>
          in (OK, if should_flush (memtable e1) then snd (flush_memtable e1) else e1))"

text \<open>
  The constructor: \<open>create_directories\<close> and the directory iterator throw when the system refuses,
  and so does the log when it cannot be opened.
\<close>

definition engine_open :: "host \<Rightarrow> u64 \<Rightarrow> (exn + StorageEngine) \<times> host" where
  "engine_open h threshold =
     (case call_ok h of
        (False, h1) \<Rightarrow> (Inl ''cannot create directories'', h1)
      | (True, h1) \<Rightarrow>
          (case call_ok h1 of
             (False, h2) \<Rightarrow> (Inl ''directory iterator cannot open directory'', h2)
           | (True, h2) \<Rightarrow>
               (case load_sstables h2 of
                  (ssts, nxt, h3) \<Rightarrow>
                    (case wal_open h3 wal_path of
                       (Inl ex, h4) \<Rightarrow> (Inl ex, h4)
                     | (Inr _, h4) \<Rightarrow>
                         let e = snd (engine_recover \<lparr>memtable = memtable_new threshold,
                                   sstables = ssts, next_seq = nxt, disk = h4\<rparr>)
                         in (Inr e, disk e)))))"

section \<open>Operations\<close>

definition maybe_compact :: "StorageEngine \<Rightarrow> Status \<times> StorageEngine" where
  "maybe_compact e =
     (if length (sstables e) < COMPACTION_THRESHOLD then (OK, e)
      else let out_path = sstable_path (next_seq e)
           in case compact (disk e) (sstables e) out_path of
                (OK, h1) \<Rightarrow>
                  (let old_paths = map rd_path (sstables e)
                   in case sst_open h1 out_path of
                        (Inr r, h2) \<Rightarrow>
                          (OK, e\<lparr>sstables := [r], next_seq := next_seq e + 1,
                                 disk := fold fs_remove old_paths h2\<rparr>)
                      | (Inl _, h2) \<Rightarrow> (IO_ERROR, e\<lparr>sstables := [], disk := h2\<rparr>))
              | (s, h1) \<Rightarrow> (s, e\<lparr>disk := h1\<rparr>))"

definition engine_put :: "StorageEngine \<Rightarrow> string \<Rightarrow> string \<Rightarrow> Status \<times> StorageEngine" where
  "engine_put e key value =
     (if key = [] then (INVALID_ARGUMENT, e)
      else case wal_append (disk e) wal_path PUT key value of
        (OK, h1) \<Rightarrow>
          (let e1 = e\<lparr>memtable := memtable_put key value (memtable e), disk := h1\<rparr>
           in if should_flush (memtable e1)
              then (case flush_memtable e1 of
                      (OK, e2) \<Rightarrow> (OK, snd (maybe_compact e2))
                    | (_, e2) \<Rightarrow> (OK, e2))
              else (OK, e1))
      | (s, h1) \<Rightarrow> (s, e\<lparr>disk := h1\<rparr>))"

definition engine_remove :: "StorageEngine \<Rightarrow> string \<Rightarrow> Status \<times> StorageEngine" where
  "engine_remove e key =
     (if key = [] then (INVALID_ARGUMENT, e)
      else case wal_append (disk e) wal_path DELETE key [] of
        (OK, h1) \<Rightarrow>
          (let e1 = e\<lparr>memtable := memtable_remove key (memtable e), disk := h1\<rparr>
           in (OK, if should_flush (memtable e1) then snd (flush_memtable e1) else e1))
      | (s, h1) \<Rightarrow> (s, e\<lparr>disk := h1\<rparr>))"

text \<open>The answer for a lookup that found an entry: a tombstone is \<open>NOT_FOUND\<close>.\<close>

definition found_result :: "LookupResult \<Rightarrow> Status \<times> string" where
  "found_result r = (if is_tombstone r then (NOT_FOUND, []) else (OK, lr_value r))"

fun get_sstables :: "SSTableReader list \<Rightarrow> string \<Rightarrow> Status \<times> string" where
  "get_sstables [] key = (NOT_FOUND, [])"
| "get_sstables (sst # ssts) key =
     (let sr = sst_get sst key in if found sr then found_result sr else get_sstables ssts key)"

definition engine_get :: "StorageEngine \<Rightarrow> string \<Rightarrow> Status \<times> string" where
  "engine_get e key =
     (if key = [] then (INVALID_ARGUMENT, [])
      else let result = memtable_get (memtable e) key
           in if found result then found_result result else get_sstables (sstables e) key)"

definition engine_scan :: "StorageEngine \<Rightarrow> string \<Rightarrow> string \<Rightarrow> (string \<times> string) list" where
  "engine_scan e start_key end_key =
     (if start_key > end_key then []
      else let merged = fold (\<lambda>r m. smap_put_all (sst_scan r start_key end_key) m) (rev (sstables e)) [];
               merged = smap_put_all (memtable_scan (memtable e) start_key end_key) merged
           in List.map_filter (\<lambda>(k, v). map_option (\<lambda>x. (k, x)) v) merged)"

definition sstable_count :: "StorageEngine \<Rightarrow> nat" where
  "sstable_count e = length (sstables e)"

section \<open>File names\<close>

lemma sst_seq_path [simp]: "sst_seq (sstable_path seq) = Some seq"
proof -
  let ?d = "zero_pad 6 (dec_digits (unat seq))"
  have "is_sst_name (sstable_path seq)" by (simp add: is_sst_name_def sstable_path_def)
  moreover have "take (length (sstable_path seq) - 7) (drop 4 (sstable_path seq)) = ?d"
    by (simp add: sstable_path_def)
  moreover have "stoull ?d = Some (of_nat (unat seq))"
    using stoull_digits [of ?d] by simp
  ultimately show ?thesis by (simp add: sst_seq_def)
qed

lemma sstable_path_inj [simp]: "sstable_path a = sstable_path b \<longleftrightarrow> a = b"
  by (metis option.inject sst_seq_path)

lemma sst_seq_wal [simp]: "sst_seq wal_path = None"
  by (simp add: sst_seq_def is_sst_name_def wal_path_def)

lemma sstable_path_not_wal [simp]: "sstable_path a \<noteq> wal_path" "wal_path \<noteq> sstable_path a"
  by (metis option.distinct(1) sst_seq_path sst_seq_wal)+

end
