(* ===== verification/Engine_Correct.thy ===== *)
theory Engine_Correct
  imports Engine
begin

text \<open>
  The invariant of the storage engine and what its operations do to the map a client sees. The
  invariant ties the state in memory to the files: the table in memory is the replay of the log, the
  readers are the tables of the directory in descending order of their numbers, and no other table
  file is there. The engine is shown correct on a host on which no call fails, for keys and values
  within the limits that recovery accepts.
\<close>

section \<open>The invariant\<close>

definition layers :: "StorageEngine \<Rightarrow> string option smap list" where
  "layers e = mt_data (memtable e) # map read_all_entries (sstables e)"

text \<open>The map a client sees.\<close>

definition view :: "StorageEngine \<Rightarrow> string \<rightharpoonup> string" where
  "view e = live (layers e)"

definition small_entry :: "string \<times> string option \<Rightarrow> bool" where
  "small_entry x \<longleftrightarrow> length (fst x) \<le> 10 * 1024 * 1024
     \<and> (case snd x of None \<Rightarrow> True | Some v \<Rightarrow> length v \<le> 100 * 1024 * 1024)"

definition log_ok :: "StorageEngine \<Rightarrow> bool" where
  "log_ok e \<longleftrightarrow> (\<exists>rs. wal_holds (disk e) wal_path rs
     \<and> memtable e = fold replay rs (memtable_new (flush_threshold (memtable e))))"

definition table_at :: "host \<Rightarrow> SSTableReader \<Rightarrow> bool" where
  "table_at h r \<longleftrightarrow> (\<exists>es. reader_for es r \<and> map_of (files h) (rd_path r) = Some (sst_image es))"

definition numbered :: "SSTableReader list \<Rightarrow> u64 \<Rightarrow> bool" where
  "numbered ssts nxt \<longleftrightarrow> (\<exists>seqs. map rd_path ssts = map sstable_path seqs \<and> sorted_wrt (>) seqs
     \<and> (\<forall>s \<in> set seqs. s < nxt))"

definition dir_ok :: "host \<Rightarrow> SSTableReader list \<Rightarrow> bool" where
  "dir_ok h ssts \<longleftrightarrow> distinct (map fst (files h))
     \<and> (\<forall>name \<in> fst ` set (files h). sst_seq name = None \<or> name \<in> rd_path ` set ssts)"

definition engine_core :: "StorageEngine \<Rightarrow> bool" where
  "engine_core e \<longleftrightarrow> log_ok e \<and> numbered (sstables e) (next_seq e)
     \<and> (\<forall>r \<in> set (sstables e). table_at (disk e) r) \<and> dir_ok (disk e) (sstables e)
     \<and> (\<forall>m \<in> set (layers e). \<forall>x \<in> set m. small_entry x)"

text \<open>Room for \<open>m\<close> more entries and \<open>s\<close> more tables.\<close>

definition total_entries :: "StorageEngine \<Rightarrow> nat" where
  "total_entries e = sum_list (map length (layers e))"

definition room :: "nat \<Rightarrow> nat \<Rightarrow> StorageEngine \<Rightarrow> bool" where
  "room m s e \<longleftrightarrow> total_entries e + m \<le> 429496728 \<and> unat (next_seq e) + s < 2 ^ 64"

text \<open>The invariant of an engine that has room for \<open>n\<close> more writes.\<close>

definition engine_ok :: "nat \<Rightarrow> StorageEngine \<Rightarrow> bool" where
  "engine_ok n e \<longleftrightarrow> engine_core e \<and> room n (2 * n) e"

section \<open>The log and the table in memory\<close>

lemma replay_simps [simp]: "flush_threshold (replay r m) = flush_threshold m"
  by (simp add: replay_def split: OpType.splits)

lemma memtable_wf_replay: "memtable_wf m \<Longrightarrow> memtable_wf (replay r m)"
  by (simp add: replay_def memtable_wf_put memtable_wf_remove split: OpType.splits)

lemma memtable_wf_fold_replay: "memtable_wf m \<Longrightarrow> memtable_wf (fold replay rs m)"
  by (induction rs arbitrary: m) (simp_all add: memtable_wf_replay)

lemma log_ok_quiet: "log_ok e \<Longrightarrow> script (disk e) = []"
  by (auto simp: log_ok_def wal_holds_def)

lemma log_ok_memtable_wf: "log_ok e \<Longrightarrow> memtable_wf (memtable e)"
  by (metis log_ok_def memtable_wf_fold_replay memtable_wf_new)

lemma memtable_clear_new: "memtable_clear m = memtable_new (flush_threshold m)"
  by (cases m) (simp add: memtable_clear_def memtable_new_def)

lemma log_ok_set_file:
  assumes "log_ok e" "p \<noteq> wal_path"
  shows "log_ok (e\<lparr>disk := set_file p bs (disk e)\<rparr>)"
  using assms by (auto simp: log_ok_def wal_holds_def)

lemma log_ok_append:
  assumes "log_ok e" "wal_valid r"
  shows "log_ok (e\<lparr>memtable := replay r (memtable e),
    disk := set_file wal_path (file_bytes (disk e) wal_path @ wal_record_bytes r) (disk e)\<rparr>)"
proof -
  obtain rs where rs: "wal_holds (disk e) wal_path rs"
    "memtable e = fold replay rs (memtable_new (flush_threshold (memtable e)))"
    using assms(1) by (auto simp: log_ok_def)
  have "fold replay (rs @ [r]) (memtable_new (flush_threshold (memtable e))) = replay r (memtable e)"
    using rs(2) by simp
  moreover have "wal_holds (set_file wal_path (file_bytes (disk e) wal_path @ wal_record_bytes r) (disk e))
      wal_path (rs @ [r])"
    using rs(1) assms(2) by (simp add: wal_holds_def)
  ultimately show ?thesis
    unfolding log_ok_def by (intro exI [of _ "rs @ [r]"]) simp
qed

section \<open>The tables on disk\<close>

lemma table_at_run_ok: "table_at h r \<Longrightarrow> run_ok r"
  by (auto simp: table_at_def run_ok_def)

lemma table_at_set_file [simp]: "rd_path r \<noteq> p \<Longrightarrow> table_at (set_file p bs h) r = table_at h r"
  by (simp add: table_at_def)

lemma table_at_image:
  "reader_for es r \<Longrightarrow> rd_path r = p \<Longrightarrow> table_at (set_file p (sst_image es) h) r"
  by (auto simp: table_at_def)

lemma numbered_path:
  assumes "numbered ssts nxt" "r \<in> set ssts"
  shows "\<exists>s < nxt. rd_path r = sstable_path s"
proof -
  obtain seqs where s: "map rd_path ssts = map sstable_path seqs" "\<forall>s \<in> set seqs. s < nxt"
    using assms(1) by (auto simp: numbered_def)
  have "rd_path r \<in> set (map rd_path ssts)" using assms(2) by simp
  with s show ?thesis by (auto simp only: s(1) set_map)
qed

lemma numbered_fresh:
  assumes "numbered ssts nxt" "r \<in> set ssts"
  shows "rd_path r \<noteq> sstable_path nxt" "rd_path r \<noteq> wal_path"
  using numbered_path [OF assms] by auto

lemma numbered_Cons:
  assumes "numbered ssts nxt" "rd_path r = sstable_path nxt" "unat nxt + 1 < 2 ^ 64"
  shows "numbered (r # ssts) (nxt + 1)"
proof -
  have lt: "nxt < nxt + 1" and le: "s < nxt \<Longrightarrow> s < nxt + 1" for s
    using assms(3) by (auto simp: word_less_nat_alt unat_word_ariths)
  obtain seqs where s: "map rd_path ssts = map sstable_path seqs" "sorted_wrt (>) seqs" "\<forall>s \<in> set seqs. s < nxt"
    using assms(1) by (auto simp: numbered_def)
  then show ?thesis
    unfolding numbered_def using assms(2) lt le by (intro exI [of _ "nxt # seqs"]) auto
qed

lemma numbered_one:
  assumes "rd_path r = sstable_path nxt" "unat nxt + 1 < 2 ^ 64"
  shows "numbered [r] (nxt + 1)"
  by (rule numbered_Cons [OF _ assms]) (auto simp: numbered_def intro: exI [of _ "[]"])

lemma dir_ok_set_file:
  assumes "dir_ok h ssts" "sst_seq p = None \<or> p \<in> rd_path ` set ssts"
  shows "dir_ok (set_file p bs h) ssts"
  using assms by (auto simp: dir_ok_def distinct_dir_put keys_dir_put)

lemma dir_ok_mono: "dir_ok h ssts \<Longrightarrow> set ssts \<subseteq> set ssts' \<Longrightarrow> dir_ok h ssts'"
  by (auto simp: dir_ok_def)

text \<open>Small entries make a table that can be written and read back.\<close>

lemma small_entry_size: "small_entry x \<Longrightarrow> entry_size x \<le> 115343368"
  by (auto simp: small_entry_def entry_size_def entry_bytes_def split: option.splits)

lemma small_sst_ok:
  assumes "es \<noteq> []" "smap_wf es" "\<forall>x \<in> set es. small_entry x" "length es \<le> 429496728"
  shows "sst_ok es"
proof -
  have "data_size es \<le> length es * 115343368"
    using assms(3) by (induction es) (auto dest: small_entry_size)
  then have "data_size es < 2 ^ 62" using assms(4) by simp
  moreover have "entry_ok x" if "x \<in> set es" for x
    using small_entry_size [of x] assms(3) that by (auto simp: entry_ok_def)
  ultimately show ?thesis using assms by (simp add: sst_ok_def)
qed

section \<open>Steps that keep the invariant\<close>

text \<open>Writing a new table and putting its reader in front.\<close>

definition add_table :: "(string \<times> string option) list \<Rightarrow> SSTableReader \<Rightarrow> StorageEngine \<Rightarrow> StorageEngine" where
  "add_table es r e = e\<lparr>sstables := r # sstables e, next_seq := next_seq e + 1,
     disk := set_file (sstable_path (next_seq e)) (sst_image es) (disk e)\<rparr>"

text \<open>Emptying the table in memory and the log.\<close>

definition clear_log :: "StorageEngine \<Rightarrow> StorageEngine" where
  "clear_log e = e\<lparr>memtable := memtable_clear (memtable e), disk := set_file wal_path [] (disk e)\<rparr>"

text \<open>Removing the files of some tables and forgetting their readers.\<close>

definition drop_files :: "string set \<Rightarrow> host \<Rightarrow> host" where
  "drop_files P h = h\<lparr>files := filter (\<lambda>f. fst f \<notin> P) (files h)\<rparr>"

definition drop_tables :: "string set \<Rightarrow> StorageEngine \<Rightarrow> StorageEngine" where
  "drop_tables P e = e\<lparr>sstables := filter (\<lambda>r. rd_path r \<notin> P) (sstables e), disk := drop_files P (disk e)\<rparr>"

lemma next_seq_step:
  "room m (Suc s) e \<Longrightarrow> unat (next_seq e) + 1 < 2 ^ 64 \<and> unat (next_seq e + 1) = unat (next_seq e) + 1"
  by (auto simp: room_def unat_word_ariths)

lemma engine_core_add_table:
  assumes core: "engine_core e" and rm: "room m (Suc s) e" and r: "reader_for es r"
    "rd_path r = sstable_path (next_seq e)" and small: "\<forall>x \<in> set es. small_entry x"
  shows "engine_core (add_table es r e)"
proof -
  have num: "numbered (sstables e) (next_seq e)" and dir: "dir_ok (disk e) (sstables e)"
    and tab: "\<forall>r \<in> set (sstables e). table_at (disk e) r"
    using core by (auto simp: engine_core_def)
  have "log_ok (add_table es r e)"
    using core by (auto simp: engine_core_def add_table_def log_ok_def wal_holds_def)
  moreover have "numbered (r # sstables e) (next_seq e + 1)"
    using numbered_Cons [OF num r(2)] next_seq_step [OF rm] by simp
  moreover have "\<forall>r \<in> set (r # sstables e). table_at (disk (add_table es r e)) r"
    using tab numbered_fresh [OF num] table_at_image [OF r] by (auto simp: add_table_def)
  moreover have "dir_ok (disk (add_table es r e)) (r # sstables e)"
    using dir_ok_mono [OF dir, of "r # sstables e"] r(2)
    by (auto simp: add_table_def intro!: dir_ok_set_file)
  moreover have "\<forall>m \<in> set (layers (add_table es r e)). \<forall>x \<in> set m. small_entry x"
    using core small read_all_entries_reader [OF r(1)] by (auto simp: engine_core_def layers_def add_table_def)
  ultimately show ?thesis by (simp add: engine_core_def) (simp add: add_table_def)
qed

lemma layers_add_table:
  "reader_for es r \<Longrightarrow> layers (add_table es r e) = mt_data (memtable e) # es # map read_all_entries (sstables e)"
  by (simp add: layers_def add_table_def read_all_entries_reader)

lemma engine_core_clear_log:
  assumes "engine_core e"
  shows "engine_core (clear_log e)"
proof -
  have num: "numbered (sstables e) (next_seq e)" and quiet: "script (disk e) = []"
    using assms by (auto simp: engine_core_def log_ok_quiet)
  have "log_ok (clear_log e)"
    using quiet by (auto simp: log_ok_def wal_holds_def clear_log_def memtable_clear_new intro!: exI [of _ "[]"])
  moreover have "\<forall>r \<in> set (sstables e). table_at (disk (clear_log e)) r"
    using assms numbered_fresh [OF num] by (auto simp: engine_core_def clear_log_def)
  moreover have "dir_ok (disk (clear_log e)) (sstables e)"
    using assms by (auto simp: engine_core_def clear_log_def intro!: dir_ok_set_file)
  moreover have "\<forall>m \<in> set (layers (clear_log e)). \<forall>x \<in> set m. small_entry x"
    using assms by (auto simp: engine_core_def layers_def clear_log_def)
  ultimately show ?thesis using num by (simp add: engine_core_def) (simp add: clear_log_def)
qed

lemma map_of_drop_files [simp]: "map_of (files (drop_files P h)) p = (if p \<in> P then None else map_of (files h) p)"
  by (simp add: drop_files_def map_of_filter_keys [of "\<lambda>p. p \<notin> P"])

lemma numbered_filter: "numbered ssts nxt \<Longrightarrow> numbered (filter (\<lambda>r. rd_path r \<notin> P) ssts) nxt"
proof -
  assume "numbered ssts nxt"
  then obtain seqs where s: "map rd_path ssts = map sstable_path seqs" "sorted_wrt (>) seqs" "\<forall>s \<in> set seqs. s < nxt"
    by (auto simp: numbered_def)
  have "map rd_path (filter (\<lambda>r. rd_path r \<notin> P) ssts) = filter (\<lambda>p. p \<notin> P) (map rd_path ssts)"
    by (simp add: filter_map comp_def)
  also have "\<dots> = map sstable_path (filter (\<lambda>s. sstable_path s \<notin> P) seqs)"
    by (simp add: s(1) filter_map comp_def)
  finally show ?thesis
    using s(2,3) by (auto simp: numbered_def sorted_wrt_filter intro!: exI [of _ "filter (\<lambda>s. sstable_path s \<notin> P) seqs"])
qed

lemma dir_ok_drop: "dir_ok h ssts \<Longrightarrow> dir_ok (drop_files P h) (filter (\<lambda>r. rd_path r \<notin> P) ssts)"
  by (auto simp: dir_ok_def drop_files_def distinct_map_filter)

lemma engine_core_drop_tables:
  assumes "engine_core e" "wal_path \<notin> P"
  shows "engine_core (drop_tables P e)"
proof -
  have "log_ok (drop_tables P e)"
    using assms by (auto simp: engine_core_def log_ok_def wal_holds_def drop_tables_def file_bytes_def)
      (auto simp: drop_files_def)
  moreover have "\<forall>r \<in> set (sstables (drop_tables P e)). table_at (disk (drop_tables P e)) r"
    using assms(1) by (auto simp: engine_core_def table_at_def drop_tables_def)
  moreover have "\<forall>m \<in> set (layers (drop_tables P e)). \<forall>x \<in> set m. small_entry x"
    using assms(1) by (auto simp: engine_core_def layers_def drop_tables_def)
  ultimately show ?thesis
    using assms(1) numbered_filter dir_ok_drop by (simp add: engine_core_def) (simp add: drop_tables_def)
qed

section \<open>Flushing\<close>

lemma live_Cons_Nil: "live ([] # ms) = live ms"
  by (simp add: live_def fun_eq_iff)

text \<open>
  Flushing writes the table in memory to a new table on disk, empties the log and changes nothing a
  client sees.
\<close>

lemma mem_sst_ok:
  assumes "engine_core e" "room m s e" "mt_data (memtable e) \<noteq> []"
  shows "sst_ok (mt_data (memtable e))"
  using assms log_ok_memtable_wf [of e]
  by (intro small_sst_ok) (auto simp: engine_core_def memtable_wf_def layers_def room_def total_entries_def)

lemma flush_memtable_ok:
  assumes core: "engine_core e" and rm: "room m (Suc s) e" and ne: "mt_data (memtable e) \<noteq> []"
  shows "\<exists>e'. flush_memtable e = (OK, e') \<and> engine_core e' \<and> room m s e'
    \<and> mt_data (memtable e') = [] \<and> flush_threshold (memtable e') = flush_threshold (memtable e)
    \<and> map read_all_entries (sstables e') = layers e"
proof -
  let ?es = "mt_data (memtable e)" and ?p = "sstable_path (next_seq e)"
  define h1 where "h1 = set_file ?p (sst_image ?es) (disk e)"
  have quiet: "script (disk e) = []" using core by (simp add: engine_core_def log_ok_quiet)
  note ok = mem_sst_ok [OF core rm ne]
  have q1: "script h1 = []" "map_of (files h1) ?p = Some (sst_image ?es)" using quiet by (simp_all add: h1_def)
  obtain r where r: "sst_open h1 ?p = (Inr r, h1)" "rd_path r = ?p" "reader_for ?es r"
    using sst_open_image [OF q1 ok] by blast
  define e' where "e' = clear_log (add_table ?es r e)"
  have "sst_build (disk e) ?p ?es = (OK, h1)"
    using ne quiet by (simp add: sst_build_def io_simps h1_def)
  then have f: "flush_memtable e = (OK, e')"
    using ne by (simp add: flush_memtable_def dump_sorted_def r(1) wal_clear_quiet [OF q1(1)])
      (simp add: e'_def clear_log_def add_table_def h1_def)
  have rd: "map read_all_entries (sstables e') = layers e"
    by (simp add: e'_def clear_log_def add_table_def layers_def read_all_entries_reader [OF r(3)])
  then have lay: "layers e' = [] # layers e"
    by (simp add: layers_def [of e']) (simp add: e'_def clear_log_def)
  have "\<forall>x \<in> set ?es. small_entry x" using core by (simp add: engine_core_def layers_def)
  then have "engine_core e'"
    unfolding e'_def by (intro engine_core_clear_log engine_core_add_table [OF core rm r(3,2)])
  moreover have "room m s e'"
    using rm next_seq_step [OF rm]
    by (simp add: room_def total_entries_def lay) (simp add: e'_def clear_log_def add_table_def)
  ultimately show ?thesis using f rd by (simp add: e'_def clear_log_def add_table_def)
qed

section \<open>Compacting\<close>

lemma fs_remove_quiet: "script h = [] \<Longrightarrow> fs_remove p h = drop_files {p} h"
  by (simp add: fs_remove_def io_simps dir_remove_def drop_files_def)

lemma fold_fs_remove_quiet: "script h = [] \<Longrightarrow> fold fs_remove ps h = drop_files (set ps) h"
  by (induction ps arbitrary: h) (simp_all add: fs_remove_quiet drop_files_def conj_commute)

lemma live_compacted:
  assumes "\<And>k. map_of new k = map_option Some (live old k)"
  shows "live (m # [new]) = live (m # old)"
  using assms by (auto simp: live_def fun_eq_iff split: option.splits)

text \<open>The table that compaction writes can be read back, and is no larger than its inputs.\<close>

lemma compact_result_ok:
  assumes "\<forall>r \<in> set ssts. run_ok r" "live (map read_all_entries ssts) k0 \<noteq> None"
    and "\<forall>r \<in> set ssts. \<forall>x \<in> set (read_all_entries r). small_entry x"
    and "sum_list (map (length \<circ> read_all_entries) ssts) \<le> 429496728"
  shows "sst_ok (compact_result ssts)" "\<forall>x \<in> set (compact_result ssts). small_entry x"
    "length (compact_result ssts) \<le> sum_list (map (length \<circ> read_all_entries) ssts)"
proof -
  note res = compact_result_map [OF assms(1,2)]
  show small: "\<forall>x \<in> set (compact_result ssts). small_entry x"
    using res(4) set_compact_merge [of ssts] assms(3) by blast
  show len: "length (compact_result ssts) \<le> sum_list (map (length \<circ> read_all_entries) ssts)"
    using res(5) length_compact_merge [of ssts] by simp
  show "sst_ok (compact_result ssts)"
    using res(1,2) small len assms(4) by (intro small_sst_ok) auto
qed

text \<open>
  Compacting replaces the tables on disk by one and removes their files, and changes nothing a
  client sees. Some key of the tables is live: the caller has just flushed one.
\<close>

lemma old_paths_fresh:
  assumes "engine_core e"
  shows "sstable_path (next_seq e) \<notin> rd_path ` set (sstables e)" "wal_path \<notin> rd_path ` set (sstables e)"
  using assms numbered_fresh by (metis engine_core_def imageE)+

lemma drop_old_tables:
  assumes "engine_core e" "rd_path r = sstable_path (next_seq e)"
  shows "sstables (drop_tables (rd_path ` set (sstables e)) (add_table es r e)) = [r]"
  using old_paths_fresh [OF assms(1)] assms(2) by (simp add: drop_tables_def add_table_def filter_empty_conv)

lemma compact_inputs_ok:
  assumes "engine_core e" "room m s e" "live (map read_all_entries (sstables e)) k0 \<noteq> None"
  shows "sst_ok (compact_result (sstables e))" "\<forall>x \<in> set (compact_result (sstables e)). small_entry x"
    "length (compact_result (sstables e)) \<le> sum_list (map (length \<circ> read_all_entries) (sstables e))"
    "\<And>k. map_of (compact_result (sstables e)) k
       = map_option Some (live (map read_all_entries (sstables e)) k)"
proof -
  have run: "\<forall>r \<in> set (sstables e). run_ok r"
    using assms(1) by (auto simp: engine_core_def table_at_run_ok)
  show "sst_ok (compact_result (sstables e))" "\<forall>x \<in> set (compact_result (sstables e)). small_entry x"
    "length (compact_result (sstables e)) \<le> sum_list (map (length \<circ> read_all_entries) (sstables e))"
    using compact_result_ok [OF run assms(3)] assms(1,2)
    by (auto simp: engine_core_def layers_def room_def total_entries_def)
  show "\<And>k. map_of (compact_result (sstables e)) k
       = map_option Some (live (map read_all_entries (sstables e)) k)"
    by (rule compact_result_map(3) [OF run assms(3)])
qed

lemma maybe_compact_ok:
  assumes core: "engine_core e" and rm: "room m (Suc s) e"
    and lv: "live (map read_all_entries (sstables e)) k0 \<noteq> None"
  shows "\<exists>e'. maybe_compact e = (OK, e') \<and> engine_core e' \<and> room m s e'
    \<and> memtable e' = memtable e \<and> view e' = view e"
proof (cases "length (sstables e) < COMPACTION_THRESHOLD")
  case True
  then show ?thesis using core rm by (auto simp: maybe_compact_def room_def)
next
  case False
  let ?es = "compact_result (sstables e)" and ?p = "sstable_path (next_seq e)"
  define h1 where "h1 = set_file ?p (sst_image ?es) (disk e)"
  note c = compact_inputs_ok [OF core rm lv]
  have quiet: "script (disk e) = []" using core by (simp add: engine_core_def log_ok_quiet)
  then have q1: "script h1 = []" "map_of (files h1) ?p = Some (sst_image ?es)" by (simp_all add: h1_def)
  obtain r where r: "sst_open h1 ?p = (Inr r, h1)" "rd_path r = ?p" "reader_for ?es r"
    using sst_open_image [OF q1 c(1)] by blast
  define e' where "e' = drop_tables (rd_path ` set (sstables e)) (add_table ?es r e)"
  have one: "sstables e' = [r]" using drop_old_tables [OF core r(2)] by (simp add: e'_def)
  have "compact (disk e) (sstables e) ?p = (OK, h1)"
    using False c(1) quiet
    by (auto simp: compact_def sst_build_def io_simps h1_def sst_ok_def COMPACTION_THRESHOLD_def)
  then have "maybe_compact e = (OK, e\<lparr>sstables := [r], next_seq := next_seq e + 1,
      disk := drop_files (rd_path ` set (sstables e)) h1\<rparr>)"
    using False by (simp add: maybe_compact_def r(1) fold_fs_remove_quiet [OF q1(1)])
  also have "e\<lparr>sstables := [r], next_seq := next_seq e + 1,
      disk := drop_files (rd_path ` set (sstables e)) h1\<rparr> = e'"
    using one by (simp add: e'_def drop_tables_def add_table_def h1_def)
  finally have f: "maybe_compact e = (OK, e')" .
  have lay: "layers e' = mt_data (memtable e) # [?es]"
    by (simp add: layers_def one read_all_entries_reader [OF r(3)]) (simp add: e'_def drop_tables_def add_table_def)
  have "engine_core e'"
    unfolding e'_def using old_paths_fresh [OF core]
    by (intro engine_core_drop_tables engine_core_add_table [OF core rm r(3,2) c(2)])
  moreover have "room m s e'"
    using rm c(3) next_seq_step [OF rm]
    by (simp add: room_def total_entries_def lay) (simp add: layers_def e'_def drop_tables_def add_table_def)
  moreover have "view e' = view e"
    using live_compacted [OF c(4)] by (simp add: view_def lay) (simp add: layers_def)
  ultimately show ?thesis using f by (simp add: e'_def drop_tables_def add_table_def)
qed

section \<open>Writing\<close>

text \<open>What a write puts into the table in memory: a value or a tombstone.\<close>

definition write_record :: "string \<Rightarrow> string option \<Rightarrow> Record" where
  "write_record k x = (case x of
      Some v \<Rightarrow> \<lparr>rec_type = PUT, rec_key = k, rec_value = v\<rparr>
    | None \<Rightarrow> \<lparr>rec_type = DELETE, rec_key = k, rec_value = []\<rparr>)"

definition logged :: "StorageEngine \<Rightarrow> string \<Rightarrow> string option \<Rightarrow> StorageEngine" where
  "logged e k x = e\<lparr>memtable := replay (write_record k x) (memtable e),
     disk := set_file wal_path (file_bytes (disk e) wal_path @ wal_record_bytes (write_record k x)) (disk e)\<rparr>"

lemma replay_write [simp]: "mt_data (replay (write_record k x) m) = smap_put k x (mt_data m)"
  by (cases x) (simp_all add: replay_def write_record_def)

lemma logged_simps [simp]:
  "mt_data (memtable (logged e k x)) = smap_put k x (mt_data (memtable e))"
  "sstables (logged e k x) = sstables e" "next_seq (logged e k x) = next_seq e"
  by (simp_all add: logged_def)

lemma view_logged: "view (logged e k x) = (view e)(k := x)"
  by (auto simp: view_def layers_def live_def fun_eq_iff map_of_smap_put split: option.splits)

lemma small_entry_valid: "small_entry (k, x) \<Longrightarrow> wal_valid (write_record k x)"
  by (auto simp: small_entry_def wal_valid_def write_record_def split: option.splits)

lemma engine_core_logged:
  assumes "engine_core e" "small_entry (k, x)"
  shows "engine_core (logged e k x)"
proof -
  have log: "log_ok (logged e k x)"
    using assms log_ok_append small_entry_valid by (auto simp: engine_core_def logged_def)
  have num: "numbered (sstables e) (next_seq e)" using assms(1) by (simp add: engine_core_def)
  have "\<forall>r \<in> set (sstables e). table_at (disk (logged e k x)) r"
    using assms(1) numbered_fresh [OF num] by (auto simp: engine_core_def logged_def)
  moreover have "dir_ok (disk (logged e k x)) (sstables e)"
    using assms(1) by (auto simp: engine_core_def logged_def intro: dir_ok_set_file)
  moreover have "\<forall>m \<in> set (layers (logged e k x)). \<forall>y \<in> set m. small_entry y"
    using assms set_smap_put_sub [of k x "mt_data (memtable e)"]
    by (auto simp: engine_core_def layers_def)
  ultimately show ?thesis using log num by (simp add: engine_core_def)
qed

lemma room_logged: "room (Suc m) s e \<Longrightarrow> room m s (logged e k x)"
  using length_smap_put_le [of k x "mt_data (memtable e)"]
  by (simp add: room_def total_entries_def layers_def)

lemma view_flushed:
  "mt_data (memtable e') = [] \<Longrightarrow> map read_all_entries (sstables e') = layers e \<Longrightarrow> view e' = view e"
  by (simp add: view_def layers_def [of e'] live_Cons_Nil)

lemma smap_put_ne [simp]: "smap_put k x m \<noteq> []"
  by (cases m) auto

lemma engine_put_ok:
  assumes ok: "engine_ok (Suc n) e" and k: "k \<noteq> []" and small: "small_entry (k, Some v)"
  shows "\<exists>e'. engine_put e k v = (OK, e') \<and> engine_ok n e' \<and> view e' = (view e)(k \<mapsto> v)"
proof -
  let ?e1 = "logged e k (Some v)"
  have core: "engine_core ?e1" and rm: "room n (Suc (Suc (2 * n))) ?e1"
    using ok engine_core_logged [OF _ small] room_logged by (auto simp: engine_ok_def)
  have quiet: "script (disk e) = []" using ok by (simp add: engine_ok_def engine_core_def log_ok_quiet)
  have put: "engine_put e k v = (if should_flush (memtable ?e1)
      then (case flush_memtable ?e1 of (OK, e2) \<Rightarrow> (OK, snd (maybe_compact e2)) | (_, e2) \<Rightarrow> (OK, e2))
      else (OK, ?e1))"
    using k by (simp add: engine_put_def wal_append_quiet [OF quiet] logged_def replay_def write_record_def Let_def)
  show ?thesis
  proof (cases "should_flush (memtable ?e1)")
    case False
    moreover have "room n (2 * n) ?e1" using rm by (simp add: room_def)
    ultimately show ?thesis using put core by (simp add: engine_ok_def view_logged)
  next
    case True
    have "mt_data (memtable ?e1) \<noteq> []" by (simp add: logged_def)
    from flush_memtable_ok [OF core rm this] obtain e2 where e2: "flush_memtable ?e1 = (OK, e2)"
      "engine_core e2" "room n (Suc (2 * n)) e2" "mt_data (memtable e2) = []"
      "map read_all_entries (sstables e2) = layers ?e1" by blast
    have "live (map read_all_entries (sstables e2)) k \<noteq> None"
      using view_logged [of e k "Some v"] by (simp add: e2(5) view_def)
    from maybe_compact_ok [OF e2(2,3) this] obtain e3 where
      "maybe_compact e2 = (OK, e3)" "engine_core e3" "room n (2 * n) e3" "view e3 = view e2" by blast
    then show ?thesis
      using True put e2(1) view_flushed [OF e2(4,5)] by (simp add: engine_ok_def view_logged)
  qed
qed

lemma engine_remove_ok:
  assumes ok: "engine_ok (Suc n) e" and k: "k \<noteq> []" and small: "small_entry (k, None)"
  shows "\<exists>e'. engine_remove e k = (OK, e') \<and> engine_ok n e' \<and> view e' = (view e)(k := None)"
proof -
  let ?e1 = "logged e k None"
  have core: "engine_core ?e1" and rm: "room n (Suc (Suc (2 * n))) ?e1"
    using ok engine_core_logged [OF _ small] room_logged by (auto simp: engine_ok_def)
  then have rm': "room n (Suc (2 * n)) ?e1" by (simp add: room_def)
  have quiet: "script (disk e) = []" using ok by (simp add: engine_ok_def engine_core_def log_ok_quiet)
  have rem: "engine_remove e k =
      (OK, if should_flush (memtable ?e1) then snd (flush_memtable ?e1) else ?e1)"
    using k by (simp add: engine_remove_def wal_append_quiet [OF quiet] logged_def replay_def write_record_def Let_def)
  have "mt_data (memtable ?e1) \<noteq> []" by (simp add: logged_def)
  from flush_memtable_ok [OF core rm' this] obtain e2 where e2: "flush_memtable ?e1 = (OK, e2)"
    "engine_core e2" "room n (2 * n) e2" "mt_data (memtable e2) = []"
    "map read_all_entries (sstables e2) = layers ?e1" by blast
  have "room n (2 * n) ?e1" using rm by (simp add: room_def)
  then show ?thesis
    using rem e2 core view_flushed [OF e2(4,5)] by (simp add: engine_ok_def view_logged)
qed

section \<open>Reading\<close>

lemma engine_core_runs:
  assumes "engine_core e"
  shows "memtable_wf (memtable e)" "\<forall>r \<in> set (sstables e). \<exists>es. reader_for es r"
  using assms by (auto simp: engine_core_def log_ok_memtable_wf table_at_def)

lemma get_sstables_layered:
  assumes "\<forall>r \<in> set ssts. \<exists>es. reader_for es r"
  shows "get_sstables ssts k = (case live (map read_all_entries ssts) k of Some v \<Rightarrow> (OK, v) | None \<Rightarrow> (NOT_FOUND, []))"
  using assms
proof (induction ssts)
  case (Cons r ssts)
  then have "sst_get r k = lookup_result (map_of (read_all_entries r) k)"
    by (intro sst_run.get_law) simp
  with Cons show ?case
    by (auto simp: lookup_result_def found_result_def live_def Let_def split: option.splits)
qed (simp add: live_def)

lemma engine_get_ok:
  assumes "engine_core e" "k \<noteq> []"
  shows "engine_get e k = (case view e k of Some v \<Rightarrow> (OK, v) | None \<Rightarrow> (NOT_FOUND, []))"
proof -
  have "memtable_get (memtable e) k = lookup_result (map_of (mt_data (memtable e)) k)"
    by (rule mem_run.get_law [OF engine_core_runs(1) [OF assms(1)]])
  then show ?thesis
    using assms(2) get_sstables_layered [OF engine_core_runs(2) [OF assms(1)]]
    by (auto simp: engine_get_def Let_def lookup_result_def found_result_def view_def layers_def live_def
        split: option.splits)
qed

lemma set_map_filter_live:
  "x \<in> set (List.map_filter (\<lambda>(k, v). map_option (\<lambda>y. (k, y)) v) m) \<Longrightarrow> (fst x, Some (snd x)) \<in> set m"
  by (auto simp: map_filter_def)

lemma map_filter_live:
  assumes "smap_wf m"
  shows "smap_wf (List.map_filter (\<lambda>(k, v). map_option (\<lambda>x. (k, x)) v) m)"
    and "map_of (List.map_filter (\<lambda>(k, v). map_option (\<lambda>x. (k, x)) v) m) k
      = (case map_of m k of Some (Some v) \<Rightarrow> Some v | _ \<Rightarrow> None)"
  using assms
proof (induction m)
  case (Cons e m)
  obtain k0 v0 where e: "e = (k0, v0)" by (cases e)
  {
    case 1
    then have "\<forall>x \<in> set m. k0 < fst x" "smap_wf m" by (auto simp: smap_wf_Cons e)
    then show ?case using Cons.IH(1)
      by (cases v0) (auto simp: e List.map_filter_simps smap_wf_Cons dest!: set_map_filter_live)
  next
    case 2
    then have "map_of m k0 = None" "smap_wf m" by (auto simp: map_of_eq_None_iff smap_wf_Cons e)
    then show ?case using Cons.IH(2)
      by (cases v0) (auto simp: e List.map_filter_simps)
  }
qed (simp_all add: List.map_filter_simps)

lemma engine_scan_ok:
  assumes "engine_core e"
  shows "smap_wf (engine_scan e lo hi)"
    and "map_of (engine_scan e lo hi) k = (if lo \<le> k \<and> k \<le> hi then view e k else None)"
proof -
  note runs = engine_core_runs [OF assms]
  let ?old = "fold smap_put_all (rev (map (\<lambda>r. sst_scan r lo hi) (sstables e))) []"
  let ?all = "smap_put_all (memtable_scan (memtable e) lo hi) ?old"
  have eq: "engine_scan e lo hi = (if hi < lo then []
      else List.map_filter (\<lambda>(k, v). map_option (\<lambda>x. (k, x)) v) ?all)"
    by (simp add: engine_scan_def Let_def fold_map comp_def rev_map)
  have wf: "smap_wf ?all" by (simp add: smap_wf_put_all smap_wf_merge)
  show "smap_wf (engine_scan e lo hi)" using map_filter_live(1) [OF wf] by (simp add: eq)
  have m: "map_of ?all k = (if lo \<le> k \<and> k \<le> hi then layered (layers e) k else None)" if "lo \<le> hi"
    using that runs sst_run.merge_scans [OF runs(2) that] mem_run.map_of_scan [OF runs(1) that]
      mem_run.scan_wf [OF runs(1) that]
    by (auto simp: map_of_smap_put_all map_add_def map_of_rev_wf layers_def split: option.splits)
  then have "map_of (engine_scan e lo hi) k = (if lo \<le> k \<and> k \<le> hi then view e k else None)" if "lo \<le> hi"
    using that by (simp add: eq map_filter_live(2) [OF wf] m [OF that] view_def live_def not_less [THEN iffD2])
  moreover have "\<not> (lo \<le> k \<and> k \<le> hi)" if "\<not> lo \<le> hi" using that order_trans by blast
  ultimately show "map_of (engine_scan e lo hi) k = (if lo \<le> k \<and> k \<le> hi then view e k else None)"
    by (cases "lo \<le> hi") (auto simp: eq not_le)
qed

end
