(* ===== verification/Engine_Recovery.thy ===== *)
theory Engine_Recovery
  imports Engine_Correct
begin

text \<open>
  Opening the engine on the files that another engine left: the directory scan finds its tables, the
  log replays its table in memory, and clients see the same map. The last part runs sequences of
  writes and crashes against a map, which is what the engine promises its callers.
\<close>

section \<open>Finding the tables\<close>

lemma find_sstables_quiet:
  assumes "script h = []"
    and "\<forall>name \<in> set names. sst_seq name \<noteq> None \<longrightarrow>
      (\<exists>es. sst_ok es \<and> map_of (files h) name = Some (sst_image es))"
  shows "find_sstables names acc h =
    (acc @ List.map_filter (\<lambda>n. map_option (\<lambda>s. (s, n)) (sst_seq n)) names, h)"
  using assms(2)
proof (induction names arbitrary: acc)
  case (Cons name names)
  show ?case
  proof (cases "sst_seq name")
    case None
    with Cons show ?thesis by (simp add: List.map_filter_simps)
  next
    case (Some s)
    with Cons.prems obtain es where "sst_ok es" "map_of (files h) name = Some (sst_image es)" by auto
    then have "sst_validate h name = (True, h)" using sst_validate_image assms(1) by blast
    with Some Cons show ?thesis by (simp add: List.map_filter_simps)
  qed
qed (simp add: List.map_filter_simps)

text \<open>The numbers come back in descending order whatever the order of the directory.\<close>

lemma insort_key_map: "(\<And>s. g (f s) = s) \<Longrightarrow> insort_key g (f x) (map f xs) = map f (insort x xs)"
  by (induction xs) auto

lemma sort_key_map: "(\<And>s. g (f s) = s) \<Longrightarrow> sort_key g (map f xs) = map f (sort xs)"
  by (induction xs) (simp_all add: insort_key_map)

lemma sort_desc_numbers:
  assumes "distinct ss" "sorted_wrt (>) seqs" "set ss = set seqs"
  shows "sort_desc (map (\<lambda>s. (s, sstable_path s)) ss) = map (\<lambda>s. (s, sstable_path s)) seqs"
proof -
  have "sorted_wrt (<) (rev seqs)" using assms(2) by (simp add: sorted_wrt_rev)
  then have "sorted (rev seqs)" "distinct (rev seqs)" by (simp_all add: strict_sorted_iff)
  then have "sort ss = rev seqs"
    using assms(1,3) by (intro sorted_distinct_set_unique) simp_all
  then show ?thesis
    using sort_key_map [of fst "\<lambda>s. (s, sstable_path s)" ss] by (simp add: sort_desc_def rev_map)
qed

lemma found_numbers:
  assumes dir: "dir_ok h ssts" and seqs: "map rd_path ssts = map sstable_path seqs"
    and tab: "\<forall>r \<in> set ssts. table_at h r"
  shows "\<exists>ss. List.map_filter (\<lambda>n. map_option (\<lambda>s. (s, n)) (sst_seq n)) (map fst (files h))
      = map (\<lambda>s. (s, sstable_path s)) ss \<and> distinct ss \<and> set ss = set seqs"
proof -
  let ?names = "map fst (files h)"
  let ?ss = "List.map_filter sst_seq ?names"
  have paths: "rd_path ` set ssts = sstable_path ` set seqs" using seqs by (metis set_map)
  have named: "n = sstable_path s" if "n \<in> set ?names" "sst_seq n = Some s" for n s
    using that dir paths by (auto simp: dir_ok_def)
  have "List.map_filter (\<lambda>n. map_option (\<lambda>s. (s, n)) (sst_seq n)) ns
      = map (\<lambda>s. (s, sstable_path s)) (List.map_filter sst_seq ns)" if "set ns \<subseteq> set ?names" for ns
    using that
  proof (induction ns)
    case (Cons n ns)
    then show ?case using named [of n] by (cases "sst_seq n") (auto simp: List.map_filter_simps)
  qed (simp add: List.map_filter_simps)
  moreover have "distinct (List.map_filter sst_seq ns)" if "set ns \<subseteq> set ?names" "distinct ns" for ns
    using that
  proof (induction ns)
    case (Cons n ns)
    have "s \<notin> set (List.map_filter sst_seq ns)" if s: "sst_seq n = Some s" for s
    proof
      assume "s \<in> set (List.map_filter sst_seq ns)"
      then obtain n' where "n' \<in> set ns" "sst_seq n' = Some s" by (auto simp: map_filter_def)
      then have "n' = n" using named [of n s] named [of n' s] s Cons.prems(1) by auto
      with \<open>n' \<in> set ns\<close> Cons.prems(2) show False by simp
    qed
    with Cons show ?case by (cases "sst_seq n") (auto simp: List.map_filter_simps)
  qed (simp add: List.map_filter_simps)
  moreover have "set ?ss = set seqs"
  proof
    show "set ?ss \<subseteq> set seqs"
      using dir paths by (force simp: map_filter_def dir_ok_def)
    show "set seqs \<subseteq> set ?ss"
    proof
      fix s assume "s \<in> set seqs"
      then obtain r where "r \<in> set ssts" "rd_path r = sstable_path s" using paths by (metis imageE imageI)
      then have "map_of (files h) (sstable_path s) \<noteq> None" using tab by (auto simp: table_at_def)
      then have "sstable_path s \<in> set ?names" by (simp add: map_of_eq_None_iff)
      then show "s \<in> set ?ss" by (force simp: map_filter_def)
    qed
  qed
  ultimately show ?thesis using dir by (intro exI [of _ ?ss]) (auto simp: dir_ok_def)
qed

section \<open>Opening the tables\<close>

lemma succ_le_bound: "s < N \<Longrightarrow> s < s + 1 \<and> s + 1 \<le> N" for s N :: u64
proof -
  assume "s < N"
  then have "unat s < unat N" by (simp add: word_less_nat_alt)
  then have "unat s + 1 < 18446744073709551616" using unat_u64_less [of N] by linarith
  then have "unat (s + 1) = unat s + 1" by (simp add: unat_word_ariths)
  with \<open>unat s < unat N\<close> show ?thesis by (simp add: word_less_nat_alt word_le_nat_alt)
qed

lemma open_sstables_quiet:
  assumes "script h = []" "\<forall>r \<in> set ssts. table_at h r" "map rd_path ssts = map sstable_path seqs"
    and "\<forall>s \<in> set seqs. s < N" "nxt \<le> N"
  shows "\<exists>ssts' nxt'. open_sstables (map (\<lambda>s. (s, sstable_path s)) seqs) acc nxt h = (acc @ ssts', nxt', h)
    \<and> map rd_path ssts' = map rd_path ssts \<and> map read_all_entries ssts' = map read_all_entries ssts
    \<and> (\<forall>r \<in> set ssts'. table_at h r) \<and> nxt \<le> nxt' \<and> nxt' \<le> N \<and> (\<forall>s \<in> set seqs. s < nxt')"
  using assms(2-5)
proof (induction seqs arbitrary: ssts acc nxt)
  case (Cons s seqs)
  then obtain r rs where ssts: "ssts = r # rs" by (cases ssts) auto
  have p: "rd_path r = sstable_path s" and tab: "table_at h r" using Cons.prems by (auto simp: ssts)
  then obtain es where es: "reader_for es r" "map_of (files h) (sstable_path s) = Some (sst_image es)"
    by (auto simp: table_at_def)
  moreover have "sst_ok es" using es(1) by (simp add: reader_for_def)
  ultimately obtain r' where r': "sst_open h (sstable_path s) = (Inr r', h)" "rd_path r' = sstable_path s"
    "reader_for es r'" using sst_open_image assms(1) by blast
  define nxt1 where "nxt1 = (if s \<ge> nxt then s + 1 else nxt)"
  have n1: "nxt \<le> nxt1" "nxt1 \<le> N" "s < nxt1"
    using Cons.prems(3,4) succ_le_bound [of s N] by (auto simp: nxt1_def not_le)
  obtain rs' nxt' where rest: "open_sstables (map (\<lambda>s. (s, sstable_path s)) seqs) (acc @ [r']) nxt1 h
      = ((acc @ [r']) @ rs', nxt', h)" "map rd_path rs' = map rd_path rs"
    "map read_all_entries rs' = map read_all_entries rs" "\<forall>r \<in> set rs'. table_at h r"
    "nxt1 \<le> nxt'" "nxt' \<le> N" "\<forall>s \<in> set seqs. s < nxt'"
    using Cons.IH [of rs nxt1 "acc @ [r']"] Cons.prems n1(2) by (auto simp: ssts)
  have "table_at h r'" using r' es(2) by (auto simp: table_at_def)
  moreover have "read_all_entries r' = read_all_entries r"
    using read_all_entries_reader [OF es(1)] read_all_entries_reader [OF r'(3)] by simp
  ultimately show ?case
    using rest n1 r' p by (intro exI [of _ "r' # rs'"] exI [of _ nxt'])
      (auto simp: ssts nxt1_def [symmetric])
qed simp

text \<open>Every file whose name is that of a table is the image of one.\<close>

lemma core_tables:
  assumes "engine_core e"
  shows "\<forall>name \<in> set (map fst (files (disk e))). sst_seq name \<noteq> None \<longrightarrow>
    (\<exists>es. sst_ok es \<and> map_of (files (disk e)) name = Some (sst_image es))"
proof (intro ballI impI)
  fix name assume "name \<in> set (map fst (files (disk e)))" "sst_seq name \<noteq> None"
  then obtain r where "r \<in> set (sstables e)" "name = rd_path r" using assms by (auto simp: engine_core_def dir_ok_def)
  then show "\<exists>es. sst_ok es \<and> map_of (files (disk e)) name = Some (sst_image es)"
    using assms by (auto simp: engine_core_def table_at_def reader_for_def)
qed

lemma load_sstables_quiet:
  assumes "engine_core e"
  shows "\<exists>ssts nxt. load_sstables (disk e) = (ssts, nxt, disk e) \<and> map rd_path ssts = map rd_path (sstables e)
    \<and> map read_all_entries ssts = map read_all_entries (sstables e)
    \<and> (\<forall>r \<in> set ssts. table_at (disk e) r) \<and> numbered ssts nxt \<and> nxt \<le> next_seq e"
proof -
  let ?h = "disk e"
  have quiet: "script ?h = []" and tab: "\<forall>r \<in> set (sstables e). table_at ?h r"
    and dir: "dir_ok ?h (sstables e)"
    using assms by (auto simp: engine_core_def log_ok_quiet)
  obtain seqs where seqs: "map rd_path (sstables e) = map sstable_path seqs" "sorted_wrt (>) seqs"
    "\<forall>s \<in> set seqs. s < next_seq e" using assms by (auto simp: engine_core_def numbered_def)
  from core_tables [OF assms] have find: "find_sstables (map fst (files ?h)) [] ?h =
      (List.map_filter (\<lambda>n. map_option (\<lambda>s. (s, n)) (sst_seq n)) (map fst (files ?h)), ?h)"
    using find_sstables_quiet [OF quiet, of "map fst (files ?h)" "[]"] by auto
  obtain ss where ss: "List.map_filter (\<lambda>n. map_option (\<lambda>s. (s, n)) (sst_seq n)) (map fst (files ?h))
      = map (\<lambda>s. (s, sstable_path s)) ss" "distinct ss" "set ss = set seqs"
    using found_numbers [OF dir seqs(1) tab] by blast
  obtain ssts nxt where o: "open_sstables (map (\<lambda>s. (s, sstable_path s)) seqs) [] 0 ?h = (ssts, nxt, ?h)"
    "map rd_path ssts = map rd_path (sstables e)" "map read_all_entries ssts = map read_all_entries (sstables e)"
    "\<forall>r \<in> set ssts. table_at ?h r" "nxt \<le> next_seq e" "\<forall>s \<in> set seqs. s < nxt"
    using open_sstables_quiet [OF quiet tab seqs(1,3), of 0 "[]"] by auto
  have "load_sstables ?h = (ssts, nxt, ?h)"
    by (simp add: load_sstables_def find ss(1) sort_desc_numbers [OF ss(2) seqs(2) ss(3)] o(1))
  moreover have "numbered ssts nxt"
    using seqs(1,2) o(2,6) by (auto simp: numbered_def)
  ultimately show ?thesis using o by blast
qed

section \<open>Opening the engine\<close>

lemma replay_data:
  assumes "mt_data a = mt_data b"
  shows "mt_data (fold replay rs a) = mt_data (fold replay rs b)"
  using assms
proof (induction rs arbitrary: a b)
  case (Cons r rs)
  have "mt_data (replay r a) = mt_data (replay r b)"
    using Cons.prems by (cases "rec_type r") (simp_all add: replay_def)
  then show ?case by (simp only: fold_simps) (rule Cons.IH)
qed simp

lemma flush_threshold_replay [simp]: "flush_threshold (fold replay rs m) = flush_threshold m"
  by (induction rs arbitrary: m) simp_all

lemma wal_open_quiet:
  assumes "script h = []"
  shows "\<exists>h'. wal_open h wal_path = (Inr wal_path, h') \<and> script h' = []
    \<and> file_bytes h' wal_path = file_bytes h wal_path
    \<and> (\<forall>p. p \<noteq> wal_path \<longrightarrow> map_of (files h') p = map_of (files h) p)
    \<and> (\<forall>ssts. dir_ok h ssts \<longrightarrow> dir_ok h' ssts)"
proof (cases "wal_path \<in> fst ` set (files h)")
  case False
  then have "map_of (files h) wal_path = None" by (simp add: map_of_eq_None_iff)
  with False assms show ?thesis
    by (auto simp: wal_open_def io_simps file_bytes_def intro: dir_ok_set_file)
qed (use assms in \<open>simp add: wal_open_def io_simps\<close>)

text \<open>
  Opening the engine on the files of an engine in good order succeeds, keeps the invariant and shows
  clients the same map. A flush may follow the replay, so one more table number has to be left.
\<close>

lemma engine_open_ok:
  assumes core: "engine_core e" and rm: "room m (Suc s) e"
  shows "\<exists>e'. engine_open (disk e) t = (Inr e', disk e') \<and> engine_core e' \<and> room m s e' \<and> view e' = view e"
proof -
  obtain ssts nxt where load: "load_sstables (disk e) = (ssts, nxt, disk e)"
    and ssts: "map rd_path ssts = map rd_path (sstables e)"
      "map read_all_entries ssts = map read_all_entries (sstables e)"
      "\<forall>r \<in> set ssts. table_at (disk e) r" "numbered ssts nxt" "nxt \<le> next_seq e"
    using load_sstables_quiet [OF core] by blast
  obtain rs where rs: "wal_holds (disk e) wal_path rs"
    "memtable e = fold replay rs (memtable_new (flush_threshold (memtable e)))"
    using core by (auto simp: engine_core_def log_ok_def)
  then have quiet: "script (disk e) = []" by (simp add: wal_holds_def)
  obtain h where h: "wal_open (disk e) wal_path = (Inr wal_path, h)" "script h = []"
    "file_bytes h wal_path = file_bytes (disk e) wal_path"
    "\<forall>p. p \<noteq> wal_path \<longrightarrow> map_of (files h) p = map_of (files (disk e)) p"
    "\<forall>ssts. dir_ok (disk e) ssts \<longrightarrow> dir_ok h ssts"
    using wal_open_quiet [OF quiet] by blast
  define e1 where "e1 = \<lparr>memtable = fold replay rs (memtable_new t), sstables = ssts, next_seq = nxt, disk = h\<rparr>"
  have holds: "wal_holds h wal_path rs" using rs(1) h(2,3) by (simp add: wal_holds_def)
  have opened: "engine_open (disk e) t = (Inr e', disk e')"
    if "e' = (if should_flush (memtable e1) then snd (flush_memtable e1) else e1)" for e'
    using that by (simp add: engine_open_def io_simps quiet load h(1) engine_recover_def Let_def
        wal_holds_recover [OF holds] e1_def)
  have lay: "layers e1 = layers e"
    using replay_data [of "memtable_new t" _ rs] rs(2) ssts(2) by (simp add: layers_def e1_def) (metis memtable_data_simps(4))
  have "dir_ok h ssts"
  proof -
    have "rd_path ` set ssts = rd_path ` set (sstables e)" using ssts(1) by (metis set_map)
    moreover have "dir_ok h (sstables e)" using h(5) core by (simp add: engine_core_def)
    ultimately show ?thesis by (simp add: dir_ok_def)
  qed
  moreover have "log_ok e1" using holds by (auto simp: log_ok_def e1_def)
  moreover have "\<forall>r \<in> set ssts. table_at h r"
    using ssts(3) h(4) numbered_fresh [OF ssts(4)] by (auto simp: table_at_def)
  moreover have "\<forall>m \<in> set (layers e1). \<forall>x \<in> set m. small_entry x"
    using core by (simp add: lay engine_core_def)
  ultimately have core1: "engine_core e1" using ssts(4) by (simp add: engine_core_def) (simp add: e1_def)
  have rm1: "room m (Suc s) e1"
    using rm ssts(5) by (simp add: room_def total_entries_def lay) (simp add: e1_def word_le_nat_alt)
  have v1: "view e1 = view e" by (simp add: view_def lay)
  show ?thesis
  proof (cases "should_flush (memtable e1) \<and> mt_data (memtable e1) \<noteq> []")
    case True
    with flush_memtable_ok [OF core1 rm1] obtain e2 where "flush_memtable e1 = (OK, e2)" "engine_core e2"
      "room m s e2" "mt_data (memtable e2) = []" "map read_all_entries (sstables e2) = layers e1" by blast
    then show ?thesis using True opened view_flushed v1 by auto
  next
    case False
    then have "snd (flush_memtable e1) = e1 \<or> \<not> should_flush (memtable e1)"
      by (auto simp: flush_memtable_def dump_sorted_def)
    moreover have "room m s e1" using rm1 by (simp add: room_def)
    ultimately show ?thesis using opened [of e1] core1 v1 by auto
  qed
qed

section \<open>What the engine promises its clients\<close>

text \<open>
  The contract of a key-value store, as the catalog, the executor and the server use it: a store
  that has room for \<open>n\<close> more writes behaves as a map from keys to values.
\<close>

locale kv_store =
  fixes kv_put :: "'s \<Rightarrow> string \<Rightarrow> string \<Rightarrow> Status \<times> 's"
    and kv_remove :: "'s \<Rightarrow> string \<Rightarrow> Status \<times> 's"
    and kv_get :: "'s \<Rightarrow> string \<Rightarrow> Status \<times> string"
    and kv_scan :: "'s \<Rightarrow> string \<Rightarrow> string \<Rightarrow> (string \<times> string) list"
    and kv_ok :: "nat \<Rightarrow> 's \<Rightarrow> bool"
    and kv_view :: "'s \<Rightarrow> string \<rightharpoonup> string"
    and kv_fits :: "string \<times> string option \<Rightarrow> bool"
  assumes put_law: "kv_ok (Suc n) s \<Longrightarrow> k \<noteq> [] \<Longrightarrow> kv_fits (k, Some v) \<Longrightarrow>
      \<exists>s'. kv_put s k v = (OK, s') \<and> kv_ok n s' \<and> kv_view s' = (kv_view s)(k \<mapsto> v)"
    and remove_law: "kv_ok (Suc n) s \<Longrightarrow> k \<noteq> [] \<Longrightarrow> kv_fits (k, None) \<Longrightarrow>
      \<exists>s'. kv_remove s k = (OK, s') \<and> kv_ok n s' \<and> kv_view s' = (kv_view s)(k := None)"
    and get_law: "kv_ok n s \<Longrightarrow> k \<noteq> [] \<Longrightarrow>
      kv_get s k = (case kv_view s k of Some v \<Rightarrow> (OK, v) | None \<Rightarrow> (NOT_FOUND, []))"
    and scan_sorted: "kv_ok n s \<Longrightarrow> smap_wf (kv_scan s lo hi)"
    and scan_law: "kv_ok n s \<Longrightarrow> map_of (kv_scan s lo hi) k = (if lo \<le> k \<and> k \<le> hi then kv_view s k else None)"
begin

lemma scan_eqI:
  assumes "kv_ok n s" "smap_wf xs" "\<And>k. map_of xs k = (if lo \<le> k \<and> k \<le> hi then kv_view s k else None)"
  shows "kv_scan s lo hi = xs"
  by (rule smap_eqI [OF scan_sorted [OF assms(1)] assms(2)]) (auto simp: scan_law [OF assms(1)] assms(3))

lemma scan_view_cong:
  assumes "kv_ok n s" "kv_ok m s'" "\<And>k. lo \<le> k \<Longrightarrow> k \<le> hi \<Longrightarrow> kv_view s k = kv_view s' k"
  shows "kv_scan s lo hi = kv_scan s' lo hi"
  by (rule scan_eqI [OF assms(1) scan_sorted [OF assms(2)]]) (auto simp: scan_law [OF assms(2)] assms(3))

lemma get_after_put:
  assumes "kv_ok (Suc n) s" "k \<noteq> []" "kv_fits (k, Some v)" "k' \<noteq> []"
  shows "kv_get (snd (kv_put s k v)) k' = (if k' = k then (OK, v) else kv_get s k')"
proof -
  obtain s' where "kv_put s k v = (OK, s')" "kv_ok n s'" "kv_view s' = (kv_view s)(k \<mapsto> v)"
    using put_law [OF assms(1-3)] by blast
  then show ?thesis using get_law [OF assms(1,4)] get_law [OF _ assms(4)] by auto
qed

lemma scan_put_outside:
  assumes "kv_ok (Suc n) s" "k \<noteq> []" "kv_fits (k, Some v)" "\<not> (lo \<le> k \<and> k \<le> hi)"
  shows "kv_scan (snd (kv_put s k v)) lo hi = kv_scan s lo hi"
proof -
  obtain s' where "kv_put s k v = (OK, s')" "kv_ok n s'" "kv_view s' = (kv_view s)(k \<mapsto> v)"
    using put_law [OF assms(1-3)] by blast
  moreover have "((kv_view s)(k \<mapsto> v)) j = kv_view s j" if "lo \<le> j" "j \<le> hi" for j
    using that assms(4) by auto
  ultimately show ?thesis using scan_view_cong [OF _ assms(1), of n s' lo hi] by simp
qed

end

interpretation engine_kv: kv_store engine_put engine_remove engine_get engine_scan engine_ok view small_entry
proof
  fix n s k v
  show "engine_ok (Suc n) s \<Longrightarrow> k \<noteq> [] \<Longrightarrow> small_entry (k, Some v) \<Longrightarrow>
      \<exists>s'. engine_put s k v = (OK, s') \<and> engine_ok n s' \<and> view s' = (view s)(k \<mapsto> v)"
    by (rule engine_put_ok)
  show "engine_ok (Suc n) s \<Longrightarrow> k \<noteq> [] \<Longrightarrow> small_entry (k, None) \<Longrightarrow>
      \<exists>s'. engine_remove s k = (OK, s') \<and> engine_ok n s' \<and> view s' = (view s)(k := None)"
    by (rule engine_remove_ok)
qed (simp_all add: engine_ok_def engine_get_ok engine_scan_ok)

section \<open>Runs of the engine\<close>

text \<open>
  A run of a client: writes, and crashes after which the engine is opened again on the files that
  are there, with some threshold. A write that does not answer \<open>OK\<close> or an engine that cannot be
  opened ends the run with \<open>None\<close>.
\<close>

datatype kv_op = KPut string string | KRemove string | KCrash u64

fun run_ops :: "kv_op list \<Rightarrow> StorageEngine \<Rightarrow> StorageEngine option" where
  "run_ops [] e = Some e"
| "run_ops (KPut k v # ops) e = (case engine_put e k v of (OK, e') \<Rightarrow> run_ops ops e' | _ \<Rightarrow> None)"
| "run_ops (KRemove k # ops) e = (case engine_remove e k of (OK, e') \<Rightarrow> run_ops ops e' | _ \<Rightarrow> None)"
| "run_ops (KCrash t # ops) e = (case engine_open (disk e) t of (Inr e', _) \<Rightarrow> run_ops ops e' | _ \<Rightarrow> None)"

fun op_fits :: "kv_op \<Rightarrow> bool" where
  "op_fits (KPut k v) \<longleftrightarrow> k \<noteq> [] \<and> small_entry (k, Some v)"
| "op_fits (KRemove k) \<longleftrightarrow> k \<noteq> [] \<and> small_entry (k, None)"
| "op_fits (KCrash t) \<longleftrightarrow> True"

fun kv_spec :: "kv_op \<Rightarrow> (string \<rightharpoonup> string) \<Rightarrow> (string \<rightharpoonup> string)" where
  "kv_spec (KPut k v) f = f(k \<mapsto> v)"
| "kv_spec (KRemove k) f = f(k := None)"
| "kv_spec (KCrash t) f = f"

lemma run_ops_ok:
  assumes "engine_ok (length ops + n) e" "list_all op_fits ops"
  shows "\<exists>e'. run_ops ops e = Some e' \<and> engine_ok n e' \<and> view e' = fold kv_spec ops (view e)"
  using assms
proof (induction ops arbitrary: e)
  case (Cons a ops)
  then have ok: "engine_ok (Suc (length ops + n)) e" and fits: "op_fits a" "list_all op_fits ops" by simp_all
  show ?case
  proof (cases a)
    case (KPut k v)
    then obtain e1 where "engine_put e k v = (OK, e1)" "engine_ok (length ops + n) e1" "view e1 = (view e)(k \<mapsto> v)"
      using engine_put_ok [OF ok] fits(1) by auto
    with KPut Cons.IH [of e1] fits(2) show ?thesis by (simp del: fun_upd_apply)
  next
    case (KRemove k)
    then obtain e1 where "engine_remove e k = (OK, e1)" "engine_ok (length ops + n) e1" "view e1 = (view e)(k := None)"
      using engine_remove_ok [OF ok] fits(1) by auto
    with KRemove Cons.IH [of e1] fits(2) show ?thesis by (simp del: fun_upd_apply)
  next
    case (KCrash t)
    have "engine_core e" "room (length ops + n) (Suc (2 * (length ops + n))) e"
      using ok by (auto simp: engine_ok_def room_def)
    then obtain e1 where "engine_open (disk e) t = (Inr e1, disk e1)" "engine_ok (length ops + n) e1" "view e1 = view e"
      using engine_open_ok by (metis engine_ok_def)
    with KCrash Cons.IH [of e1] fits(2) show ?thesis by simp
  qed
qed simp

text \<open>The engine that \<open>engine_open\<close> gives on an empty directory.\<close>

definition fresh_host :: host where
  "fresh_host = \<lparr>files = [], script = []\<rparr>"

lemma engine_open_fresh:
  "\<exists>e. engine_open fresh_host t = (Inr e, disk e) \<and> engine_ok 429496728 e \<and> view e = Map.empty"
proof -
  define e0 where "e0 = \<lparr>memtable = memtable_new t, sstables = [], next_seq = 0, disk = fresh_host\<rparr>"
  have "log_ok e0"
    by (auto simp: log_ok_def e0_def fresh_host_def wal_holds_def file_bytes_def intro!: exI [of _ "[]"])
  then have "engine_core e0"
    by (auto simp: engine_core_def numbered_def dir_ok_def layers_def e0_def fresh_host_def)
  moreover have "room 429496728 (Suc (2 * 429496728)) e0"
    by (simp add: room_def total_entries_def layers_def e0_def)
  ultimately obtain e where "engine_open (disk e0) t = (Inr e, disk e)" "engine_core e"
    "room 429496728 (2 * 429496728) e" "view e = view e0" using engine_open_ok by blast
  moreover have "view e0 = Map.empty" by (auto simp: view_def layers_def e0_def live_def)
  ultimately show ?thesis by (auto simp: e0_def engine_ok_def)
qed

section \<open>Properties of the engine\<close>

text \<open>
  C2: the engine refines a durable map. On an empty directory, for every sequence of puts and
  removals of non-empty keys within the size limits, interleaved with crashes after which the engine
  is opened again, every operation answers \<open>OK\<close>, every restart succeeds, and afterwards a lookup and a
  scan answer from the map that the same writes build. Flushes and compactions happen along the way
  whenever the thresholds say so. The length of the run keeps the number of entries within what
  one Bloom filter can hold.
\<close>

theorem engine_refines_map:
  assumes "list_all op_fits ops" "length ops \<le> 429496728"
  shows "\<exists>e0 e. engine_open fresh_host t = (Inr e0, disk e0) \<and> run_ops ops e0 = Some e
    \<and> (\<forall>k. k \<noteq> [] \<longrightarrow> engine_get e k =
         (case fold kv_spec ops Map.empty k of Some v \<Rightarrow> (OK, v) | None \<Rightarrow> (NOT_FOUND, [])))
    \<and> (\<forall>lo hi. smap_wf (engine_scan e lo hi)
         \<and> (\<forall>k. map_of (engine_scan e lo hi) k =
              (if lo \<le> k \<and> k \<le> hi then fold kv_spec ops Map.empty k else None)))"
proof -
  obtain e0 where e0: "engine_open fresh_host t = (Inr e0, disk e0)" "engine_ok 429496728 e0" "view e0 = Map.empty"
    using engine_open_fresh by blast
  have "engine_ok (length ops + (429496728 - length ops)) e0" using e0(2) assms(2) by simp
  from run_ops_ok [OF this assms(1)] obtain e where e: "run_ops ops e0 = Some e"
    "engine_ok (429496728 - length ops) e" "view e = fold kv_spec ops Map.empty" using e0(3) by auto
  show ?thesis
    using e0(1) e(1,3) engine_kv.get_law [OF e(2)] engine_kv.scan_sorted [OF e(2)] engine_kv.scan_law [OF e(2)]
    by auto
qed

theorem engine_refines_map_witness:
  "\<exists>e0 e. engine_open fresh_host 1 = (Inr e0, disk e0)
    \<and> run_ops [KPut ''a'' ''1'', KPut ''b'' ''2'', KRemove ''a'', KCrash 8] e0 = Some e
    \<and> engine_get e ''b'' = (OK, ''2'') \<and> engine_get e ''a'' = (NOT_FOUND, [])"
proof -
  have "list_all op_fits [KPut ''a'' ''1'', KPut ''b'' ''2'', KRemove ''a'', KCrash 8]"
    by (simp add: small_entry_def)
  from engine_refines_map [OF this, of 1] obtain e0 e where "engine_open fresh_host 1 = (Inr e0, disk e0)"
    "run_ops [KPut ''a'' ''1'', KPut ''b'' ''2'', KRemove ''a'', KCrash 8] e0 = Some e"
    "\<forall>k. k \<noteq> [] \<longrightarrow> engine_get e k = (case fold kv_spec
       [KPut ''a'' ''1'', KPut ''b'' ''2'', KRemove ''a'', KCrash 8] Map.empty k of Some v \<Rightarrow> (OK, v) | None \<Rightarrow> (NOT_FOUND, []))"
    by auto
  then show ?thesis by (intro exI [of _ e0] exI [of _ e]) simp
qed

end
