(* ===== verification/Engine_Crash.thy ===== *)
theory Engine_Crash
  imports Engine_Recovery
begin

text \<open>
  What is left when an operation of the engine does not run to its end: calls that fail, and crashes inside a flush or a
  compaction. The files a crash leaves are those of the operation run on a host on which no call has an effect any more from
  some point on; what survives is what \<open>engine_open\<close> makes of them.
\<close>

section \<open>Calls that fail\<close>

lemma sst_build_other_files:
  assumes "sst_build h p es = (s, h')" "q \<noteq> p"
  shows "file_bytes h' q = file_bytes h q"
  using assms
  by (auto simp: sst_build_def dest!: call_ok_files next_io_files
      simp: file_bytes_def split: if_splits prod.splits bool.splits io_answer.splits)

lemma sst_open_files: "sst_open h p = (x, h') \<Longrightarrow> files h' = files h"
  by (auto simp: sst_open_def dest: call_ok_files split: prod.splits bool.splits option.splits)

text \<open>
  C35: a put or a removal that does not answer \<open>OK\<close> leaves what clients see as it was, whatever the
  system calls answered along the way.
\<close>

theorem failed_write_no_effect:
  assumes "engine_put e k v = (s, e') \<or> engine_remove e k = (s, e')" "s \<noteq> OK"
  shows "memtable e' = memtable e \<and> sstables e' = sstables e \<and> next_seq e' = next_seq e \<and> view e' = view e"
  using assms
  by (auto simp: engine_put_def engine_remove_def Let_def view_def layers_def
      split: if_splits prod.splits Status.splits)

text \<open>
  A flush that fails loses nothing. Whatever the system calls answered, the table in memory, the
  readers and the sequence number are as before, and the log still holds the same bytes, so the
  entries are there for the next flush and for recovery.
\<close>

theorem failed_flush_keeps_log:
  assumes "flush_memtable e = (s, e')" "s \<noteq> OK"
  shows "memtable e' = memtable e \<and> sstables e' = sstables e \<and> next_seq e' = next_seq e
    \<and> file_bytes (disk e') wal_path = file_bytes (disk e) wal_path"
proof -
  let ?p = "sstable_path (next_seq e)" and ?es = "mt_data (memtable e)"
  obtain s1 h1 where b: "sst_build (disk e) ?p ?es = (s1, h1)" by fastforce
  obtain x h2 where o: "sst_open h1 ?p = (x, h2)" by fastforce
  have "file_bytes h1 wal_path = file_bytes (disk e) wal_path"
    by (rule sst_build_other_files [OF b]) simp
  moreover have "file_bytes h2 wal_path = file_bytes h1 wal_path"
    using sst_open_files [OF o] by (simp add: file_bytes_def)
  ultimately show ?thesis
    using assms
    by (cases s1; cases x) (auto simp: flush_memtable_def dump_sorted_def Let_def b o split: if_splits)
qed

text \<open>
  When the table that compaction wrote cannot be opened again, the engine is left with no table
  on disk at all: every key that is not in the table in memory is reported as not found until the
  engine is restarted, although the put that triggered the compaction answers \<open>OK\<close>.
\<close>

theorem compaction_open_failure_hides_tables:
  assumes "script (disk e) = [Done, Done, Fail]" "COMPACTION_THRESHOLD \<le> length (sstables e)"
  shows "\<exists>e'. maybe_compact e = (IO_ERROR, e') \<and> sstables e' = []
    \<and> (\<forall>k. k \<noteq> [] \<longrightarrow> map_of (mt_data (memtable e)) k = None \<longrightarrow> engine_get e' k = (NOT_FOUND, []))"
proof -
  have "compact_result (sstables e) \<noteq> []" by (simp add: compact_result_def Let_def)
  moreover have "sstables e \<noteq> []" using assms(2) by (auto simp: COMPACTION_THRESHOLD_def)
  ultimately show ?thesis
    using assms
    by (simp add: maybe_compact_def compact_def sst_build_def sst_open_def call_ok_def next_io_def Let_def
        engine_get_def memtable_get_def set_file_def)
qed

text \<open>Engines with given tables, for the witnesses.\<close>

definition ex_fresh :: "u64 \<Rightarrow> StorageEngine" where
  "ex_fresh t = \<lparr>memtable = memtable_new t, sstables = [], next_seq = 0, disk = fresh_host\<rparr>"

theorem failed_write_no_effect_witness:
  "view (snd (engine_put ((ex_fresh 8)\<lparr>disk := \<lparr>files = [], script = [Fail]\<rparr>\<rparr>) ''k'' ''v''))
     = view ((ex_fresh 8)\<lparr>disk := \<lparr>files = [], script = [Fail]\<rparr>\<rparr>)
   \<and> fst (engine_put ((ex_fresh 8)\<lparr>disk := \<lparr>files = [], script = [Fail]\<rparr>\<rparr>) ''k'' ''v'') = IO_ERROR"
proof -
  let ?e = "(ex_fresh 8)\<lparr>disk := \<lparr>files = [], script = [Fail]\<rparr>\<rparr>"
  have "write_all \<lparr>files = [], script = [Fail]\<rparr> wal_path (encode_u32_le c) = (False, \<lparr>files = [], script = []\<rparr>)" for c
    by (subst write_all.simps) (simp add: mosaic_write_def next_io_def encode_u32_le_def)
  then have f: "fst (engine_put ?e ''k'' ''v'') = IO_ERROR"
    by (simp add: engine_put_def ex_fresh_def wal_append_def Let_def)
  then have "engine_put ?e ''k'' ''v'' = (IO_ERROR, snd (engine_put ?e ''k'' ''v''))"
    by (metis prod.collapse)
  from failed_write_no_effect [OF disjI1 [OF this]] f show ?thesis by simp
qed

theorem failed_flush_keeps_log_witness:
  "\<exists>e'. flush_memtable \<lparr>memtable = memtable_put ''k'' ''v'' (memtable_new 1), sstables = [], next_seq = 0,
      disk = \<lparr>files = [(''wal.log'', [1, 2])], script = [Fail]\<rparr>\<rparr> = (IO_ERROR, e')
    \<and> file_bytes (disk e') wal_path = [1, 2]"
proof -
  let ?e = "\<lparr>memtable = memtable_put ''k'' ''v'' (memtable_new 1), sstables = [], next_seq = 0,
      disk = \<lparr>files = [(''wal.log'', [1, 2])], script = [Fail]\<rparr>\<rparr>"
  have "fst (flush_memtable ?e) = IO_ERROR"
    by (simp add: flush_memtable_def dump_sorted_def sst_build_def call_ok_def next_io_def Let_def)
  then have f: "flush_memtable ?e = (IO_ERROR, snd (flush_memtable ?e))" by (metis prod.collapse)
  from failed_flush_keeps_log [OF f] have "file_bytes (disk (snd (flush_memtable ?e))) wal_path = [1, 2]"
    by (simp add: file_bytes_def wal_path_def)
  with f show ?thesis by blast
qed

theorem compaction_open_failure_hides_tables_witness:
  "\<exists>e'. maybe_compact ((ex_fresh 8)\<lparr>sstables := replicate 4 (ex_reader ex_table),
      disk := \<lparr>files = [], script = [Done, Done, Fail]\<rparr>\<rparr>) = (IO_ERROR, e')
    \<and> engine_get e' ''a'' = (NOT_FOUND, [])"
  using compaction_open_failure_hides_tables [of "(ex_fresh 8)\<lparr>sstables := replicate 4 (ex_reader ex_table),
      disk := \<lparr>files = [], script = [Done, Done, Fail]\<rparr>\<rparr>"]
  by (auto simp: ex_fresh_def COMPACTION_THRESHOLD_def)

section \<open>Crashes inside an operation\<close>

text \<open>
  A crash is a script: some calls are completed, perhaps one more is cut short after some bytes, and from then on no call has
  any effect. Running the operation itself on such a host gives the files that the crash leaves, because a call that fails
  changes no file; how the operation reacts to the failures does not matter. The script has to be as long as the
  calls of the operation, since a call without an answer succeeds. After the restart calls work again. What completed calls
  wrote is in the files, as it is when the process is killed.
\<close>

fun crash_script :: "io_answer list \<Rightarrow> bool" where
  "crash_script [] \<longleftrightarrow> True"
| "crash_script (a # s) \<longleftrightarrow> (if a = Done then crash_script s else list_all (\<lambda>b. b = Fail) s)"

definition files_left :: "io_answer list \<Rightarrow> (StorageEngine \<Rightarrow> Status \<times> StorageEngine) \<Rightarrow> StorageEngine \<Rightarrow> host" where
  "files_left s operation e = (disk (snd (operation (e\<lparr>disk := (disk e)\<lparr>script := s\<rparr>\<rparr>))))\<lparr>script := []\<rparr>"

text \<open>
  A table file that is cut off is found by its missing footer when the directory is read, unless the bytes it
  ends with happen to be the magic number at the place where the footer has it.
\<close>

definition looks_whole :: "byte list \<Rightarrow> bool" where
  "looks_whole bs \<longleftrightarrow> SSTABLE_FOOTER_SIZE \<le> length bs
     \<and> decode_u32_le (drop 28 (drop (length bs - SSTABLE_FOOTER_SIZE) bs)) = SSTABLE_MAGIC"

definition torn_seen :: "io_answer list \<Rightarrow> byte list \<Rightarrow> bool" where
  "torn_seen s img = list_all (\<lambda>a. case a of Short n \<Rightarrow> length img \<le> n \<or> \<not> looks_whole (take n img) | _ \<Rightarrow> True) s"

lemma not_whole_empty [simp]: "\<not> looks_whole []"
  by (simp add: looks_whole_def SSTABLE_FOOTER_SIZE_def)

text \<open>What a script that starts with given answers does to the calls of an operation.\<close>

lemma call_ok_script [simp]: "call_ok (h\<lparr>script := a # s\<rparr>) = (a \<noteq> Fail, h\<lparr>script := s\<rparr>)"
  by (simp add: call_ok_def next_io_def)

definition written :: "io_answer \<Rightarrow> byte list \<Rightarrow> byte list" where
  "written b img = (case b of Done \<Rightarrow> img | Short n \<Rightarrow> take n img | Fail \<Rightarrow> [])"

lemma set_file_script: "set_file p bs (h\<lparr>script := s\<rparr>) = (set_file p bs h)\<lparr>script := s\<rparr>"
  by (simp add: set_file_def)

lemma sst_build_script:
  assumes "es \<noteq> []"
  shows "sst_build (h\<lparr>script := a # b # s\<rparr>) p es =
    (if a = Fail then (IO_ERROR, h\<lparr>script := b # s\<rparr>) else (OK, (set_file p (written b (sst_image es)) h)\<lparr>script := s\<rparr>))"
  using assms by (auto simp: sst_build_def next_io_def written_def set_file_script split: io_answer.split)

lemma sst_open_script:
  assumes "script h = []" "map_of (files h) p = Some (sst_image es)" "sst_ok es"
  obtains r where "rd_path r = p" "reader_for es r" "sst_open h p = (Inr r, h)"
    "\<forall>a s. a \<noteq> Fail \<longrightarrow> sst_open (h\<lparr>script := a # s\<rparr>) p = (Inr r, h\<lparr>script := s\<rparr>)"
proof -
  obtain r where r: "sst_open h p = (Inr r, h)" "rd_path r = p" "reader_for es r" using sst_open_image [OF assms] by blast
  have "sst_open (h\<lparr>script := a # s\<rparr>) p = (Inr r, h\<lparr>script := s\<rparr>)" if "a \<noteq> Fail" for a s
  proof -
    have c: "call_ok (h\<lparr>script := a # s\<rparr>) = (True, h\<lparr>script := s\<rparr>)" "map_of (files (h\<lparr>script := s\<rparr>)) p = Some (sst_image es)"
      using that assms(2) by simp_all
    show ?thesis
      using r(1) unfolding sst_open_def c call_ok_quiet [OF assms(1)] assms(2) prod.case bool.case option.case
      by (simp only: prod.inject sum.inject sum.distinct simp_thms option.case prod.case split: option.split_asm prod.split_asm)
  qed
  then show ?thesis using that r by blast
qed

lemma sst_open_dead: "sst_open (h\<lparr>script := Fail # s\<rparr>) p = (Inl (''Failed to open SSTable: '' @ p), h\<lparr>script := s\<rparr>)"
  by (simp add: sst_open_def)

lemma wal_clear_script: "snd (wal_clear (h\<lparr>script := a # s\<rparr>) p) = (if a = Fail then h else set_file p [] h)\<lparr>script := s\<rparr>"
  by (simp add: wal_clear_def set_file_script)

lemma fs_remove_script: "fs_remove p (h\<lparr>script := a # s\<rparr>) = (if a = Fail then h else drop_files {p} h)\<lparr>script := s\<rparr>"
  by (simp add: fs_remove_def dir_remove_def drop_files_def)

lemma fold_fs_remove_dead:
  "list_all (\<lambda>a. a = Fail) s \<Longrightarrow> length ps \<le> length s \<Longrightarrow> fold fs_remove ps (h\<lparr>script := s\<rparr>) = h\<lparr>script := drop (length ps) s\<rparr>"
proof (induction ps arbitrary: s)
  case (Cons p ps)
  then show ?case by (cases s) (simp_all add: fs_remove_script)
qed simp

text \<open>What a flush leaves, by the answers to its four calls: creating the table, writing it, opening it and emptying the log.\<close>

lemma flush_left:
  assumes "script (disk e) = []" "mt_data (memtable e) \<noteq> []" "sst_ok (mt_data (memtable e))"
  defines "p \<equiv> sstable_path (next_seq e)" and "img \<equiv> sst_image (mt_data (memtable e))"
  assumes "a = Fail \<or> c = Fail \<or> written b img = img"
  shows "files_left (a # b # c # d # s) flush_memtable e =
    (if a = Fail then disk e
     else if c = Fail \<or> d = Fail then set_file p (written b img) (disk e)
     else set_file wal_path [] (set_file p img (disk e)))"
proof -
  have h: "script (set_file p img (disk e)) = []" "map_of (files (set_file p img (disk e))) p = Some (sst_image (mt_data (memtable e)))"
    using assms(1) by (simp_all add: img_def)
  from h assms(3) obtain r where r: "\<forall>a s. a \<noteq> Fail \<longrightarrow> sst_open ((set_file p img (disk e))\<lparr>script := a # s\<rparr>) p = (Inr r, (set_file p img (disk e))\<lparr>script := s\<rparr>)"
    by (rule sst_open_script)
  have b: "sst_build ((disk e)\<lparr>script := a # b # c # d # s\<rparr>) p (mt_data (memtable e)) =
      (if a = Fail then (IO_ERROR, (disk e)\<lparr>script := b # c # d # s\<rparr>) else (OK, (set_file p (written b img) (disk e))\<lparr>script := c # d # s\<rparr>))"
    unfolding img_def by (rule sst_build_script [OF assms(2)])
  show ?thesis
  proof (cases "a = Fail \<or> c = Fail")
    case True
    then show ?thesis using assms(1,2) b
      by (auto simp: files_left_def flush_memtable_def dump_sorted_def Let_def p_def [symmetric] sst_open_dead)
  next
    case False
    then have w: "written b img = img" using assms(6) by simp
    show ?thesis using assms(1,2) b r False unfolding w
      by (simp add: files_left_def flush_memtable_def dump_sorted_def Let_def p_def [symmetric] wal_clear_script)
  qed
qed

text \<open>What a compaction leaves when no input is removed, by the answers to the calls before: creating, writing and opening the new table.\<close>

lemma compact_left:
  assumes "script (disk e) = []" "COMPACTION_THRESHOLD \<le> length (sstables e)" "sst_ok (compact_result (sstables e))"
  defines "p \<equiv> sstable_path (next_seq e)" and "img \<equiv> sst_image (compact_result (sstables e))"
  assumes "a = Fail \<or> c = Fail \<or> written b img = img"
  shows "files_left (a # b # c # s) maybe_compact e =
    (if a = Fail then disk e
     else if c = Fail then set_file p (written b img) (disk e)
     else (fold fs_remove (map rd_path (sstables e)) ((set_file p img (disk e))\<lparr>script := s\<rparr>))\<lparr>script := []\<rparr>)"
proof -
  have ne: "compact_result (sstables e) \<noteq> []" "sstables e \<noteq> []"
    using assms(2) by (auto simp: compact_result_def Let_def COMPACTION_THRESHOLD_def)
  have h: "script (set_file p img (disk e)) = []" "map_of (files (set_file p img (disk e))) p = Some (sst_image (compact_result (sstables e)))"
    using assms(1) by (simp_all add: img_def)
  from h assms(3) obtain r where r: "\<forall>a s. a \<noteq> Fail \<longrightarrow> sst_open ((set_file p img (disk e))\<lparr>script := a # s\<rparr>) p = (Inr r, (set_file p img (disk e))\<lparr>script := s\<rparr>)"
    by (rule sst_open_script)
  have b: "compact ((disk e)\<lparr>script := a # b # c # s\<rparr>) (sstables e) p =
      (if a = Fail then (IO_ERROR, (disk e)\<lparr>script := b # c # s\<rparr>) else (OK, (set_file p (written b img) (disk e))\<lparr>script := c # s\<rparr>))"
    unfolding img_def compact_def using sst_build_script [OF ne(1)] ne(2) by simp
  show ?thesis
  proof (cases "a = Fail \<or> c = Fail")
    case True
    then show ?thesis using assms(1,2) b
      by (auto simp: files_left_def maybe_compact_def Let_def p_def [symmetric] sst_open_dead)
  next
    case False
    then have w: "written b img = img" using assms(6) by simp
    show ?thesis using assms(1,2) b r False unfolding w
      by (simp add: files_left_def maybe_compact_def Let_def p_def [symmetric])
  qed
qed

section \<open>Opening what a crash left\<close>

text \<open>The reader that opening a new table would give.\<close>

lemma reader_of_image:
  assumes "script (disk e) = []" "sst_ok es"
  obtains r where "rd_path r = sstable_path (next_seq e)" "reader_for es r"
proof -
  let ?p = "sstable_path (next_seq e)"
  have "script (set_file ?p (sst_image es) (disk e)) = []"
    "map_of (files (set_file ?p (sst_image es) (disk e))) ?p = Some (sst_image es)" using assms(1) by simp_all
  from sst_open_image [OF this assms(2)] show ?thesis using that by blast
qed

lemma live_repeat: "live (m # m # ms) = live (m # ms)"
  by (auto simp: live_def fun_eq_iff split: option.splits)

text \<open>Opening the files with one more table in front of the others.\<close>

lemma open_with_table:
  assumes core: "engine_core e" and rm: "room m (Suc (Suc s)) e" and es: "sst_ok es" "length es \<le> m"
    and small: "\<forall>x \<in> set es. small_entry x"
  shows "\<exists>e'. engine_open (set_file (sstable_path (next_seq e)) (sst_image es) (disk e)) t = (Inr e', disk e')
    \<and> view e' = live (mt_data (memtable e) # es # map read_all_entries (sstables e))"
proof -
  have "script (disk e) = []" using core by (simp add: engine_core_def log_ok_quiet)
  then obtain r where r: "rd_path r = sstable_path (next_seq e)" "reader_for es r"
    using reader_of_image es(1) by blast
  have core': "engine_core (add_table es r e)"
    by (rule engine_core_add_table [OF core rm r(2,1) small])
  have "room 0 (Suc s) (add_table es r e)"
    using rm es(2) next_seq_step [OF rm]
    by (simp add: room_def total_entries_def layers_add_table [OF r(2)]) (simp add: layers_def add_table_def)
  from engine_open_ok [OF core' this, of t] show ?thesis
    by (auto simp: view_def layers_add_table [OF r(2)]) (simp add: add_table_def)
qed

lemma live_insert_compacted:
  assumes "\<And>k. map_of new k = map_option Some (live old k)"
  shows "live (m # new # old) = live (m # old)"
  using assms by (auto simp: live_def fun_eq_iff split: option.splits)

lemma numbered_distinct:
  assumes "numbered (r # ssts) nxt" "q \<in> set ssts"
  shows "rd_path q \<noteq> rd_path r"
proof -
  obtain seqs where s: "map rd_path (r # ssts) = map sstable_path seqs" "sorted_wrt (>) seqs"
    using assms(1) unfolding numbered_def by blast
  then obtain a as where as: "seqs = a # as" "rd_path r = sstable_path a" "map rd_path ssts = map sstable_path as"
    by (cases seqs) auto
  have "rd_path q \<in> set (map sstable_path as)" using assms(2) as(3) by (metis image_eqI set_map)
  with s(2) as show ?thesis by auto
qed

text \<open>A table that is cut off is removed when the directory is read, and the rest is opened as if it had not been there.\<close>

lemma find_sstables_append:
  "find_sstables (xs @ ys) acc h = (case find_sstables xs acc h of (tables, h1) \<Rightarrow> find_sstables ys tables h1)"
  by (induction xs acc h rule: find_sstables.induct) (auto split: option.split prod.split bool.split)

lemma dir_put_fresh: "p \<notin> fst ` set fs \<Longrightarrow> dir_put p bs fs = fs @ [(p, bs)]"
  by (induction fs) auto

lemma table_name_fresh:
  assumes "engine_core e"
  shows "sstable_path (next_seq e) \<notin> fst ` set (files (disk e))"
  using assms numbered_fresh(1) [of "sstables e" "next_seq e"] by (force simp: engine_core_def dir_ok_def)

lemma load_with_torn:
  assumes core: "engine_core e" and torn: "\<not> looks_whole bs"
  shows "load_sstables (set_file (sstable_path (next_seq e)) bs (disk e)) = load_sstables (disk e)"
proof -
  let ?p = "sstable_path (next_seq e)" and ?h = "disk e"
  let ?h' = "set_file ?p bs ?h" and ?F = "List.map_filter (\<lambda>n. map_option (\<lambda>s. (s, n)) (sst_seq n)) (map fst (files ?h))"
  have quiet: "script ?h = []" "script ?h' = []" using core by (simp_all add: engine_core_def log_ok_quiet)
  have files: "files ?h' = files ?h @ [(?p, bs)]" using dir_put_fresh [OF table_name_fresh [OF core]] by simp
  have "map_of (files ?h') name = map_of (files ?h) name" if "name \<in> set (map fst (files ?h))" for name
  proof -
    have "name \<noteq> ?p" using that table_name_fresh [OF core] by (metis set_map)
    then show ?thesis by simp
  qed
  then have "\<forall>name \<in> set (map fst (files ?h)). sst_seq name \<noteq> None \<longrightarrow> (\<exists>es. sst_ok es \<and> map_of (files ?h') name = Some (sst_image es))"
    using core_tables [OF core] by simp
  then have f: "find_sstables (map fst (files ?h)) [] ?h' = (?F, ?h')" "find_sstables (map fst (files ?h)) [] ?h = (?F, ?h)"
    using find_sstables_quiet [OF quiet(2)] find_sstables_quiet [OF quiet(1) core_tables [OF core]] by simp_all
  have "sst_validate ?h' ?p = (False, ?h')"
    using torn quiet(2) by (auto simp: sst_validate_def looks_whole_def io_simps)
  moreover have "fs_remove ?p ?h' = ?h"
  proof -
    have "filter (\<lambda>f. fst f \<noteq> ?p) (files ?h) = files ?h" using table_name_fresh [OF core] by (force simp: filter_id_conv)
    then show ?thesis
      using quiet dir_put_fresh [OF table_name_fresh [OF core]] by (simp add: fs_remove_quiet drop_files_def set_file_def)
  qed
  ultimately have "find_sstables (map fst (files ?h')) [] ?h' = (?F, ?h)"
    unfolding files map_append find_sstables_append f by simp
  then show ?thesis using f(2) by (simp add: load_sstables_def)
qed

lemma engine_open_torn:
  assumes "engine_core e" "\<not> looks_whole bs"
  shows "engine_open (set_file (sstable_path (next_seq e)) bs (disk e)) t = engine_open (disk e) t"
proof -
  have "script (disk e) = []" using assms(1) by (simp add: engine_core_def log_ok_quiet)
  then show ?thesis using load_with_torn [OF assms] by (simp add: engine_open_def io_simps)
qed

text \<open>Whatever the write of the table left of it, the files open with the whole table in front of the others or without it.\<close>

lemma written_cases:
  assumes "torn_seen s img" "b \<in> set s"
  shows "written b img = img \<or> \<not> looks_whole (written b img)"
  using assms by (cases b) (auto simp: written_def torn_seen_def list_all_iff)

lemma open_written:
  assumes core: "engine_core e" and rm: "room m (Suc (Suc s)) e" and es: "sst_ok es" "length es \<le> m"
    and small: "\<forall>x \<in> set es. small_entry x" and w: "bs = sst_image es \<or> \<not> looks_whole bs"
    and same: "live (mt_data (memtable e) # es # map read_all_entries (sstables e)) = view e"
  shows "\<exists>e'. engine_open (set_file (sstable_path (next_seq e)) bs (disk e)) t = (Inr e', disk e') \<and> view e' = view e"
proof (cases "looks_whole bs")
  case True
  then show ?thesis using w open_with_table [OF core rm es small, of t] same by auto
next
  case False
  have "room m (Suc s) e" using rm by (simp add: room_def)
  then show ?thesis using engine_open_torn [OF core False] engine_open_ok [OF core] by metis
qed

lemma files_left_same:
  assumes "script (disk e) = []" "operation (e\<lparr>disk := (disk e)\<lparr>script := s\<rparr>\<rparr>) = (st, e\<lparr>disk := (disk e)\<lparr>script := s\<rparr>\<rparr>)"
  shows "files_left s operation e = disk e"
  using assms by (simp add: files_left_def)

lemma crash_first_answers:
  assumes "crash_script (a # b # c # s)"
  shows "(b = Done \<and> a = Done) \<or> c = Fail"
  using assms by (auto split: if_splits)

section \<open>Crashes in a flush and in a compaction\<close>

text \<open>The files of a finished flush.\<close>

lemma open_flushed:
  assumes core: "engine_core e" and rm: "room m (Suc (Suc s)) e" and ne: "mt_data (memtable e) \<noteq> []"
  shows "\<exists>e'. engine_open (set_file wal_path [] (set_file (sstable_path (next_seq e)) (sst_image (mt_data (memtable e))) (disk e))) t
    = (Inr e', disk e') \<and> view e' = view e"
proof -
  let ?es = "mt_data (memtable e)"
  have quiet: "script (disk e) = []" using core by (simp add: engine_core_def log_ok_quiet)
  obtain r where r: "rd_path r = sstable_path (next_seq e)" "reader_for ?es r"
    using reader_of_image [OF quiet mem_sst_ok [OF core rm ne]] by blast
  define e1 where "e1 = clear_log (add_table ?es r e)"
  have "map read_all_entries (sstables e1) = layers e" "mt_data (memtable e1) = []"
    by (simp_all add: e1_def clear_log_def add_table_def layers_def read_all_entries_reader [OF r(2)])
  note v = view_flushed [OF this(2,1)] and lay = this
  have "\<forall>x \<in> set ?es. small_entry x" using core by (simp add: engine_core_def layers_def)
  then have "engine_core e1"
    unfolding e1_def by (intro engine_core_clear_log engine_core_add_table [OF core rm r(2,1)])
  moreover have "room m (Suc s) e1"
    using rm next_seq_step [OF rm] lay by (simp add: room_def total_entries_def layers_def [of e1]) (simp add: e1_def clear_log_def add_table_def)
  moreover have "disk e1 = set_file wal_path [] (set_file (sstable_path (next_seq e)) (sst_image ?es) (disk e))"
    by (simp add: e1_def clear_log_def add_table_def)
  ultimately show ?thesis using engine_open_ok [of e1 m s t] v by auto
qed

text \<open>
  C12: a crash anywhere in a flush loses nothing and shows nothing twice. Whichever calls of \<open>flush_memtable\<close> were still completed
  when the process died (creating the table, writing all or part of it, opening it, emptying the log), the engine opened on the
  files that are left shows the map that clients saw before. The one exception is a table cut off exactly where its data look
  like the magic number of a footer.
\<close>

theorem flush_crash_safe:
  assumes "engine_ok (Suc n) e" "length (mt_data (memtable e)) \<le> n"
    and "crash_script s" "4 \<le> length s" "torn_seen s (sst_image (mt_data (memtable e)))"
  shows "\<exists>e'. engine_open (files_left s flush_memtable e) t = (Inr e', disk e') \<and> view e' = view e"
proof -
  let ?es = "mt_data (memtable e)"
  have core: "engine_core e" and rm: "room n (Suc (Suc (2 * n))) e" "room n (Suc (2 * n)) e"
    using assms(1) by (auto simp: engine_ok_def room_def)
  have quiet: "script (disk e) = []" using core by (simp add: engine_core_def log_ok_quiet)
  note same = engine_open_ok [OF core rm(2), of t]
  show ?thesis
  proof (cases "?es = []")
    case True
    then have "files_left s flush_memtable e = disk e"
      by (intro files_left_same [OF quiet]) (simp add: flush_memtable_def dump_sorted_def)
    then show ?thesis using same by auto
  next
    case False
    obtain a b c d s' where s: "s = a # b # c # d # s'" using assms(4) by (auto simp: Suc_le_length_iff numeral_eq_Suc)
    note ok = mem_sst_ok [OF core rm(1) False]
    have first: "(b = Done \<and> a = Done) \<or> c = Fail" using crash_first_answers assms(3) unfolding s by blast
    then have w: "a = Fail \<or> c = Fail \<or> written b (sst_image ?es) = sst_image ?es" by (auto simp: written_def)
    have "\<forall>x \<in> set ?es. small_entry x" using core by (simp add: engine_core_def layers_def)
    moreover have "live (?es # ?es # map read_all_entries (sstables e)) = view e" by (simp add: view_def layers_def live_repeat)
    ultimately have table: "\<exists>e'. engine_open (set_file (sstable_path (next_seq e)) (written b (sst_image ?es)) (disk e)) t = (Inr e', disk e') \<and> view e' = view e"
      using open_written [OF core rm(1) ok assms(2)] written_cases [OF assms(5), of b] by (simp add: s)
    show ?thesis
      unfolding s flush_left [OF quiet False ok w] using same table open_flushed [OF core rm(1) False] by auto
  qed
qed

text \<open>
  C13: a crash in a compaction before the first input is removed loses nothing. Whichever of the calls of \<open>maybe_compact\<close> before
  that were still completed (creating the merged table, writing all or part of it, opening it), the engine opened on the
  files that are left shows the map that clients saw before, with the same exception as for a flush. At least one key has to be
  live in the tables; without one compaction writes a key of its own.
\<close>

theorem compaction_crash_safe:
  assumes "engine_ok (Suc n) e" "total_entries e \<le> n" "live (map read_all_entries (sstables e)) k0 = Some v0"
    and "crash_script s" "3 + length (sstables e) \<le> length s" "list_all (\<lambda>a. a = Fail) (drop 3 s)"
    and "torn_seen s (sst_image (compact_result (sstables e)))"
  shows "\<exists>e'. engine_open (files_left s maybe_compact e) t = (Inr e', disk e') \<and> view e' = view e"
proof -
  let ?es = "compact_result (sstables e)"
  have core: "engine_core e" and rm: "room n (Suc (Suc (2 * n))) e" "room n (Suc (2 * n)) e"
    using assms(1) by (auto simp: engine_ok_def room_def)
  have quiet: "script (disk e) = []" using core by (simp add: engine_core_def log_ok_quiet)
  note same = engine_open_ok [OF core rm(2), of t]
  show ?thesis
  proof (cases "length (sstables e) < COMPACTION_THRESHOLD")
    case True
    then have "files_left s maybe_compact e = disk e"
      by (intro files_left_same [OF quiet]) (simp add: maybe_compact_def)
    then show ?thesis using same by auto
  next
    case False
    then have th: "COMPACTION_THRESHOLD \<le> length (sstables e)" by simp
    have "3 \<le> length s" using assms(5) by simp
    then obtain a b c s' where s: "s = a # b # c # s'" by (auto simp: Suc_le_length_iff numeral_eq_Suc)
    have dead: "list_all (\<lambda>a. a = Fail) s'" "length (map rd_path (sstables e)) \<le> length s'"
      using assms(5,6) by (simp_all add: s numeral_3_eq_3)
    have "live (map read_all_entries (sstables e)) k0 \<noteq> None" using assms(3) by simp
    note c = compact_inputs_ok [OF core rm(1) this]
    have len: "length ?es \<le> n" using c(3) assms(2) by (simp add: total_entries_def layers_def)
    have first: "(b = Done \<and> a = Done) \<or> c = Fail" using crash_first_answers assms(4) unfolding s by blast
    then have w: "a = Fail \<or> c = Fail \<or> written b (sst_image ?es) = sst_image ?es" by (auto simp: written_def)
    have "live (mt_data (memtable e) # ?es # map read_all_entries (sstables e)) = view e"
      using live_insert_compacted [OF c(4)] by (simp add: view_def layers_def)
    note t = open_written [OF core rm(1) c(1) len c(2) _ this, of _ t]
    have table: "\<exists>e'. engine_open (set_file (sstable_path (next_seq e)) (written b (sst_image ?es)) (disk e)) t = (Inr e', disk e') \<and> view e' = view e"
      using t [of "written b (sst_image ?es)"] written_cases [OF assms(7), of b] by (simp add: s)
    have "script (set_file (sstable_path (next_seq e)) (sst_image ?es) (disk e)) = []" using quiet by simp
    then have "files_left s maybe_compact e = (if a = Fail then disk e else set_file (sstable_path (next_seq e)) (written b (sst_image ?es)) (disk e))"
      unfolding s compact_left [OF quiet th c(1) w] fold_fs_remove_dead [OF dead] using w by auto
    then show ?thesis using same table by auto
  qed
qed

text \<open>
  C23: compaction removes its inputs newest first, and a crash after the first removal can bring deleted keys back. When
  \<open>maybe_compact\<close> has written and opened the merged table and removed one input, and the process dies there, then for a key that the
  newest input deletes and an older input still has a value for, a client that saw no value before the crash sees the
  old value after the restart.
\<close>

theorem crash_mid_removal_resurrects:
  assumes "engine_ok (Suc n) e" "total_entries e \<le> n" "COMPACTION_THRESHOLD \<le> length (sstables e)"
    and "sstables e = newest # olds" "live (map read_all_entries (sstables e)) k0 = Some v0"
    and "map_of (mt_data (memtable e)) k = None" "map_of (read_all_entries newest) k = Some None"
    and "live (map read_all_entries olds) k = Some v" "length olds \<le> m"
  shows "view e k = None \<and> (\<exists>e'. engine_open (files_left (Done # Done # Done # Done # replicate m Fail) maybe_compact e) t
      = (Inr e', disk e') \<and> view e' k = Some v)"
proof -
  let ?es = "compact_result (sstables e)"
  have core: "engine_core e" and rm: "room n (Suc (Suc (2 * n))) e"
    using assms(1) by (auto simp: engine_ok_def room_def)
  have quiet: "script (disk e) = []" using core by (simp add: engine_core_def log_ok_quiet)
  have "live (map read_all_entries (sstables e)) k0 \<noteq> None" using assms(5) by simp
  note c = compact_inputs_ok [OF core rm this]
  obtain r where r: "rd_path r = sstable_path (next_seq e)" "reader_for ?es r"
    using reader_of_image [OF quiet c(1)] by blast
  define e1 where "e1 = drop_tables {rd_path newest} (add_table ?es r e)"
  have num: "numbered (newest # olds) (next_seq e)" using core assms(4) by (simp add: engine_core_def)
  have "filter (\<lambda>q. rd_path q \<noteq> rd_path newest) olds = olds"
    using numbered_distinct [OF num] by (simp add: filter_id_conv)
  moreover have "rd_path newest \<noteq> sstable_path (next_seq e)" "rd_path newest \<noteq> wal_path"
    using numbered_fresh [OF num] by simp_all
  ultimately have ssts: "sstables e1 = r # olds" and wal: "wal_path \<notin> {rd_path newest}"
    using assms(4) r(1) by (auto simp: e1_def drop_tables_def add_table_def)
  have d: "disk e1 = files_left (Done # Done # Done # Done # replicate m Fail) maybe_compact e"
  proof -
    let ?h = "set_file (sstable_path (next_seq e)) (sst_image ?es) (disk e)"
    have "fold fs_remove (map rd_path olds) ((drop_files {rd_path newest} ?h)\<lparr>script := replicate m Fail\<rparr>)
        = (drop_files {rd_path newest} ?h)\<lparr>script := drop (length olds) (replicate m Fail)\<rparr>"
      using fold_fs_remove_dead [of "replicate m Fail" "map rd_path olds"] assms(9) by (simp add: list_all_iff)
    then have "files_left (Done # Done # Done # Done # replicate m Fail) maybe_compact e = drop_files {rd_path newest} ?h"
      using quiet by (subst compact_left [OF quiet assms(3) c(1)]) (simp_all add: written_def assms(4) fs_remove_script, simp add: drop_files_def)
    then show ?thesis using quiet by (simp add: e1_def drop_tables_def add_table_def)
  qed
  have lay: "layers e1 = mt_data (memtable e) # ?es # map read_all_entries olds"
    by (simp add: layers_def ssts read_all_entries_reader [OF r(2)]) (simp add: e1_def drop_tables_def add_table_def)
  have "engine_core e1"
    unfolding e1_def by (rule engine_core_drop_tables [OF engine_core_add_table [OF core rm r(2,1) c(2)] wal])
  moreover have "room 0 (Suc (2 * n)) e1"
    using rm c(3) assms(2,4) next_seq_step [OF rm]
    by (simp add: room_def total_entries_def lay) (simp add: layers_def e1_def drop_tables_def add_table_def)
  ultimately obtain e' where "engine_open (disk e1) t = (Inr e', disk e')" "view e' = view e1"
    using engine_open_ok by blast
  moreover have "live (map read_all_entries (sstables e)) k = None" using assms(4,7) by (simp add: live_def)
  then have "map_of ?es k = None" "view e k = None"
    using c(4) [of k] assms(4,6,7) by (simp_all add: view_def layers_def live_def)
  moreover have "view e1 k = Some v"
    using assms(6,8) \<open>map_of ?es k = None\<close> by (simp add: view_def lay live_def)
  ultimately show ?thesis by (auto simp: d [symmetric])
qed

section \<open>Instances\<close>

text \<open>
  An engine with four tables, as many as a compaction needs: the newest deletes the key \<open>a\<close> that the others hold.
\<close>

lemma engine_ok_fresh: "engine_ok 1000 (ex_fresh t)"
proof -
  have "log_ok (ex_fresh t)"
    by (auto simp: log_ok_def ex_fresh_def fresh_host_def wal_holds_def file_bytes_def intro!: exI [of _ "[]"])
  then show ?thesis
    by (auto simp: engine_ok_def engine_core_def numbered_def dir_ok_def layers_def ex_fresh_def fresh_host_def
        room_def total_entries_def)
qed

definition ex_newer :: "(string \<times> string option) list" where
  "ex_newer = [(''a'', None), (''d'', Some ''4'')]"

definition ex_run :: "u64 \<Rightarrow> (string \<times> string option) list \<Rightarrow> SSTableReader" where
  "ex_run seq es = (ex_reader es)\<lparr>rd_path := sstable_path seq\<rparr>"

definition ex_add :: "(string \<times> string option) list \<Rightarrow> StorageEngine \<Rightarrow> StorageEngine" where
  "ex_add es e = add_table es (ex_run (next_seq e) es) e"

definition ex_engine :: StorageEngine where
  "ex_engine = ex_add ex_newer (ex_add ex_table (ex_add ex_table (ex_add ex_table (ex_fresh 8))))"

lemma ex_run_for: "sst_ok es \<Longrightarrow> reader_for es (ex_run seq es)"
  by (simp add: reader_for_def ex_run_def ex_reader_def)

lemma ex_newer_ok: "sst_ok ex_newer"
  by (simp add: sst_ok_def ex_newer_def smap_wf_def entry_ok_def entry_size_def entry_bytes_def)

lemma ex_small: "\<forall>x \<in> set ex_table. small_entry x" "\<forall>x \<in> set ex_newer. small_entry x"
  by (auto simp: ex_table_def ex_newer_def small_entry_def)

lemma ex_engine_tables:
  "sstables ex_engine = [ex_run 3 ex_newer, ex_run 2 ex_table, ex_run 1 ex_table, ex_run 0 ex_table]" "mt_data (memtable ex_engine) = []"
  "next_seq ex_engine = 4"
  "read_all_entries (ex_run seq ex_newer) = ex_newer" "read_all_entries (ex_run seq ex_table) = ex_table"
  using read_all_entries_reader [OF ex_run_for [OF ex_newer_ok]] read_all_entries_reader [OF ex_run_for [OF ex_table_ok]]
  by (simp_all add: ex_engine_def ex_add_def add_table_def ex_fresh_def)

lemma ex_add_ok:
  assumes "engine_core e" "room m (Suc s) e" "sst_ok es" "\<forall>x \<in> set es. small_entry x" "length es \<le> m"
  shows "engine_core (ex_add es e) \<and> room (m - length es) s (ex_add es e)"
proof -
  have "engine_core (ex_add es e)"
    unfolding ex_add_def by (rule engine_core_add_table [OF assms(1,2) ex_run_for [OF assms(3)] _ assms(4)]) (simp add: ex_run_def)
  moreover have "room (m - length es) s (ex_add es e)"
    using assms(2,5) next_seq_step [OF assms(2)] layers_add_table [OF ex_run_for [OF assms(3)], of "next_seq e" e]
    by (simp add: ex_add_def room_def total_entries_def) (simp add: add_table_def layers_def)
  ultimately show ?thesis by blast
qed

lemma ex_engine_ok: "engine_ok 100 ex_engine" "total_entries ex_engine = 11"
proof -
  have t: "length ex_table = 3" "length ex_newer = 2" by (simp_all add: ex_table_def ex_newer_def)
  have f: "engine_core (ex_fresh 8)" "room 1000 (Suc 1999) (ex_fresh 8)"
    using engine_ok_fresh [of 8] by (simp_all add: engine_ok_def room_def)
  define e1 where "e1 = ex_add ex_table (ex_fresh 8)" define e2 where "e2 = ex_add ex_table e1" define e3 where "e3 = ex_add ex_table e2"
  have "engine_core e1 \<and> room 997 (Suc 1998) e1" using ex_add_ok [OF f ex_table_ok ex_small(1)] by (simp add: e1_def t)
  then have "engine_core e2 \<and> room 994 (Suc 1997) e2" using ex_add_ok [OF _ _ ex_table_ok ex_small(1), of e1 997 1998] by (simp add: e2_def t)
  then have "engine_core e3 \<and> room 991 (Suc 1996) e3" using ex_add_ok [OF _ _ ex_table_ok ex_small(1), of e2 994 1997] by (simp add: e3_def t)
  then have "engine_core ex_engine \<and> room 989 1996 ex_engine"
    using ex_add_ok [OF _ _ ex_newer_ok ex_small(2), of e3 991 1996] by (simp add: ex_engine_def e3_def e2_def e1_def t)
  then show "engine_ok 100 ex_engine" by (simp add: engine_ok_def room_def)
  show "total_entries ex_engine = 11" by (simp add: total_entries_def layers_def ex_engine_tables t)
qed

lemma ex_engine_live:
  "live (map read_all_entries (sstables ex_engine)) ''d'' = Some ''4''" "view ex_engine ''d'' = Some ''4''"
  "map_of (read_all_entries (ex_run 3 ex_newer)) ''a'' = Some None"
  "live (map read_all_entries [ex_run 2 ex_table, ex_run 1 ex_table, ex_run 0 ex_table]) ''a'' = Some ''1''"
  unfolding live_def view_def layers_def
  by (simp_all add: ex_engine_tables) (simp_all add: ex_newer_def ex_table_def ex_run_def)

text \<open>The process dies in the middle of the write of the table.\<close>

theorem flush_crash_safe_witness:
  "\<exists>e'. engine_open (files_left [Done, Short 5, Fail, Fail] flush_memtable (logged (ex_fresh 8) ''k'' (Some ''v''))) 8 = (Inr e', disk e')
     \<and> view e' ''k'' = Some ''v''"
proof -
  let ?e = "logged (ex_fresh 8) ''k'' (Some ''v'')"
  have "engine_core ?e"
    using engine_ok_fresh [of 8] by (intro engine_core_logged) (simp_all add: engine_ok_def small_entry_def)
  moreover have "room (Suc 1) (2 * Suc 1) ?e"
    using engine_ok_fresh [of 8] by (intro room_logged) (simp add: engine_ok_def room_def)
  ultimately have "engine_ok (Suc 1) ?e" unfolding engine_ok_def by blast
  moreover have "mt_data (memtable ?e) = [(''k'', Some ''v'')]" by (simp add: ex_fresh_def)
  moreover have "\<not> looks_whole (take 5 bs)" for bs by (simp add: looks_whole_def SSTABLE_FOOTER_SIZE_def)
  moreover have "view ?e ''k'' = Some ''v''" by (simp add: view_logged)
  ultimately show ?thesis using flush_crash_safe [of 1 ?e "[Done, Short 5, Fail, Fail]" 8] by (auto simp: torn_seen_def)
qed

theorem compaction_crash_safe_witness:
  "\<exists>e'. engine_open (files_left (replicate 3 Done @ replicate 4 Fail) maybe_compact ex_engine) 8 = (Inr e', disk e')
    \<and> view e' = view ex_engine \<and> view ex_engine ''d'' = Some ''4''"
  using compaction_crash_safe [of 99 ex_engine "''d''" "''4''" "replicate 3 Done @ replicate 4 Fail" 8] ex_engine_ok
    ex_engine_live(1,2) by (simp add: torn_seen_def numeral_eq_Suc ex_engine_tables(1))

theorem crash_mid_removal_resurrects_witness:
  "view ex_engine ''a'' = None \<and> (\<exists>e'. engine_open (files_left (Done # Done # Done # Done # replicate 3 Fail) maybe_compact ex_engine) 8
      = (Inr e', disk e') \<and> view e' ''a'' = Some ''1'')"
  by (rule crash_mid_removal_resurrects [of 99 ex_engine "ex_run 3 ex_newer" "[ex_run 2 ex_table, ex_run 1 ex_table, ex_run 0 ex_table]" "''d''" "''4''"])
    (use ex_engine_ok ex_engine_live ex_engine_tables in \<open>simp_all add: COMPACTION_THRESHOLD_def\<close>)

end
