(* ===== verification/Values.thy ===== *)
theory Values
  imports Decimal
begin

text \<open>
  \<open>include/mosaicdb/types.h\<close>: column types and SQL values. An \<open>int64_t\<close> is a 64-bit word read with
  \<open>sint\<close>; a \<open>double\<close> is the word of its IEEE 754 bits, with the comparisons and the printing with two
  decimals defined on the bits.
\<close>

section \<open>Column types\<close>

text \<open>
  \<open>enum class ColumnType : uint8_t\<close> has a fixed underlying type, so a cast of any byte is a value of
  the type; a byte that is none of the four enumerators is \<open>CtOther\<close>.
\<close>

datatype ColumnType = CtINT | CtFLOAT | CtTEXT | CtBOOL | CtOther byte

definition byte_of_ColumnType :: "ColumnType \<Rightarrow> byte" where
  "byte_of_ColumnType t =
     (case t of CtINT \<Rightarrow> 0x01 | CtFLOAT \<Rightarrow> 0x02 | CtTEXT \<Rightarrow> 0x03 | CtBOOL \<Rightarrow> 0x04 | CtOther b \<Rightarrow> b)"

definition ColumnType_of_byte :: "byte \<Rightarrow> ColumnType" where
  "ColumnType_of_byte b =
     (if b = 0x01 then CtINT else if b = 0x02 then CtFLOAT else if b = 0x03 then CtTEXT
      else if b = 0x04 then CtBOOL else CtOther b)"

fun column_type_to_string :: "ColumnType \<Rightarrow> string" where
  "column_type_to_string CtINT = ''INT''"
| "column_type_to_string CtFLOAT = ''FLOAT''"
| "column_type_to_string CtTEXT = ''TEXT''"
| "column_type_to_string CtBOOL = ''BOOL''"
| "column_type_to_string (CtOther b) = ''UNKNOWN''"

definition string_to_column_type :: "string \<Rightarrow> string + ColumnType" where
  "string_to_column_type s =
     (if s = ''INT'' \<or> s = ''INTEGER'' then Inr CtINT
      else if s = ''FLOAT'' \<or> s = ''DOUBLE'' \<or> s = ''REAL'' then Inr CtFLOAT
      else if s = ''TEXT'' \<or> s = ''STRING'' \<or> s = ''VARCHAR'' then Inr CtTEXT
      else if s = ''BOOL'' \<or> s = ''BOOLEAN'' then Inr CtBOOL
      else Inl (''Unknown column type: '' @ s))"

definition known_type :: "ColumnType \<Rightarrow> bool" where
  "known_type t \<longleftrightarrow> t = CtINT \<or> t = CtFLOAT \<or> t = CtTEXT \<or> t = CtBOOL"

lemma ColumnType_of_byte_of [simp]:
  "known_type t \<Longrightarrow> ColumnType_of_byte (byte_of_ColumnType t) = t"
  by (auto simp: known_type_def ColumnType_of_byte_def byte_of_ColumnType_def)

lemma string_to_column_type_print: "known_type t \<Longrightarrow> string_to_column_type (column_type_to_string t) = Inr t"
  by (auto simp: known_type_def string_to_column_type_def)

section \<open>Doubles as bits\<close>

definition f64_sign :: "u64 \<Rightarrow> bool" where
  "f64_sign b \<longleftrightarrow> bit b 63"

definition f64_exponent :: "u64 \<Rightarrow> nat" where
  "f64_exponent b = unat (take_bit 11 (drop_bit 52 b))"

definition f64_mantissa :: "u64 \<Rightarrow> nat" where
  "f64_mantissa b = unat (take_bit 52 b)"

definition f64_nan :: "u64 \<Rightarrow> bool" where
  "f64_nan b \<longleftrightarrow> f64_exponent b = 2047 \<and> f64_mantissa b \<noteq> 0"

text \<open>
  The bits below the sign order the magnitudes, so a signed magnitude orders all doubles that are
  numbers, with both zeros at 0.
\<close>

definition f64_rank :: "u64 \<Rightarrow> int" where
  "f64_rank b = (let m = int (unat (take_bit 63 b)) in if f64_sign b then - m else m)"

definition f64_eq :: "u64 \<Rightarrow> u64 \<Rightarrow> bool" where
  "f64_eq a b \<longleftrightarrow> \<not> f64_nan a \<and> \<not> f64_nan b \<and> f64_rank a = f64_rank b"

definition f64_lt :: "u64 \<Rightarrow> u64 \<Rightarrow> bool" where
  "f64_lt a b \<longleftrightarrow> \<not> f64_nan a \<and> \<not> f64_nan b \<and> f64_rank a < f64_rank b"

text \<open>\<open>std::fixed << std::setprecision(2)\<close>: the exact value, rounded half to even to hundredths.\<close>

definition div_half_even :: "nat \<Rightarrow> nat \<Rightarrow> nat" where
  "div_half_even n d =
     (let q = n div d; r = n mod d in if d < 2 * r \<or> (2 * r = d \<and> odd q) then q + 1 else q)"

definition f64_hundredths :: "u64 \<Rightarrow> nat" where
  "f64_hundredths b =
     (let e = f64_exponent b;
          m = (if e = 0 then f64_mantissa b else 2 ^ 52 + f64_mantissa b);
          x = max e 1
      in if x \<ge> 1075 then 100 * m * 2 ^ (x - 1075) else div_half_even (100 * m) (2 ^ (1075 - x)))"

definition f64_to_fixed2 :: "u64 \<Rightarrow> string" where
  "f64_to_fixed2 b =
     (if f64_sign b then ''-'' else []) @
     (if f64_exponent b = 2047 then (if f64_mantissa b = 0 then ''inf'' else ''nan'')
      else let n = f64_hundredths b
           in dec_digits (n div 100) @ ''.'' @ zero_pad 2 (dec_digits (n mod 100)))"

section \<open>Values\<close>

record Value =
  v_type :: ColumnType
  is_null :: bool
  int_val :: u64
  float_val :: u64
  text_val :: string
  bool_val :: bool

definition make_int :: "u64 \<Rightarrow> Value" where
  "make_int v = \<lparr>v_type = CtINT, is_null = False, int_val = v, float_val = 0, text_val = [], bool_val = False\<rparr>"

definition make_float :: "u64 \<Rightarrow> Value" where
  "make_float v = \<lparr>v_type = CtFLOAT, is_null = False, int_val = 0, float_val = v, text_val = [], bool_val = False\<rparr>"

definition make_text :: "string \<Rightarrow> Value" where
  "make_text v = \<lparr>v_type = CtTEXT, is_null = False, int_val = 0, float_val = 0, text_val = v, bool_val = False\<rparr>"

definition make_bool :: "bool \<Rightarrow> Value" where
  "make_bool v = \<lparr>v_type = CtBOOL, is_null = False, int_val = 0, float_val = 0, text_val = [], bool_val = v\<rparr>"

definition make_null :: "ColumnType \<Rightarrow> Value" where
  "make_null t = \<lparr>v_type = t, is_null = True, int_val = 0, float_val = 0, text_val = [], bool_val = False\<rparr>"

text \<open>\<open>std::to_string(int64_t)\<close>.\<close>

definition int_to_string :: "int \<Rightarrow> string" where
  "int_to_string i = (if i < 0 then ''-'' @ dec_digits (nat (- i)) else dec_digits (nat i))"

definition value_to_string :: "Value \<Rightarrow> string" where
  "value_to_string v =
     (if is_null v then ''NULL''
      else case v_type v of
        CtINT \<Rightarrow> int_to_string (sint (int_val v))
      | CtFLOAT \<Rightarrow> f64_to_fixed2 (float_val v)
      | CtTEXT \<Rightarrow> text_val v
      | CtBOOL \<Rightarrow> if bool_val v then ''TRUE'' else ''FALSE''
      | CtOther _ \<Rightarrow> ''?'')"

definition compare_eq :: "Value \<Rightarrow> Value \<Rightarrow> bool" where
  "compare_eq v other =
     (if is_null v \<or> is_null other then False
      else case v_type v of
        CtINT \<Rightarrow> int_val v = int_val other
      | CtFLOAT \<Rightarrow> f64_eq (float_val v) (float_val other)
      | CtTEXT \<Rightarrow> text_val v = text_val other
      | CtBOOL \<Rightarrow> bool_val v = bool_val other
      | CtOther _ \<Rightarrow> False)"

definition compare_lt :: "Value \<Rightarrow> Value \<Rightarrow> bool" where
  "compare_lt v other =
     (if is_null v \<or> is_null other then False
      else case v_type v of
        CtINT \<Rightarrow> sint (int_val v) < sint (int_val other)
      | CtFLOAT \<Rightarrow> f64_lt (float_val v) (float_val other)
      | CtTEXT \<Rightarrow> text_val v < text_val other
      | CtBOOL \<Rightarrow> False
      | CtOther _ \<Rightarrow> False)"

definition compare_gt :: "Value \<Rightarrow> Value \<Rightarrow> bool" where
  "compare_gt v other =
     (if is_null v \<or> is_null other then False
      else case v_type v of
        CtINT \<Rightarrow> sint (int_val v) > sint (int_val other)
      | CtFLOAT \<Rightarrow> f64_lt (float_val other) (float_val v)
      | CtTEXT \<Rightarrow> text_val v > text_val other
      | CtBOOL \<Rightarrow> False
      | CtOther _ \<Rightarrow> False)"

lemmas value_makers = make_int_def make_float_def make_text_def make_bool_def make_null_def
lemmas compare_defs = compare_eq_def compare_lt_def compare_gt_def f64_eq_def f64_lt_def

lemma sint_eq_iff [simp]: "sint a = sint b \<longleftrightarrow> a = b" for a b :: u64
  by (rule word_eq_iff_signed [symmetric])

section \<open>Properties of the comparisons\<close>

text \<open>Values that the comparisons order: not null, and no NaN.\<close>

definition comparable :: "Value \<Rightarrow> bool" where
  "comparable v \<longleftrightarrow> \<not> is_null v \<and> known_type (v_type v) \<and> (v_type v = CtFLOAT \<longrightarrow> \<not> f64_nan (float_val v))"

text \<open>
  On non-null values of one column type, NaN apart, the three comparisons are a strict order with
  its equality: greater-than is less-than with the sides exchanged, less-than is transitive, at most
  one of the three holds, and for types other than \<open>BOOL\<close> exactly one does.
\<close>

theorem compare_total_order:
  assumes "comparable a" "comparable b" "comparable c" "v_type a = v_type b" "v_type b = v_type c"
  shows "compare_gt a b = compare_lt b a
    \<and> (compare_lt a b \<and> compare_lt b c \<longrightarrow> compare_lt a c)
    \<and> (compare_eq a b = compare_eq b a)
    \<and> \<not> (compare_lt a b \<and> compare_gt a b) \<and> \<not> (compare_eq a b \<and> (compare_lt a b \<or> compare_gt a b))
    \<and> (v_type a \<noteq> CtBOOL \<longrightarrow> compare_lt a b \<or> compare_eq a b \<or> compare_gt a b)"
  using assms by (auto simp: comparable_def known_type_def compare_defs)

theorem compare_total_order_witness:
  "compare_lt (make_int (-5)) (make_int 7) = compare_gt (make_int 7) (make_int (-5))
   \<and> compare_lt (make_int (-5)) (make_int 7)"
proof -
  have "comparable (make_int v)" for v by (simp add: comparable_def known_type_def value_makers)
  then have "compare_gt (make_int 7) (make_int (-5)) = compare_lt (make_int (-5)) (make_int 7)"
    using compare_total_order [of "make_int 7" "make_int (-5)" "make_int 0"] by (simp add: value_makers)
  then show ?thesis by (simp add: compare_lt_def value_makers)
qed

end
