(* ===== verification/Schema.thy ===== *)
theory Schema
  imports Values Common "HOL-Library.Monad_Syntax"
begin

text \<open>
  \<open>include/mosaicdb/schema.h\<close> and \<open>src/relational/row.cpp\<close>: table schemas and rows with their byte
  encodings. The decoders walk a pointer over the buffer without looking at its length; here a read
  that would leave the buffer, undefined in C++, is \<open>None\<close>.
\<close>

section \<open>Reading a buffer\<close>

definition rd_byte :: "byte list \<Rightarrow> (byte \<times> byte list) option" where
  "rd_byte p = (case p of [] \<Rightarrow> None | b # rest \<Rightarrow> Some (b, rest))"

definition rd_bytes :: "nat \<Rightarrow> byte list \<Rightarrow> (byte list \<times> byte list) option" where
  "rd_bytes n p = (if n \<le> length p then Some (take n p, drop n p) else None)"

definition rd_u32 :: "byte list \<Rightarrow> (u32 \<times> byte list) option" where
  "rd_u32 p = do { (bs, rest) \<leftarrow> rd_bytes 4 p; Some (decode_u32_le bs, rest) }"

definition rd_u64 :: "byte list \<Rightarrow> (u64 \<times> byte list) option" where
  "rd_u64 p = do { (bs, rest) \<leftarrow> rd_bytes 8 p; Some (decode_u64_le bs, rest) }"

definition rd_string :: "u32 \<Rightarrow> byte list \<Rightarrow> (string \<times> byte list) option" where
  "rd_string len p = do { (bs, rest) \<leftarrow> rd_bytes (unat len) p; Some (string_of bs, rest) }"

lemma rd_byte_Cons [codec_simps]: "rd_byte (b # rest) = Some (b, rest)"
  by (simp add: rd_byte_def)

lemma rd_bytes_append [codec_simps]: "length bs = n \<Longrightarrow> rd_bytes n (bs @ rest) = Some (bs, rest)"
  by (simp add: rd_bytes_def)

lemma rd_u32_append [codec_simps]: "rd_u32 (encode_u32_le v @ rest) = Some (v, rest)"
  by (simp add: rd_u32_def rd_bytes_append)

lemma rd_u64_append [codec_simps]: "rd_u64 (encode_u64_le v @ rest) = Some (v, rest)"
  by (simp add: rd_u64_def rd_bytes_append)

lemma rd_string_append [codec_simps]:
  "length s < 2 ^ 32 \<Longrightarrow> rd_string (of_nat (length s)) (bytes_of s @ rest) = Some (s, rest)"
  by (simp add: rd_string_def rd_bytes_append)

section \<open>Counted lists\<close>

text \<open>
  The formats send lists as a count and the encodings of the elements one after the other. A loop that reads back one
  element at a time reads back the list.
\<close>

locale counted_list =
  fixes read_n :: "nat \<Rightarrow> byte list \<Rightarrow> ('a list \<times> byte list) option"
    and enc :: "'a \<Rightarrow> byte list"
    and fits :: "'a \<Rightarrow> bool"
  assumes read_0: "read_n 0 p = Some ([], p)"
    and read_Suc: "fits x \<Longrightarrow> read_n (Suc n) (enc x @ p) = map_option (\<lambda>(xs, q). (x # xs, q)) (read_n n p)"
begin

lemma read_list: "list_all fits xs \<Longrightarrow> read_n (length xs) (concat (map enc xs) @ rest) = Some (xs, rest)"
  by (induction xs) (simp_all add: read_0 read_Suc)

end

section \<open>Schemas\<close>

record ColumnDef =
  col_name :: string
  col_type :: ColumnType
  not_null :: bool
  is_primary_key :: bool

record TableSchema =
  table_name :: string
  columns :: "ColumnDef list"
  primary_key :: string

definition flag_byte :: "bool \<Rightarrow> byte" where
  "flag_byte b = (if b then 1 else 0)"

fun find_column_from :: "ColumnDef list \<Rightarrow> string \<Rightarrow> int \<Rightarrow> int" where
  "find_column_from [] name i = -1"
| "find_column_from (c # cs) name i = (if col_name c = name then i else find_column_from cs name (i + 1))"

definition find_column :: "TableSchema \<Rightarrow> string \<Rightarrow> int" where
  "find_column s name = find_column_from (columns s) name 0"

definition column_bytes :: "ColumnDef \<Rightarrow> byte list" where
  "column_bytes c =
     encode_u32_le (of_nat (length (col_name c))) @ bytes_of (col_name c)
     @ [byte_of_ColumnType (col_type c), flag_byte (not_null c), flag_byte (is_primary_key c)]"

definition schema_serialize :: "TableSchema \<Rightarrow> string" where
  "schema_serialize s = string_of
     (encode_u32_le (of_nat (length (table_name s))) @ bytes_of (table_name s)
      @ encode_u32_le (of_nat (length (primary_key s))) @ bytes_of (primary_key s)
      @ encode_u32_le (of_nat (length (columns s))) @ concat (map column_bytes (columns s)))"

fun read_columns :: "nat \<Rightarrow> byte list \<Rightarrow> (ColumnDef list \<times> byte list) option" where
  "read_columns 0 p = Some ([], p)"
| "read_columns (Suc n) p = do {
     (cname_len, p1) \<leftarrow> rd_u32 p;
     (name, p2) \<leftarrow> rd_string cname_len p1;
     (ty, p3) \<leftarrow> rd_byte p2;
     (nn, p4) \<leftarrow> rd_byte p3;
     (pk, p5) \<leftarrow> rd_byte p4;
     (cs, p6) \<leftarrow> read_columns n p5;
     Some (\<lparr>col_name = name, col_type = ColumnType_of_byte ty, not_null = (nn \<noteq> 0),
            is_primary_key = (pk \<noteq> 0)\<rparr> # cs, p6) }"

definition schema_deserialize :: "string \<Rightarrow> TableSchema option" where
  "schema_deserialize data = do {
     (tname_len, p1) \<leftarrow> rd_u32 (bytes_of data);
     (tname, p2) \<leftarrow> rd_string tname_len p1;
     (pk_len, p3) \<leftarrow> rd_u32 p2;
     (pk, p4) \<leftarrow> rd_string pk_len p3;
     (col_count, p5) \<leftarrow> rd_u32 p4;
     (cols, _) \<leftarrow> read_columns (unat col_count) p5;
     Some \<lparr>table_name = tname, columns = cols, primary_key = pk\<rparr> }"

section \<open>Rows\<close>

definition value_bytes :: "Value \<Rightarrow> byte list" where
  "value_bytes v =
     [byte_of_ColumnType (v_type v), flag_byte (is_null v)] @
     (if is_null v then encode_u32_le 0
      else case v_type v of
        CtINT \<Rightarrow> encode_u32_le 8 @ encode_u64_le (int_val v)
      | CtFLOAT \<Rightarrow> encode_u32_le 8 @ encode_u64_le (float_val v)
      | CtTEXT \<Rightarrow> encode_u32_le (of_nat (length (text_val v))) @ bytes_of (text_val v)
      | CtBOOL \<Rightarrow> encode_u32_le 1 @ [flag_byte (bool_val v)]
      | CtOther _ \<Rightarrow> [])"

definition row_serialize :: "TableSchema \<Rightarrow> Value list \<Rightarrow> string" where
  "row_serialize schema values =
     string_of (encode_u32_le (of_nat (length values)) @ concat (map value_bytes values))"

fun read_values :: "nat \<Rightarrow> byte list \<Rightarrow> (Value list \<times> byte list) option" where
  "read_values 0 p = Some ([], p)"
| "read_values (Suc n) p = do {
     (ty, p1) \<leftarrow> rd_byte p;
     (nl, p2) \<leftarrow> rd_byte p1;
     (val_len, p3) \<leftarrow> rd_u32 p2;
     (vs, p4) \<leftarrow>
       (if nl \<noteq> 0 then Some ([make_null (ColumnType_of_byte ty)], p3)
        else case ColumnType_of_byte ty of
          CtINT \<Rightarrow> do { (v, q) \<leftarrow> rd_u64 p3; Some ([make_int v], q) }
        | CtFLOAT \<Rightarrow> do { (v, q) \<leftarrow> rd_u64 p3; Some ([make_float v], q) }
        | CtTEXT \<Rightarrow> do { (v, q) \<leftarrow> rd_string val_len p3; Some ([make_text v], q) }
        | CtBOOL \<Rightarrow> do { (v, q) \<leftarrow> rd_byte p3; Some ([make_bool (v \<noteq> 0)], q) }
        | CtOther _ \<Rightarrow> Some ([], p3));
     (rest, p5) \<leftarrow> read_values n p4;
     Some (vs @ rest, p5) }"

definition row_deserialize :: "TableSchema \<Rightarrow> string \<Rightarrow> Value list option" where
  "row_deserialize schema data = do {
     (col_count, p1) \<leftarrow> rd_u32 (bytes_of data);
     (values, _) \<leftarrow> read_values (unat col_count) p1;
     Some values }"

section \<open>What the encodings can carry\<close>

definition column_ok :: "ColumnDef \<Rightarrow> bool" where
  "column_ok c \<longleftrightarrow> length (col_name c) < 2 ^ 32 \<and> known_type (col_type c)"

definition schema_ok :: "TableSchema \<Rightarrow> bool" where
  "schema_ok s \<longleftrightarrow> length (table_name s) < 2 ^ 32 \<and> length (primary_key s) < 2 ^ 32
     \<and> length (columns s) < 2 ^ 32 \<and> list_all column_ok (columns s)"

text \<open>A value as the makers build it: only the field of its type is set.\<close>

definition value_ok :: "Value \<Rightarrow> bool" where
  "value_ok v \<longleftrightarrow> known_type (v_type v)
     \<and> (if is_null v then v = make_null (v_type v)
        else v = make_int (int_val v) \<or> v = make_float (float_val v)
          \<or> (v = make_text (text_val v) \<and> length (text_val v) < 2 ^ 32) \<or> v = make_bool (bool_val v))"

lemma flag_byte_nonzero [simp]: "flag_byte b \<noteq> 0 \<longleftrightarrow> b" "flag_byte b = 0 \<longleftrightarrow> \<not> b"
  by (simp_all add: flag_byte_def)

interpretation schema_columns: counted_list read_columns column_bytes column_ok
proof
  show "column_ok c \<Longrightarrow> read_columns (Suc n) (column_bytes c @ p) = map_option (\<lambda>(cs, q). (c # cs, q)) (read_columns n p)" for c n p
    by (cases "read_columns n p") (auto simp: column_bytes_def codec_simps column_ok_def)
qed simp

lemma read_value_append:
  assumes "value_ok v"
  shows "read_values (Suc n) (value_bytes v @ rest) =
    map_option (\<lambda>(vs, q). (v # vs, q)) (read_values n rest)"
proof (cases "is_null v")
  case True
  with assms have "v = make_null (v_type v)" "known_type (v_type v)" by (simp_all add: value_ok_def)
  then have ty: "ColumnType_of_byte (byte_of_ColumnType (v_type v)) = v_type v" by simp
  with \<open>v = make_null (v_type v)\<close> True show ?thesis
    by (cases "read_values n rest") (auto simp: value_bytes_def codec_simps)
next
  case False
  with assms consider (i) x where "v = make_int x" | (f) x where "v = make_float x"
    | (t) x where "v = make_text x" "length x < 2 ^ 32" | (b) x where "v = make_bool x"
    by (auto simp: value_ok_def)
  then show ?thesis
  proof cases
    case i
    then show ?thesis
      by (cases "read_values n rest") (auto simp: value_bytes_def codec_simps value_makers
          ColumnType_of_byte_def byte_of_ColumnType_def)
  next
    case f
    then show ?thesis
      by (cases "read_values n rest") (auto simp: value_bytes_def codec_simps value_makers
          ColumnType_of_byte_def byte_of_ColumnType_def)
  next
    case t
    then show ?thesis
      by (cases "read_values n rest") (auto simp: value_bytes_def codec_simps value_makers
          ColumnType_of_byte_def byte_of_ColumnType_def)
  next
    case b
    then show ?thesis
      by (cases "read_values n rest") (auto simp: value_bytes_def codec_simps value_makers
          ColumnType_of_byte_def byte_of_ColumnType_def)
  qed
qed

interpretation row_values: counted_list read_values value_bytes value_ok
  by unfold_locales (simp_all only: read_values.simps(1) read_value_append)

lemma schema_deserialize_serialize: "schema_ok s \<Longrightarrow> schema_deserialize (schema_serialize s) = Some s"
  using schema_columns.read_list [of "columns s" "[]"]
  by (simp add: schema_deserialize_def schema_serialize_def schema_ok_def codec_simps)

lemma row_deserialize_serialize:
  "list_all value_ok vs \<Longrightarrow> length vs < 2 ^ 32 \<Longrightarrow> row_deserialize schema (row_serialize schema' vs) = Some vs"
  using row_values.read_list [of vs "[]"]
  by (simp add: row_deserialize_def row_serialize_def codec_simps)

section \<open>Properties of the encodings\<close>

text \<open>
  C32: a schema survives its encoding. Reading back the bytes of a schema whose names and column count
  fit 32 bits and whose types are the four SQL types gives the same schema and stays inside the
  buffer.
\<close>

theorem schema_roundtrip:
  assumes "schema_ok s"
  shows "schema_deserialize (schema_serialize s) = Some s"
  by (rule schema_deserialize_serialize [OF assms])

text \<open>
  C31: a row survives its encoding. Reading back the bytes of a row of at most \<open>2 ^ 32 - 1\<close> values, NULLs
  and NaNs included, gives the same values and stays inside the buffer.
\<close>

theorem row_roundtrip:
  assumes "list_all value_ok vs" "length vs < 2 ^ 32"
  shows "row_deserialize schema (row_serialize schema' vs) = Some vs"
  by (rule row_deserialize_serialize [OF assms])

definition ex_schema :: TableSchema where
  "ex_schema = \<lparr>table_name = ''t'', columns =
     [\<lparr>col_name = ''id'', col_type = CtINT, not_null = True, is_primary_key = True\<rparr>,
      \<lparr>col_name = ''x'', col_type = CtTEXT, not_null = False, is_primary_key = False\<rparr>], primary_key = ''id''\<rparr>"

theorem schema_roundtrip_witness: "schema_deserialize (schema_serialize ex_schema) = Some ex_schema"
  by (rule schema_roundtrip) (simp add: ex_schema_def schema_ok_def column_ok_def known_type_def)

theorem row_roundtrip_witness:
  "row_deserialize ex_schema (row_serialize ex_schema [make_int (-3), make_null CtTEXT, make_text ''ab''])
     = Some [make_int (-3), make_null CtTEXT, make_text ''ab'']"
  by (rule row_roundtrip) (simp_all add: value_ok_def value_makers known_type_def)

end
