(* ===== verification/Catalog.thy ===== *)
theory Catalog
  imports Engine_Crash Schema "HOL-Library.Sublist" "HOL-Library.AList"
begin

text \<open>
  \<open>src/relational/catalog.cpp\<close>: the table catalog on top of the storage engine. Its state is the engine
  it writes to and the cache of schemas, an unordered map; the order of \<open>list_tables\<close> is whatever
  order the cache has.
\<close>

section \<open>Keys\<close>

definition CATALOG_PREFIX :: string where "CATALOG_PREFIX = ''__catalog:''"
definition TABLE_PREFIX :: string where "TABLE_PREFIX = ''__table:''"
definition META_PREFIX :: string where "META_PREFIX = ''__meta:''"

definition catalog_key :: "string \<Rightarrow> string" where
  "catalog_key table = CATALOG_PREFIX @ table"

definition row_key :: "string \<Rightarrow> string \<Rightarrow> string" where
  "row_key table pk = TABLE_PREFIX @ table @ '':row:'' @ pk"

definition row_key_prefix :: "string \<Rightarrow> string" where
  "row_key_prefix table = TABLE_PREFIX @ table @ '':row:''"

definition row_key_prefix_end :: "string \<Rightarrow> string" where
  "row_key_prefix_end table = TABLE_PREFIX @ table @ '':row:~''"

definition meta_key :: "string \<Rightarrow> string \<Rightarrow> string" where
  "meta_key table field = META_PREFIX @ table @ '':'' @ field"

section \<open>The catalog\<close>

record Catalog =
  cat_engine :: StorageEngine
  cache :: "(string \<times> TableSchema) list"

definition load_entry :: "string \<times> string \<Rightarrow> (string \<times> TableSchema) list \<Rightarrow> (string \<times> TableSchema) list" where
  "load_entry kv c =
     (if take (length CATALOG_PREFIX) (fst kv) = CATALOG_PREFIX
      then (case schema_deserialize (snd kv) of
              Some schema \<Rightarrow> AList.update (table_name schema) schema c
            | None \<Rightarrow> c)
      else c)"

definition load_cache :: "StorageEngine \<Rightarrow> (string \<times> TableSchema) list" where
  "load_cache e = fold load_entry (engine_scan e CATALOG_PREFIX (CATALOG_PREFIX @ ''~'')) []"

definition catalog_open :: "StorageEngine \<Rightarrow> Catalog" where
  "catalog_open e = \<lparr>cat_engine = e, cache = load_cache e\<rparr>"

definition table_exists :: "Catalog \<Rightarrow> string \<Rightarrow> bool" where
  "table_exists c table \<longleftrightarrow> map_of (cache c) table \<noteq> None"

definition create_table :: "Catalog \<Rightarrow> TableSchema \<Rightarrow> Status \<times> Catalog" where
  "create_table c schema =
     (if table_exists c (table_name schema) then (INVALID_ARGUMENT, c)
      else case engine_put (cat_engine c) (catalog_key (table_name schema)) (schema_serialize schema) of
        (OK, e1) \<Rightarrow>
          (case engine_put e1 (meta_key (table_name schema) ''next_rowid'') ''1'' of
             (OK, e2) \<Rightarrow>
               (OK, c\<lparr>cat_engine := e2, cache := AList.update (table_name schema) schema (cache c)\<rparr>)
           | (s, e2) \<Rightarrow> (s, c\<lparr>cat_engine := e2\<rparr>))
      | (s, e1) \<Rightarrow> (s, c\<lparr>cat_engine := e1\<rparr>))"

text \<open>\<open>engine_.remove(key)\<close> with its status ignored.\<close>

definition remove_ignoring :: "string \<Rightarrow> StorageEngine \<Rightarrow> StorageEngine" where
  "remove_ignoring key e = snd (engine_remove e key)"

definition drop_table :: "Catalog \<Rightarrow> string \<Rightarrow> Status \<times> Catalog" where
  "drop_table c table =
     (if \<not> table_exists c table then (NOT_FOUND, c)
      else let rows = engine_scan (cat_engine c) (row_key_prefix table) (row_key_prefix_end table);
               e1 = fold (\<lambda>row. remove_ignoring (fst row)) rows (cat_engine c);
               e2 = remove_ignoring (meta_key table ''next_rowid'') e1;
               e3 = remove_ignoring (catalog_key table) e2
           in (OK, c\<lparr>cat_engine := e3, cache := AList.delete table (cache c)\<rparr>))"

definition get_schema :: "Catalog \<Rightarrow> string \<Rightarrow> TableSchema option \<times> Catalog" where
  "get_schema c table =
     (case map_of (cache c) table of
        Some schema \<Rightarrow> (Some schema, c)
      | None \<Rightarrow>
          (case engine_get (cat_engine c) (catalog_key table) of
             (OK, val) \<Rightarrow>
               (case schema_deserialize val of
                  Some schema \<Rightarrow> (Some schema, c\<lparr>cache := AList.update table schema (cache c)\<rparr>)
                | None \<Rightarrow> (None, c))
           | _ \<Rightarrow> (None, c)))"

definition list_tables :: "Catalog \<Rightarrow> string list" where
  "list_tables c = map fst (cache c)"

definition next_row_id :: "Catalog \<Rightarrow> string \<Rightarrow> u64 \<times> Catalog" where
  "next_row_id c table =
     (let mk = meta_key table ''next_rowid'';
          id = (case engine_get (cat_engine c) mk of
                  (OK, val) \<Rightarrow> (case stoull val of Some n \<Rightarrow> n | None \<Rightarrow> 1)
                | _ \<Rightarrow> 1)
      in (id, c\<lparr>cat_engine := snd (engine_put (cat_engine c) mk (dec_digits (unat (id + 1))))\<rparr>))"

section \<open>Keys and key ranges\<close>

lemmas key_defs = catalog_key_def row_key_def row_key_prefix_def row_key_prefix_end_def meta_key_def
  CATALOG_PREFIX_def TABLE_PREFIX_def META_PREFIX_def

lemma append_le_append [simp]: "(p @ xs) \<le> (p @ ys) \<longleftrightarrow> xs \<le> ys" for p :: string
  by (induction p) (auto simp: Cons_le_Cons)

lemma append_less_append [simp]: "(p @ xs) < (p @ ys) \<longleftrightarrow> xs < ys" for p :: string
  by (induction p) auto

lemma le_append [simp]: "p \<le> p @ xs" for p :: string
  using append_le_append [of p "[]" xs] by simp

text \<open>Between a string and the string followed by one more character there are only its extensions.\<close>

lemma range_prefix:
  fixes p k :: string
  assumes "p \<le> k" "k \<le> p @ [c]"
  shows "prefix p k"
  using assms
proof (induction p arbitrary: k)
  case (Cons a p)
  then obtain b k' where k: "k = b # k'" by (cases k) auto
  with Cons.prems have "a = b" "p \<le> k'" "k' \<le> p @ [c]" by (auto simp: Cons_le_Cons)
  with Cons.IH k show ?case by simp
qed simp

lemma range_iff: "p \<le> k \<and> k \<le> p @ [c] \<longleftrightarrow> (\<exists>xs. k = p @ xs \<and> xs \<le> [c])" for p k :: string
  using range_prefix [of p k c] by (auto simp: prefix_def)

text \<open>The keys of the three kinds, and of tables whose names have no colon, are apart.\<close>

lemma split_at_colon:
  assumes "CHR '':'' \<notin> set a" "CHR '':'' \<notin> set b" "a @ CHR '':'' # x = b @ CHR '':'' # y"
  shows "a = b \<and> x = y"
  using assms
proof (induction a arbitrary: b)
  case Nil
  then show ?case by (cases b) auto
next
  case (Cons c a)
  then show ?case by (cases b) auto
qed

lemma key_kinds [simp]:
  "catalog_key t \<noteq> row_key u p" "catalog_key t \<noteq> meta_key u f" "meta_key u f \<noteq> row_key t p"
  "row_key u p \<noteq> catalog_key t" "meta_key u f \<noteq> catalog_key t" "row_key t p \<noteq> meta_key u f"
  by (simp_all add: key_defs)

lemma keys_ne [simp]: "catalog_key t \<noteq> []" "row_key t p \<noteq> []" "meta_key t f \<noteq> []"
  by (simp_all add: key_defs)

lemma catalog_key_inj [simp]: "catalog_key t = catalog_key u \<longleftrightarrow> t = u"
  by (simp add: key_defs)

lemma row_range: "row_key_prefix t \<le> k \<and> k \<le> row_key_prefix_end t \<longleftrightarrow> (\<exists>pk. k = row_key t pk \<and> pk \<le> ''~'')"
  using range_iff [of "row_key_prefix t" k "CHR ''~''"] by (simp add: key_defs)

context kv_store
begin

lemma remove_all:
  assumes "kv_ok (length ks + n) s" "\<forall>k \<in> set ks. k \<noteq> [] \<and> kv_fits (k, None)"
  shows "kv_ok n (fold (\<lambda>k s. snd (kv_remove s k)) ks s)
    \<and> kv_view (fold (\<lambda>k s. snd (kv_remove s k)) ks s) = (\<lambda>k. if k \<in> set ks then None else kv_view s k)"
  using assms
proof (induction ks arbitrary: s)
  case (Cons k ks)
  then obtain s1 where s1: "kv_remove s k = (OK, s1)" "kv_ok (length ks + n) s1" "kv_view s1 = (kv_view s)(k := None)"
    using remove_law [of "length ks + n" s k] by auto
  with Cons show ?case by (auto simp: fun_eq_iff)
qed simp

end

section \<open>The invariant of the catalog\<close>

text \<open>
  The cache and the store agree: the catalog entries of the store are exactly the encodings of the
  cached schemas, each under its own name.
\<close>

definition catalog_ok :: "nat \<Rightarrow> Catalog \<Rightarrow> bool" where
  "catalog_ok n c \<longleftrightarrow> engine_ok n (cat_engine c) \<and> distinct (map fst (cache c))
     \<and> (\<forall>t. view (cat_engine c) (catalog_key t) = map_option schema_serialize (map_of (cache c) t))
     \<and> (\<forall>t s. map_of (cache c) t = Some s \<longrightarrow> table_name s = t \<and> schema_ok s)"

definition table_fits :: "TableSchema \<Rightarrow> bool" where
  "table_fits s \<longleftrightarrow> schema_ok s \<and> small_entry (catalog_key (table_name s), Some (schema_serialize s))
     \<and> small_entry (meta_key (table_name s) ''next_rowid'', Some ''1'')"

lemma map_of_alist_update [simp]: "map_of (AList.update k v m) = (map_of m)(k \<mapsto> v)"
  by (rule AList.update_conv')

lemma map_of_alist_delete [simp]: "map_of (AList.delete k m) = (map_of m)(k := None)"
  by (rule AList.delete_conv')

lemma layered_SomeD: "layered ms k = Some x \<Longrightarrow> \<exists>m \<in> set ms. map_of m k = Some x"
  by (induction ms) (auto split: option.splits)

lemma view_small:
  assumes "engine_ok n e" "view e k = Some v"
  shows "small_entry (k, None)"
proof -
  have "layered (layers e) k = Some (Some v)"
    using assms(2) by (auto simp: view_def live_def split: option.splits)
  then have "\<exists>m \<in> set (layers e). map_of m k = Some (Some v)"
    by (rule layered_SomeD)
  then obtain m where m: "m \<in> set (layers e)" "(k, Some v) \<in> set m" by (auto dest: map_of_SomeD)
  then have "small_entry (k, Some v)" using assms(1) by (auto simp: engine_ok_def engine_core_def)
  then show ?thesis by (simp add: small_entry_def)
qed

lemma create_table_ok:
  assumes ok: "catalog_ok (Suc (Suc n)) c" and fits: "table_fits s" and new: "\<not> table_exists c (table_name s)"
  shows "\<exists>c'. create_table c s = (OK, c') \<and> catalog_ok n c' \<and> map_of (cache c') = (map_of (cache c))(table_name s \<mapsto> s)
    \<and> view (cat_engine c') = (view (cat_engine c))(catalog_key (table_name s) \<mapsto> schema_serialize s,
        meta_key (table_name s) ''next_rowid'' \<mapsto> ''1'')"
proof -
  let ?t = "table_name s"
  obtain e1 where e1: "engine_put (cat_engine c) (catalog_key ?t) (schema_serialize s) = (OK, e1)"
    "engine_ok (Suc n) e1" "view e1 = (view (cat_engine c))(catalog_key ?t \<mapsto> schema_serialize s)"
    using engine_kv.put_law [of "Suc n" "cat_engine c" "catalog_key ?t" "schema_serialize s"] ok fits
    by (auto simp: catalog_ok_def table_fits_def)
  obtain e2 where e2: "engine_put e1 (meta_key ?t ''next_rowid'') ''1'' = (OK, e2)"
    "engine_ok n e2" "view e2 = (view e1)(meta_key ?t ''next_rowid'' \<mapsto> ''1'')"
    using engine_kv.put_law [OF e1(2), of "meta_key ?t ''next_rowid''" "''1''"] fits
    by (auto simp: table_fits_def)
  let ?c = "c\<lparr>cat_engine := e2, cache := AList.update ?t s (cache c)\<rparr>"
  have "create_table c s = (OK, ?c)" using new by (simp add: create_table_def e1(1) e2(1))
  moreover have "catalog_ok n ?c"
    using ok e1(3) e2(2,3) fits by (auto simp: catalog_ok_def table_fits_def AList.distinct_update)
  ultimately show ?thesis using e1(3) e2(3) by simp
qed

lemma load_entry_known:
  assumes "schema_ok s" "table_name s = t"
  shows "load_entry (catalog_key t, schema_serialize s) c = AList.update t s c"
  using assms schema_deserialize_serialize by (simp add: load_entry_def catalog_key_def)

lemma fold_load_entry:
  assumes "\<forall>x \<in> set xs. \<exists>t s. x = (catalog_key t, schema_serialize s) \<and> schema_ok s \<and> table_name s = t"
    and "distinct (map fst xs)"
  shows "map_of (fold load_entry xs c) t =
    (case map_of xs (catalog_key t) of Some v \<Rightarrow> schema_deserialize v | None \<Rightarrow> map_of c t)"
  using assms
proof (induction xs arbitrary: c)
  case (Cons x xs)
  then obtain u s where x: "x = (catalog_key u, schema_serialize s)" "schema_ok s" "table_name s = u" by auto
  have "map_of xs (catalog_key u) = None"
    using Cons.prems(2) x by (simp add: map_of_eq_None_iff)
  with Cons x show ?case
    by (auto simp: load_entry_known schema_deserialize_serialize split: option.splits)
qed simp

lemma catalog_scan:
  assumes "engine_ok n e"
  shows "map_of (engine_scan e CATALOG_PREFIX (CATALOG_PREFIX @ ''~'')) (catalog_key t)
      = (if t \<le> ''~'' then view e (catalog_key t) else None)"
    and "x \<in> set (engine_scan e CATALOG_PREFIX (CATALOG_PREFIX @ ''~'')) \<Longrightarrow>
      \<exists>t. fst x = catalog_key t \<and> view e (catalog_key t) = Some (snd x)"
proof -
  let ?xs = "engine_scan e CATALOG_PREFIX (CATALOG_PREFIX @ ''~'')"
  note sc = engine_kv.scan_law [OF assms, of CATALOG_PREFIX "CATALOG_PREFIX @ ''~''"]
  show "map_of ?xs (catalog_key t) = (if t \<le> ''~'' then view e (catalog_key t) else None)"
    by (simp add: sc) (simp add: catalog_key_def)
  assume "x \<in> set ?xs"
  then have "map_of ?xs (fst x) = Some (snd x)"
    using engine_kv.scan_sorted [OF assms] by (simp add: smap_wf_distinct)
  then have "CATALOG_PREFIX \<le> fst x \<and> fst x \<le> CATALOG_PREFIX @ ''~''" "view e (fst x) = Some (snd x)"
    by (auto simp: sc split: if_splits)
  then show "\<exists>t. fst x = catalog_key t \<and> view e (catalog_key t) = Some (snd x)"
    using range_iff [of CATALOG_PREFIX "fst x" "CHR ''~''"] by (auto simp: catalog_key_def)
qed

lemma catalog_reload:
  assumes "catalog_ok n c"
  shows "map_of (cache (catalog_open (cat_engine c))) t = (if t \<le> ''~'' then map_of (cache c) t else None)"
proof -
  let ?e = "cat_engine c" let ?xs = "engine_scan ?e CATALOG_PREFIX (CATALOG_PREFIX @ ''~'')"
  have ok: "engine_ok n ?e" and agree: "\<And>t. view ?e (catalog_key t) = map_option schema_serialize (map_of (cache c) t)"
    and names: "\<And>t s. map_of (cache c) t = Some s \<Longrightarrow> table_name s = t \<and> schema_ok s"
    using assms unfolding catalog_ok_def by blast+
  have "\<exists>t s. x = (catalog_key t, schema_serialize s) \<and> schema_ok s \<and> table_name s = t" if x: "x \<in> set ?xs" for x
  proof -
    obtain t where "fst x = catalog_key t" "view ?e (catalog_key t) = Some (snd x)" using catalog_scan(2) [OF ok x] by blast
    moreover from this(2) agree [of t] obtain s where "map_of (cache c) t = Some s" "snd x = schema_serialize s"
      by (cases "map_of (cache c) t") simp_all
    ultimately show ?thesis using names [of t s] by (cases x) auto
  qed
  moreover have "distinct (map fst ?xs)" using engine_kv.scan_sorted [OF ok] by (rule smap_wf_distinct)
  ultimately have "map_of (fold load_entry ?xs []) t =
      (case map_of ?xs (catalog_key t) of Some v \<Rightarrow> schema_deserialize v | None \<Rightarrow> map_of [] t)"
    by (intro fold_load_entry) blast+
  then have "map_of (cache (catalog_open ?e)) t = (if t \<le> ''~'' then
      case map_option schema_serialize (map_of (cache c) t) of Some v \<Rightarrow> schema_deserialize v | None \<Rightarrow> None else None)"
    unfolding catalog_open_def load_cache_def Catalog.simps catalog_scan(1) [OF ok] agree map_of.simps
    by simp
  then show ?thesis
    using names [of t] by (cases "map_of (cache c) t") (simp_all add: schema_deserialize_serialize)
qed

text \<open>The keys that dropping a table removes.\<close>

definition dropped_keys :: "string \<Rightarrow> string set" where
  "dropped_keys t = {row_key t pk |pk. pk \<le> ''~''} \<union> {meta_key t ''next_rowid'', catalog_key t}"

lemma rows_scan:
  assumes "engine_ok n e"
  shows "fst ` set (engine_scan e (row_key_prefix t) (row_key_prefix_end t))
    = {k. (\<exists>pk. k = row_key t pk \<and> pk \<le> ''~'') \<and> view e k \<noteq> None}"
proof -
  let ?xs = "engine_scan e (row_key_prefix t) (row_key_prefix_end t)"
  have "k \<in> fst ` set ?xs \<longleftrightarrow> map_of ?xs k \<noteq> None" for k by (simp add: map_of_eq_None_iff)
  then show ?thesis
    using row_range [of t] by (auto simp: engine_kv.scan_law [OF assms] set_eq_iff split: if_splits)
qed

lemma drop_table_ok:
  assumes ok: "catalog_ok (length (engine_scan (cat_engine c) (row_key_prefix t) (row_key_prefix_end t)) + (2 + n)) c"
    and ex: "table_exists c t" and fits: "small_entry (meta_key t ''next_rowid'', None)"
  shows "\<exists>c'. drop_table c t = (OK, c') \<and> catalog_ok n c' \<and> map_of (cache c') = (map_of (cache c))(t := None)
    \<and> view (cat_engine c') = (\<lambda>k. if k \<in> dropped_keys t then None else view (cat_engine c) k)"
proof -
  let ?e = "cat_engine c"
  define rows where "rows = engine_scan ?e (row_key_prefix t) (row_key_prefix_end t)"
  define ks where "ks = map fst rows @ [meta_key t ''next_rowid'', catalog_key t]"
  have ok': "engine_ok (length ks + n) ?e" using ok by (simp add: catalog_ok_def ks_def rows_def)
  have keys: "fst ` set rows = {k. (\<exists>pk. k = row_key t pk \<and> pk \<le> ''~'') \<and> view ?e k \<noteq> None}"
    using rows_scan [OF ok'] by (simp add: rows_def)
  have cat: "view ?e (catalog_key t) \<noteq> None"
    using ok ex by (auto simp: catalog_ok_def table_exists_def)
  have "\<forall>k \<in> set ks. k \<noteq> [] \<and> small_entry (k, None)"
    using keys cat fits view_small [OF ok'] by (auto simp: ks_def)
  note rem = engine_kv.remove_all [OF ok' this]
  define e' where "e' = fold (\<lambda>k e. snd (engine_remove e k)) ks ?e"
  define c' where "c' = c\<lparr>cat_engine := e', cache := AList.delete t (cache c)\<rparr>"
  have d: "drop_table c t = (OK, c')"
    using ex by (simp add: drop_table_def c'_def e'_def ks_def rows_def remove_ignoring_def [abs_def] fold_map comp_def)
  have v: "view e' = (\<lambda>k. if k \<in> dropped_keys t then None else view ?e k)"
    using rem keys by (auto simp: e'_def ks_def dropped_keys_def fun_eq_iff)
  have "catalog_key u \<in> dropped_keys t \<longleftrightarrow> u = t" for u by (auto simp: dropped_keys_def)
  then have "catalog_ok n c'"
    using ok rem v by (auto simp: catalog_ok_def c'_def e'_def AList.distinct_delete)
  with d v show ?thesis by (simp add: c'_def)
qed

section \<open>Row identifiers\<close>

lemma next_row_id_ok:
  assumes "engine_ok (Suc n) (cat_engine c)" "small_entry (meta_key t ''next_rowid'', Some ''18446744073709551615'')"
    and "view (cat_engine c) (meta_key t ''next_rowid'') = Some (dec_digits (unat i))"
  shows "\<exists>c'. next_row_id c t = (i, c') \<and> engine_ok n (cat_engine c') \<and> cache c' = cache c
    \<and> view (cat_engine c') = (view (cat_engine c))(meta_key t ''next_rowid'' \<mapsto> dec_digits (unat (i + 1)))"
proof -
  let ?mk = "meta_key t ''next_rowid''" and ?v = "dec_digits (unat (i + 1))"
  have "stoull (dec_digits (unat i)) = Some i" using stoull_digits [of "dec_digits (unat i)"] by simp
  moreover have "engine_get (cat_engine c) ?mk = (OK, dec_digits (unat i))"
    using engine_kv.get_law [OF assms(1), of ?mk] assms(3) by simp
  moreover have "length ?v \<le> Suc 19" by (rule length_dec_digits) (rule less_trans [OF unat_u64_less], simp)
  then have "small_entry (?mk, Some ?v)" using assms(2) by (simp add: small_entry_def)
  then obtain e1 where "engine_put (cat_engine c) ?mk ?v = (OK, e1)" "engine_ok n e1"
    "view e1 = (view (cat_engine c))(?mk \<mapsto> ?v)"
    using engine_kv.put_law [OF assms(1), of ?mk ?v] by auto
  ultimately show ?thesis by (simp add: next_row_id_def Let_def)
qed

fun take_row_ids :: "nat \<Rightarrow> Catalog \<Rightarrow> string \<Rightarrow> u64 list \<times> Catalog" where
  "take_row_ids 0 c t = ([], c)"
| "take_row_ids (Suc m) c t =
     (case next_row_id c t of (i, c1) \<Rightarrow> (case take_row_ids m c1 t of (is, c2) \<Rightarrow> (i # is, c2)))"

section \<open>Properties of the catalog\<close>

text \<open>
  C28: creating a table succeeds, keeps the cache and the store in agreement and makes exactly that
  schema visible; a catalog opened afresh on the store then knows every table of the old one whose
  name is not above \<open>~\<close>, with the same schema.
\<close>

theorem catalog_create_persists:
  assumes "catalog_ok (Suc (Suc n)) c" "table_fits s" "\<not> table_exists c (table_name s)"
  shows "\<exists>c'. create_table c s = (OK, c') \<and> catalog_ok n c'
    \<and> map_of (cache c') = (map_of (cache c))(table_name s \<mapsto> s)
    \<and> (\<forall>t. t \<le> ''~'' \<longrightarrow> map_of (cache (catalog_open (cat_engine c'))) t = map_of (cache c') t)"
  using create_table_ok [OF assms] catalog_reload by (metis (no_types, lifting))

text \<open>
  C29: dropping a table removes its schema, its row counter and its rows with keys up to \<open>~\<close>, and
  nothing else: every other entry of the store, rows of other tables included, is as before, and the
  cache and the store agree again.
\<close>

theorem catalog_drop_exact:
  assumes "catalog_ok (length (engine_scan (cat_engine c) (row_key_prefix t) (row_key_prefix_end t)) + (2 + n)) c"
    and "table_exists c t" "small_entry (meta_key t ''next_rowid'', None)"
  shows "\<exists>c'. drop_table c t = (OK, c') \<and> catalog_ok n c' \<and> \<not> table_exists c' t
    \<and> (\<forall>k. view (cat_engine c') k =
        (if k = catalog_key t \<or> k = meta_key t ''next_rowid'' \<or> (\<exists>pk. k = row_key t pk \<and> pk \<le> ''~'') then None
         else view (cat_engine c) k))"
  using drop_table_ok [OF assms] by (auto simp: table_exists_def dropped_keys_def)

text \<open>
  C33: rows of tables with colon-free names never share a key, and the key range that a scan of one
  table covers holds no row of another table.
\<close>

theorem row_keys_separate:
  assumes "CHR '':'' \<notin> set t" "CHR '':'' \<notin> set u"
  shows "(row_key t p = row_key u q \<longleftrightarrow> t = u \<and> p = q)
    \<and> (row_key_prefix t \<le> row_key u q \<and> row_key u q \<le> row_key_prefix_end t \<longleftrightarrow> u = t \<and> q \<le> ''~'')"
proof -
  have inj: "row_key t p = row_key u q \<longleftrightarrow> t = u \<and> p = q" for p q
    using split_at_colon [OF assms, of "''row:'' @ p" "''row:'' @ q"] by (auto simp: row_key_def)
  have "row_key_prefix t \<le> row_key u q \<and> row_key u q \<le> row_key_prefix_end t \<longleftrightarrow> (\<exists>p. row_key t p = row_key u q \<and> p \<le> ''~'')"
    unfolding row_range by metis
  also have "\<dots> \<longleftrightarrow> u = t \<and> q \<le> ''~''" unfolding inj by blast
  finally show ?thesis using inj by blast
qed

text \<open>
  A row whose key is above \<open>~\<close> (it starts with \<open>~\<close> and goes on, or with a byte above it, as any
  non-ASCII text does) lies outside the range that scans and \<open>drop_table\<close> use: it is still in the
  store after its table was dropped.
\<close>

theorem high_rows_survive_drop:
  assumes "catalog_ok (length (engine_scan (cat_engine c) (row_key_prefix t) (row_key_prefix_end t)) + (2 + n)) c"
    and "table_exists c t" "small_entry (meta_key t ''next_rowid'', None)"
    and "''~'' < pk" "view (cat_engine c) (row_key t pk) = Some v"
  shows "map_of (engine_scan (cat_engine c) (row_key_prefix t) (row_key_prefix_end t)) (row_key t pk) = None
    \<and> view (cat_engine (snd (drop_table c t))) (row_key t pk) = Some v"
proof -
  have "row_key t pk \<notin> dropped_keys t" using assms(4) by (auto simp: dropped_keys_def) (auto simp: row_key_def)
  moreover have "\<not> (row_key_prefix t \<le> row_key t pk \<and> row_key t pk \<le> row_key_prefix_end t)"
    using assms(4) row_range [of t "row_key t pk"] by (auto simp: row_key_def)
  moreover have "engine_ok (length (engine_scan (cat_engine c) (row_key_prefix t) (row_key_prefix_end t)) + (2 + n)) (cat_engine c)"
    using assms(1) by (simp add: catalog_ok_def)
  note engine_kv.scan_law [OF this, of "row_key_prefix t" "row_key_prefix_end t" "row_key t pk"]
  ultimately show ?thesis using drop_table_ok [OF assms(1-3)] assms(5) by auto
qed

text \<open>
  The row counter never hands out an identifier twice in a row: successive calls return
  consecutive numbers (modulo \<open>2 ^ 64\<close>) from the stored one on.
\<close>

theorem row_ids_consecutive:
  assumes "engine_ok m (cat_engine c)" "small_entry (meta_key t ''next_rowid'', Some ''18446744073709551615'')"
    and "view (cat_engine c) (meta_key t ''next_rowid'') = Some (dec_digits (unat i))"
  shows "fst (take_row_ids m c t) = map (\<lambda>j. i + of_nat j) [0..<m]"
  using assms
proof (induction m arbitrary: c i)
  case (Suc m)
  obtain c1 where c1: "next_row_id c t = (i, c1)" "engine_ok m (cat_engine c1)"
    "view (cat_engine c1) = (view (cat_engine c))(meta_key t ''next_rowid'' \<mapsto> dec_digits (unat (i + 1)))"
    using next_row_id_ok [OF Suc.prems] by blast
  have "map (\<lambda>j. i + of_nat j) [0..<Suc m] = i # map (\<lambda>j. (i + 1) + of_nat j) [0..<m]"
    by (simp add: upt_conv_Cons map_Suc_upt [symmetric] del: upt_Suc)
  with Suc.IH [OF c1(2) Suc.prems(2), of "i + 1"] c1 show ?case
    by (cases "take_row_ids m c1 t") simp
qed simp

text \<open>
  The witnesses create the table of \<open>ex_schema\<close> in an empty store.
\<close>

definition ex_catalog :: Catalog where
  "ex_catalog = \<lparr>cat_engine = ex_fresh 8, cache = []\<rparr>"

lemma engine_ok_mono: "engine_ok n e \<Longrightarrow> m \<le> n \<Longrightarrow> engine_ok m e"
  by (auto simp: engine_ok_def room_def)

lemma catalog_ok_mono: "catalog_ok n c \<Longrightarrow> m \<le> n \<Longrightarrow> catalog_ok m c"
  by (auto simp: catalog_ok_def intro: engine_ok_mono)

lemma ex_catalog_ok: "catalog_ok 1000 ex_catalog" "table_fits ex_schema" "\<not> table_exists ex_catalog ''t''"
proof -
  have "view (ex_fresh 8) k = None" for k by (simp add: view_def layers_def live_def ex_fresh_def)
  then show "catalog_ok 1000 ex_catalog" using engine_ok_fresh [of 8] by (simp add: catalog_ok_def ex_catalog_def)
  show "table_fits ex_schema"
    by (simp add: table_fits_def ex_schema_def schema_ok_def column_ok_def known_type_def small_entry_def key_defs
        schema_serialize_def column_bytes_def)
  show "\<not> table_exists ex_catalog ''t''" by (simp add: table_exists_def ex_catalog_def)
qed

lemma ex_schema_name: "table_name ex_schema = ''t''"
  by (simp add: ex_schema_def)

lemma ex_created:
  obtains c where "catalog_ok 900 c" "table_exists c ''t''" "view (cat_engine c) (meta_key ''t'' ''next_rowid'') = Some ''1''"
    "\<And>pk. view (cat_engine c) (row_key ''t'' pk) = None"
proof -
  have "catalog_ok (Suc (Suc 900)) ex_catalog" by (rule catalog_ok_mono [OF ex_catalog_ok(1)]) simp
  moreover have "\<not> table_exists ex_catalog (table_name ex_schema)" using ex_catalog_ok(3) by (simp add: ex_schema_def)
  ultimately obtain c where c: "catalog_ok 900 c" "map_of (cache c) = (map_of (cache ex_catalog))(''t'' \<mapsto> ex_schema)"
    "view (cat_engine c) = (view (cat_engine ex_catalog))(catalog_key ''t'' \<mapsto> schema_serialize ex_schema,
        meta_key ''t'' ''next_rowid'' \<mapsto> ''1'')"
    using create_table_ok [OF _ ex_catalog_ok(2), of 900 ex_catalog, unfolded ex_schema_name] by (auto simp: ex_schema_name)
  show ?thesis
    by (rule that [of c]) (use c in \<open>auto simp: table_exists_def ex_catalog_def view_def layers_def live_def ex_fresh_def\<close>)
qed

lemma rows_scan_Nil:
  assumes "engine_ok n e" "\<And>pk. view e (row_key t pk) = None"
  shows "engine_scan e (row_key_prefix t) (row_key_prefix_end t) = []"
proof -
  have "fst ` set (engine_scan e (row_key_prefix t) (row_key_prefix_end t)) = {}"
    unfolding rows_scan [OF assms(1)] using assms(2) by auto
  then show ?thesis by simp
qed

theorem catalog_create_persists_witness:
  "\<exists>c'. create_table ex_catalog ex_schema = (OK, c')
    \<and> map_of (cache (catalog_open (cat_engine c'))) ''t'' = Some ex_schema"
proof -
  have "catalog_ok (Suc (Suc 900)) ex_catalog" by (rule catalog_ok_mono [OF ex_catalog_ok(1)]) simp
  moreover have "\<not> table_exists ex_catalog (table_name ex_schema)" using ex_catalog_ok(3) by (simp add: ex_schema_def)
  ultimately obtain c' where "create_table ex_catalog ex_schema = (OK, c')"
    "map_of (cache c') = (map_of (cache ex_catalog))(table_name ex_schema \<mapsto> ex_schema)"
    "\<forall>t. t \<le> ''~'' \<longrightarrow> map_of (cache (catalog_open (cat_engine c'))) t = map_of (cache c') t"
    using catalog_create_persists [OF _ ex_catalog_ok(2), of 900 ex_catalog] by blast
  then show ?thesis by (intro exI [of _ c']) (simp add: ex_schema_def)
qed

theorem catalog_drop_exact_witness:
  "\<exists>c c'. table_exists c ''t'' \<and> drop_table c ''t'' = (OK, c') \<and> \<not> table_exists c' ''t''
    \<and> view (cat_engine c') (catalog_key ''t'') = None"
proof -
  obtain c where c: "catalog_ok 900 c" "table_exists c ''t''" "\<And>pk. view (cat_engine c) (row_key ''t'' pk) = None"
    using ex_created by metis
  have "engine_scan (cat_engine c) (row_key_prefix ''t'') (row_key_prefix_end ''t'') = []"
    using c(1) by (intro rows_scan_Nil [OF _ c(3)]) (auto simp: catalog_ok_def)
  then have "catalog_ok (length (engine_scan (cat_engine c) (row_key_prefix ''t'') (row_key_prefix_end ''t'')) + (2 + 898)) c"
    using c(1) by simp
  from catalog_drop_exact [OF this c(2)] show ?thesis
    using c(2) by (fastforce simp: small_entry_def meta_key_def META_PREFIX_def)
qed

theorem row_keys_separate_witness: "row_key ''ab'' ''1'' \<noteq> row_key ''a'' ''b1''"
  using row_keys_separate [of "''ab''" "''a''" "''1''" "''b1''"] by simp

theorem high_rows_survive_drop_witness:
  "\<exists>c. table_exists c ''t'' \<and> fst (drop_table c ''t'') = OK
    \<and> view (cat_engine (snd (drop_table c ''t''))) (row_key ''t'' ''~~'') = Some ''x''"
proof -
  obtain c where c: "catalog_ok 900 c" "table_exists c ''t''" "\<And>pk. view (cat_engine c) (row_key ''t'' pk) = None"
    using ex_created by metis
  have "catalog_ok (Suc 899) c" using c(1) by simp
  obtain e where e: "engine_ok 899 e" "view e = (view (cat_engine c))(row_key ''t'' ''~~'' \<mapsto> ''x'')"
    using engine_kv.put_law [of 899 "cat_engine c" "row_key ''t'' ''~~''" "''x''"] \<open>catalog_ok (Suc 899) c\<close>
    by (auto simp: catalog_ok_def small_entry_def row_key_def TABLE_PREFIX_def)
  define c1 where "c1 = c\<lparr>cat_engine := e\<rparr>"
  have "catalog_ok 899 c1" "table_exists c1 ''t''"
    using c(1,2) e by (auto simp: catalog_ok_def c1_def table_exists_def)
  moreover have "fst ` set (engine_scan e (row_key_prefix ''t'') (row_key_prefix_end ''t'')) = {}"
    unfolding rows_scan [OF e(1)] using c(3) by (auto simp: e(2) row_key_def)
  then have nil: "engine_scan e (row_key_prefix ''t'') (row_key_prefix_end ''t'') = []" by simp
  ultimately have h: "catalog_ok (length (engine_scan (cat_engine c1) (row_key_prefix ''t'') (row_key_prefix_end ''t'')) + (2 + 897)) c1"
    "table_exists c1 ''t''" by (simp_all add: c1_def)
  have sm: "small_entry (meta_key ''t'' ''next_rowid'', None)" by (simp add: small_entry_def meta_key_def META_PREFIX_def)
  have "view (cat_engine c1) (row_key ''t'' ''~~'') = Some ''x''" by (simp add: c1_def e(2))
  from high_rows_survive_drop [OF h sm _ this] have
    "view (cat_engine (snd (drop_table c1 ''t''))) (row_key ''t'' ''~~'') = Some ''x''" by simp
  moreover have "fst (drop_table c1 ''t'') = OK" using h(2) by (simp add: drop_table_def Let_def)
  ultimately show ?thesis using h(2) by blast
qed

theorem row_ids_consecutive_witness:
  "\<exists>c. table_exists c ''t'' \<and> fst (take_row_ids 3 c ''t'') = [1, 2, 3]"
proof -
  obtain c where c: "catalog_ok 900 c" "table_exists c ''t''"
    "view (cat_engine c) (meta_key ''t'' ''next_rowid'') = Some ''1''" using ex_created by metis
  have "engine_ok 3 (cat_engine c)" using c(1) by (auto simp: catalog_ok_def intro: engine_ok_mono)
  moreover have "view (cat_engine c) (meta_key ''t'' ''next_rowid'') = Some (dec_digits (unat (1 :: u64)))"
    using c(3) dec_digits_one by simp
  moreover have "small_entry (meta_key ''t'' ''next_rowid'', Some ''18446744073709551615'')"
    by (simp add: small_entry_def meta_key_def META_PREFIX_def)
  ultimately have "fst (take_row_ids 3 c ''t'') = map (\<lambda>j. 1 + of_nat j) [0..<3]"
    by (intro row_ids_consecutive)
  then show ?thesis using c(2) by (auto simp: upt_rec)
qed

end
