(* ===== verification/Query.thy ===== *)
theory Query
  imports Decimal
begin

text \<open>
  \<open>src/query/query.cpp\<close>: the parser of the key-value commands. A string stream is the text that is left;
  \<open>>>\<close> skips white space and takes a word, and at the end of the text leaves its target empty.
\<close>

datatype CommandType = CmdPUT | CmdGET | CmdDELETE | CmdSCAN | CmdUNKNOWN

record Command =
  cmd_type :: CommandType
  cmd_key :: string
  cmd_value :: string
  cmd_end_key :: string

definition toupper :: "char \<Rightarrow> char" where
  "toupper c = (if 97 \<le> (of_char c :: nat) \<and> (of_char c :: nat) \<le> 122 then char_of (of_char c - 32 :: nat) else c)"

definition read_word :: "string \<Rightarrow> string \<times> string" where
  "read_word s =
     (let t = dropWhile is_space s
      in (takeWhile (\<lambda>c. \<not> is_space c) t, dropWhile (\<lambda>c. \<not> is_space c) t))"

definition getline :: "string \<Rightarrow> string" where
  "getline s = takeWhile (\<lambda>c. c \<noteq> CHR 0x0A) s"

definition query_parse :: "string \<Rightarrow> Command" where
  "query_parse input =
     (let cmd = \<lparr>cmd_type = CmdUNKNOWN, cmd_key = [], cmd_value = [], cmd_end_key = []\<rparr>;
          (word, s1) = read_word input;
          op = map toupper word
      in if op = ''PUT'' then
           (let (key, s2) = read_word s1;
                val = getline s2;
                val = (if val \<noteq> [] \<and> val ! 0 = CHR '' '' then drop 1 val else val)
            in cmd\<lparr>cmd_type := CmdPUT, cmd_key := key, cmd_value := val\<rparr>)
         else if op = ''GET'' then cmd\<lparr>cmd_type := CmdGET, cmd_key := fst (read_word s1)\<rparr>
         else if op = ''DELETE'' then cmd\<lparr>cmd_type := CmdDELETE, cmd_key := fst (read_word s1)\<rparr>
         else if op = ''SCAN'' then
           (let (key, s2) = read_word s1
            in cmd\<lparr>cmd_type := CmdSCAN, cmd_key := key, cmd_end_key := fst (read_word s2)\<rparr>)
         else cmd)"

section \<open>Reading words\<close>

definition plain_word :: "string \<Rightarrow> bool" where
  "plain_word w \<longleftrightarrow> w \<noteq> [] \<and> list_all (\<lambda>c. \<not> is_space c) w"

lemma is_space_blank [simp]: "is_space (CHR '' '')"
  by (simp add: is_space_def)

lemma read_word_word:
  assumes "plain_word w" "rest = [] \<or> is_space (hd rest)"
  shows "read_word (w @ rest) = (w, rest)"
proof -
  have n: "\<not> is_space c" if "c \<in> set w" for c using assms(1) that by (simp add: plain_word_def list_all_iff)
  obtain a v where w: "w = a # v" using assms(1) by (cases w) (auto simp: plain_word_def)
  have "dropWhile is_space (w @ rest) = w @ rest" using n by (simp add: w)
  moreover have "takeWhile (\<lambda>c. \<not> is_space c) rest = [] \<and> dropWhile (\<lambda>c. \<not> is_space c) rest = rest"
    using assms(2) by (cases rest) auto
  ultimately show ?thesis
    using n by (simp add: read_word_def takeWhile_append dropWhile_append)
qed

lemma read_word_blank [simp]: "read_word (CHR '' '' # s) = read_word s"
  by (simp add: read_word_def)

section \<open>Properties of the parser\<close>

text \<open>The command lines a client sends, with the command word in any case.\<close>

fun print_command :: "string \<Rightarrow> Command \<Rightarrow> string" where
  "print_command op cmd = op @ '' '' @ cmd_key cmd @
     (if cmd_type cmd = CmdPUT then '' '' @ cmd_value cmd
      else if cmd_type cmd = CmdSCAN then '' '' @ cmd_end_key cmd else [])"

definition command_ok :: "Command \<Rightarrow> bool" where
  "command_ok cmd \<longleftrightarrow> plain_word (cmd_key cmd) \<and>
     (case cmd_type cmd of
        CmdPUT \<Rightarrow> CHR 0x0A \<notin> set (cmd_value cmd) \<and> cmd_end_key cmd = []
      | CmdSCAN \<Rightarrow> plain_word (cmd_end_key cmd) \<and> cmd_value cmd = []
      | CmdUNKNOWN \<Rightarrow> False
      | _ \<Rightarrow> cmd_value cmd = [] \<and> cmd_end_key cmd = [])"

definition command_word :: "CommandType \<Rightarrow> string" where
  "command_word t = (case t of CmdPUT \<Rightarrow> ''PUT'' | CmdGET \<Rightarrow> ''GET'' | CmdDELETE \<Rightarrow> ''DELETE'' | CmdSCAN \<Rightarrow> ''SCAN''
     | CmdUNKNOWN \<Rightarrow> [])"

lemma toupper_space: "is_space c \<Longrightarrow> toupper c = c"
  by (auto simp: toupper_def is_space_def)

lemma upper_plain:
  assumes "map toupper op = command_word t" "t \<noteq> CmdUNKNOWN"
  shows "plain_word op"
proof -
  have "\<not> is_space c" if "c \<in> set op" for c
  proof
    assume "is_space c"
    then have "c \<in> set (map toupper op)" using that toupper_space [of c] by force
    with assms \<open>is_space c\<close> show False by (cases t) (auto simp: command_word_def is_space_def)
  qed
  moreover have "op \<noteq> []" using assms by (cases t) (auto simp: command_word_def)
  ultimately show ?thesis by (simp add: plain_word_def list_all_iff)
qed

text \<open>
  C30: every command reads back from its text: for a key without white space and a value without line
  breaks, whatever the case of the command word and whatever blanks the value starts or ends with,
  parsing the command line gives the command.
\<close>

theorem query_roundtrip:
  assumes "command_ok cmd" "map toupper op = command_word (cmd_type cmd)"
  shows "query_parse (print_command op cmd) = cmd"
proof -
  have key: "plain_word (cmd_key cmd)" and t: "cmd_type cmd \<noteq> CmdUNKNOWN"
    using assms(1) by (auto simp: command_ok_def)
  note op = read_word_word [OF upper_plain [OF assms(2) t], of "CHR '' '' # x" for x]
  note k = read_word_word [OF key]
  have gl: "getline v = v" if "CHR 0x0A \<notin> set v" for v
    using that by (auto simp: getline_def takeWhile_eq_all_conv)
  show ?thesis
    using assms t k [of "[]"] gl [of "CHR '' '' # cmd_value cmd"] read_word_word [of "cmd_end_key cmd" "[]"]
    by (cases cmd; cases "cmd_type cmd") (auto simp: query_parse_def Let_def op read_word_word command_ok_def command_word_def)
qed

theorem query_roundtrip_witness:
  "query_parse ''put k  two words '' = \<lparr>cmd_type = CmdPUT, cmd_key = ''k'', cmd_value = '' two words '', cmd_end_key = []\<rparr>"
proof -
  let ?cmd = "\<lparr>cmd_type = CmdPUT, cmd_key = ''k'', cmd_value = '' two words '', cmd_end_key = []\<rparr>"
  have "map toupper ''put'' = ''PUT''" by code_simp
  then have "map toupper ''put'' = command_word (cmd_type ?cmd)" by (simp add: command_word_def)
  moreover have "command_ok ?cmd" by (simp add: command_ok_def plain_word_def is_space_def)
  ultimately show ?thesis using query_roundtrip [of ?cmd "''put''"] by simp
qed

end
