(* ===== verification/Tokenizer.thy ===== *)
theory Tokenizer
  imports Query "HOL-Library.Sublist"
begin

text \<open>
  \<open>src/sql/sql_tokenizer.cpp\<close>: the lexer of the SQL dialect. Its state \<open>(input_, pos_)\<close> is the position and
  the text from there on, so \<open>peek\<close> is the head of the text, \<open>advance\<close> drops it, and a lexeme that the
  code cuts out with \<open>substr\<close> is the part of the text that was consumed. Character classes are those
  of the C locale; exceptions are \<open>Inl\<close> with the message.
\<close>

section \<open>Tokens\<close>

datatype TokenType =
    KW_CREATE | KW_TABLE | KW_DROP | KW_INSERT | KW_INTO | KW_VALUES
  | KW_SELECT | KW_FROM | KW_WHERE | KW_UPDATE | KW_SET | KW_DELETE
  | KW_AND | KW_OR | KW_NOT | KW_NULL | KW_PRIMARY | KW_KEY
  | KW_INT | KW_FLOAT | KW_TEXT | KW_BOOL | KW_INTEGER | KW_REAL
  | KW_VARCHAR | KW_BOOLEAN | KW_STRING | KW_DOUBLE
  | KW_NOT_NULL | KW_TRUE | KW_FALSE | KW_IF | KW_EXISTS
  | KW_ORDER | KW_BY | KW_ASC | KW_DESC | KW_LIMIT
  | KW_SHOW | KW_TABLES | KW_DESCRIBE
  | INTEGER_LIT | FLOAT_LIT | STRING_LIT | IDENTIFIER
  | OP_EQ | OP_NE | OP_LT | OP_GT | OP_LE | OP_GE
  | COMMA | LPAREN | RPAREN | SEMICOLON | STAR | DOT | END_OF_INPUT

record Token =
  tok_type :: TokenType
  tok_value :: string
  tok_pos :: nat

definition mk_token :: "TokenType \<Rightarrow> string \<Rightarrow> nat \<Rightarrow> Token" where
  "mk_token t v p = \<lparr>tok_type = t, tok_value = v, tok_pos = p\<rparr>"

text \<open>The comparisons of \<open>keyword_type\<close>, in their order.\<close>

definition keyword_table :: "(string \<times> TokenType) list" where
  "keyword_table =
    [(''CREATE'', KW_CREATE), (''TABLE'', KW_TABLE), (''DROP'', KW_DROP), (''INSERT'', KW_INSERT),
     (''INTO'', KW_INTO), (''VALUES'', KW_VALUES), (''SELECT'', KW_SELECT), (''FROM'', KW_FROM),
     (''WHERE'', KW_WHERE), (''UPDATE'', KW_UPDATE), (''SET'', KW_SET), (''DELETE'', KW_DELETE),
     (''AND'', KW_AND), (''OR'', KW_OR), (''NOT'', KW_NOT), (''NULL'', KW_NULL),
     (''PRIMARY'', KW_PRIMARY), (''KEY'', KW_KEY), (''INT'', KW_INT), (''INTEGER'', KW_INTEGER),
     (''FLOAT'', KW_FLOAT), (''REAL'', KW_REAL), (''DOUBLE'', KW_DOUBLE), (''TEXT'', KW_TEXT),
     (''STRING'', KW_STRING), (''VARCHAR'', KW_VARCHAR), (''BOOL'', KW_BOOL), (''BOOLEAN'', KW_BOOLEAN),
     (''TRUE'', KW_TRUE), (''FALSE'', KW_FALSE), (''IF'', KW_IF), (''EXISTS'', KW_EXISTS),
     (''ORDER'', KW_ORDER), (''BY'', KW_BY), (''ASC'', KW_ASC), (''DESC'', KW_DESC), (''LIMIT'', KW_LIMIT),
     (''SHOW'', KW_SHOW), (''TABLES'', KW_TABLES), (''DESCRIBE'', KW_DESCRIBE)]"

definition keyword_type :: "string \<Rightarrow> TokenType" where
  "keyword_type word =
     (case map_of keyword_table (map toupper word) of Some t \<Rightarrow> t | None \<Rightarrow> IDENTIFIER)"

section \<open>The lexer\<close>

definition is_alpha :: "char \<Rightarrow> bool" where
  "is_alpha c \<longleftrightarrow> (65 \<le> (of_char c :: nat) \<and> (of_char c :: nat) \<le> 90) \<or> (97 \<le> (of_char c :: nat) \<and> (of_char c :: nat) \<le> 122)"

definition is_ident_char :: "char \<Rightarrow> bool" where
  "is_ident_char c \<longleftrightarrow> is_alpha c \<or> is_digit c \<or> c = CHR ''_''"

text \<open>The loop of \<open>read_number\<close>: the lexeme, whether it has a dot, and the text behind it.\<close>

fun number_loop :: "string \<Rightarrow> bool \<Rightarrow> string \<times> bool \<times> string" where
  "number_loop [] has_dot = ([], has_dot, [])"
| "number_loop (c # rest) has_dot =
     (if c = CHR ''.'' then
        (if has_dot then ([], has_dot, c # rest)
         else case number_loop rest True of (v, d, r) \<Rightarrow> (c # v, d, r))
      else if is_digit c then (case number_loop rest has_dot of (v, d, r) \<Rightarrow> (c # v, d, r))
      else ([], has_dot, c # rest))"

definition read_number :: "nat \<Rightarrow> string \<Rightarrow> Token \<times> string" where
  "read_number pos s =
     (let (sign, s1) = (if s \<noteq> [] \<and> hd s = CHR ''-'' then ([hd s], tl s) else ([], s))
      in case number_loop s1 False of
           (v, has_dot, rest) \<Rightarrow>
             (mk_token (if has_dot then FLOAT_LIT else INTEGER_LIT) (sign @ v) pos, rest))"

text \<open>The loop of \<open>read_string\<close>: a doubled quote stands for one, and the end of the input ends the literal.\<close>

fun string_loop :: "char \<Rightarrow> string \<Rightarrow> string \<times> string" where
  "string_loop quote [] = ([], [])"
| "string_loop quote (c # rest) =
     (if c = quote then
        (case rest of
           d # rest' \<Rightarrow>
             if d = quote then (case string_loop quote rest' of (v, r) \<Rightarrow> (quote # v, r)) else ([], rest)
         | [] \<Rightarrow> ([], rest))
      else case string_loop quote rest of (v, r) \<Rightarrow> (c # v, r))"

definition read_string :: "nat \<Rightarrow> string \<Rightarrow> Token \<times> string" where
  "read_string pos s =
     (case string_loop (hd s) (tl s) of (v, rest) \<Rightarrow> (mk_token STRING_LIT v pos, rest))"

definition read_identifier_or_keyword :: "nat \<Rightarrow> string \<Rightarrow> Token \<times> string" where
  "read_identifier_or_keyword pos s =
     (let word = takeWhile is_ident_char s;
          t = keyword_type word
      in (mk_token t (if t = IDENTIFIER then word else map toupper word) pos,
          dropWhile is_ident_char s))"

definition unexpected :: "char \<Rightarrow> nat \<Rightarrow> string" where
  "unexpected c pos = ''Unexpected character '' @ [CHR 0x27, c, CHR 0x27] @ '' at position '' @ dec_digits pos"

text \<open>The punctuation and operator branches of \<open>tokenize\<close>, one character of look-ahead included.\<close>

definition read_symbol :: "nat \<Rightarrow> char \<Rightarrow> string \<Rightarrow> string + Token \<times> string" where
  "read_symbol pos c rest =
     (let at = (\<lambda>x. rest \<noteq> [] \<and> hd rest = x) in
      if c = CHR ''('' then Inr (mk_token LPAREN ''('' pos, rest)
      else if c = CHR '')'' then Inr (mk_token RPAREN '')'' pos, rest)
      else if c = CHR '','' then Inr (mk_token COMMA '','' pos, rest)
      else if c = CHR '';'' then Inr (mk_token SEMICOLON '';'' pos, rest)
      else if c = CHR ''*'' then Inr (mk_token STAR ''*'' pos, rest)
      else if c = CHR ''.'' then Inr (mk_token DOT ''.'' pos, rest)
      else if c = CHR ''='' then Inr (mk_token OP_EQ ''='' pos, rest)
      else if c = CHR ''<'' then
        (if at (CHR ''='') then Inr (mk_token OP_LE ''<='' pos, tl rest)
         else if at (CHR ''>'') then Inr (mk_token OP_NE ''<>'' pos, tl rest)
         else Inr (mk_token OP_LT ''<'' pos, rest))
      else if c = CHR ''>'' then
        (if at (CHR ''='') then Inr (mk_token OP_GE ''>='' pos, tl rest)
         else Inr (mk_token OP_GT ''>'' pos, rest))
      else if c = CHR ''!'' then
        (if at (CHR ''='') then Inr (mk_token OP_NE ''!='' pos, tl rest)
         else Inl (unexpected c pos))
      else Inl (unexpected c pos))"

text \<open>One token at a character that is not white space: the token and the text behind it.\<close>

definition next_token :: "nat \<Rightarrow> char \<Rightarrow> string \<Rightarrow> string + Token \<times> string" where
  "next_token pos c rest =
     (if is_alpha c \<or> c = CHR ''_'' then Inr (read_identifier_or_keyword pos (c # rest))
      else if is_digit c then Inr (read_number pos (c # rest))
      else if c = CHR ''-'' \<and> rest \<noteq> [] \<and> is_digit (hd rest) then Inr (read_number pos (c # rest))
      else if c = CHR 0x27 \<or> c = CHR 0x22 then Inr (read_string pos (c # rest))
      else read_symbol pos c rest)"

lemma number_loop_suffix: "suffix (snd (snd (number_loop s d))) s"
  by (induction s d rule: number_loop.induct) (auto intro: suffix_ConsI split: prod.splits)

lemma string_loop_cases:
  "string_loop q [] = ([], [])"
  "c \<noteq> q \<Longrightarrow> string_loop q (c # rest) = (c # fst (string_loop q rest), snd (string_loop q rest))"
  "string_loop q (q # q # rest) = (q # fst (string_loop q rest), snd (string_loop q rest))"
  "rest = [] \<or> hd rest \<noteq> q \<Longrightarrow> string_loop q (q # rest) = ([], rest)"
  by (auto simp: split_beta split: list.splits)

declare string_loop.simps [simp del]

lemma string_loop_suffix: "suffix (snd (string_loop q s)) s"
proof (induction "length s" arbitrary: s rule: less_induct)
  case less
  show ?case
  proof (cases s)
    case (Cons c rest)
    show ?thesis
    proof (cases "c = q \<and> rest \<noteq> [] \<and> hd rest = q")
      case True
      then have "s = q # q # tl rest" by (cases rest) (auto simp: Cons)
      then show ?thesis using less [of "tl rest"] by (auto simp: string_loop_cases intro!: suffix_ConsI)
    qed (use Cons less [of rest] in \<open>cases "c = q"; auto simp: string_loop_cases intro!: suffix_ConsI\<close>)
  qed (simp add: string_loop_cases)
qed

text \<open>A lexing step reports an error or a token at its position, no end token, and leaves an end of the text behind its first character.\<close>

definition consumes :: "nat \<Rightarrow> string \<Rightarrow> string + Token \<times> string \<Rightarrow> bool" where
  "consumes pos rest r \<longleftrightarrow>
     (case r of Inl ex \<Rightarrow> True
      | Inr (t, rest') \<Rightarrow> suffix rest' rest \<and> tok_pos t = pos \<and> tok_type t \<noteq> END_OF_INPUT)"

lemma consumes_if: "consumes pos rest x \<Longrightarrow> consumes pos rest y \<Longrightarrow> consumes pos rest (if b then x else y)"
  by simp

lemma consumes_leaf:
  "consumes pos rest (Inl ex)"
  "t \<noteq> END_OF_INPUT \<Longrightarrow> suffix rest' rest \<Longrightarrow> consumes pos rest (Inr (mk_token t v pos, rest'))"
  by (simp_all add: consumes_def mk_token_def)

lemma read_symbol_consumes: "consumes pos rest (read_symbol pos c rest)"
  unfolding read_symbol_def Let_def by (intro consumes_if consumes_leaf) (simp_all add: suffix_tl)

lemma keyword_type_not_end: "keyword_type w \<noteq> END_OF_INPUT"
proof -
  have "list_all (\<lambda>(k, t). t \<noteq> END_OF_INPUT) keyword_table" by (simp add: keyword_table_def)
  then show ?thesis
    by (auto simp: keyword_type_def list_all_iff split: option.splits dest!: map_of_SomeD)
qed

lemma read_number_consumes:
  assumes "is_digit c \<or> c = CHR ''-''"
  shows "consumes pos rest (Inr (read_number pos (c # rest)))"
proof (cases "c = CHR ''-''")
  case True
  then show ?thesis
    using number_loop_suffix [of rest False] by (auto simp: read_number_def intro!: consumes_leaf split: prod.splits)
next
  case False
  then have "is_digit c" "c \<noteq> CHR ''.''" using assms by (auto simp: is_digit_def)
  then show ?thesis
    using False number_loop_suffix [of rest False]
    by (auto simp: read_number_def intro!: consumes_leaf split: prod.splits)
qed

lemma read_string_consumes: "consumes pos rest (Inr (read_string pos (c # rest)))"
  using string_loop_suffix [of c rest] by (auto simp: read_string_def intro!: consumes_leaf split: prod.splits)

lemma read_identifier_consumes:
  assumes "is_alpha c \<or> c = CHR ''_''"
  shows "consumes pos rest (Inr (read_identifier_or_keyword pos (c # rest)))"
proof -
  have "is_ident_char c" using assms by (auto simp: is_ident_char_def)
  then show ?thesis
    by (simp add: read_identifier_or_keyword_def Let_def keyword_type_not_end consumes_leaf suffix_dropWhile)
qed

lemma next_token_consumes: "consumes pos rest (next_token pos c rest)"
  by (simp add: next_token_def read_identifier_consumes read_number_consumes read_string_consumes read_symbol_consumes)

lemma next_token_step:
  assumes "next_token pos c rest = Inr (t, rest')"
  shows "suffix rest' rest" "tok_pos t = pos" "tok_type t \<noteq> END_OF_INPUT"
  using next_token_consumes [of pos rest c] assms by (simp_all add: consumes_def)

function tokenize_loop :: "nat \<Rightarrow> string \<Rightarrow> Token list \<Rightarrow> string + Token list" where
  "tokenize_loop pos s tokens =
     (let s1 = dropWhile is_space s;
          pos1 = pos + (length s - length s1)
      in case s1 of
           [] \<Rightarrow> Inr (tokens @ [mk_token END_OF_INPUT [] pos1])
         | c # rest \<Rightarrow>
             (case next_token pos1 c rest of
                Inl ex \<Rightarrow> Inl ex
              | Inr (t, rest') \<Rightarrow> tokenize_loop (pos1 + (length s1 - length rest')) rest' (tokens @ [t])))"
  by pat_completeness auto
termination
proof (relation "measure (\<lambda>(pos, s, tokens). length s)", goal_cases)
  case (2 pos s tokens s1 pos1 c rest x t rest')
  have "length rest' \<le> length rest" using 2(4,5) by (auto dest: next_token_step suffix_length_le)
  moreover have "length s1 = Suc (length rest)" using 2(3) by (metis length_Cons)
  moreover have "length s1 \<le> length s" using 2(1) by (simp add: length_dropWhile_le)
  ultimately show ?case by simp
qed simp

declare tokenize_loop.simps [simp del]

definition tokenize :: "string \<Rightarrow> string + Token list" where
  "tokenize input = tokenize_loop 0 input []"


section \<open>The lexical grammar\<close>

text \<open>
  The tokens of the dialect, stated without the lexer: \<open>lexeme w t v\<close> says that the text \<open>w\<close> spells a token
  of type \<open>t\<close> with the value \<open>v\<close>, and \<open>stops w t c\<close> that the character \<open>c\<close> does not prolong it.
\<close>

definition symbol_table :: "(string \<times> TokenType) list" where
  "symbol_table =
    [(''('', LPAREN), ('')'', RPAREN), ('','', COMMA), ('';'', SEMICOLON), (''*'', STAR), (''.'', DOT), (''='', OP_EQ),
     (''<='', OP_LE), (''<>'', OP_NE), (''<'', OP_LT), (''>='', OP_GE), (''>'', OP_GT), (''!='', OP_NE)]"

definition name_lexeme :: "string \<Rightarrow> bool" where
  "name_lexeme w \<longleftrightarrow> w \<noteq> [] \<and> (is_alpha (hd w) \<or> hd w = CHR ''_'') \<and> list_all is_ident_char w"

definition magnitude :: "string \<Rightarrow> string" where
  "magnitude w = (if w \<noteq> [] \<and> hd w = CHR ''-'' then tl w else w)"

definition integer_lexeme :: "string \<Rightarrow> bool" where
  "integer_lexeme w \<longleftrightarrow> magnitude w \<noteq> [] \<and> list_all is_digit (magnitude w)"

definition float_lexeme :: "string \<Rightarrow> bool" where
  "float_lexeme w \<longleftrightarrow> takeWhile is_digit (magnitude w) \<noteq> [] \<and>
     (case dropWhile is_digit (magnitude w) of c # ds \<Rightarrow> c = CHR ''.'' \<and> list_all is_digit ds | [] \<Rightarrow> False)"

fun double_quotes :: "char \<Rightarrow> string \<Rightarrow> string" where
  "double_quotes q [] = []"
| "double_quotes q (c # v) = (if c = q then q # q # double_quotes q v else c # double_quotes q v)"

definition quoted :: "char \<Rightarrow> string \<Rightarrow> string" where
  "quoted q v = q # double_quotes q v @ [q]"

definition lexeme :: "string \<Rightarrow> TokenType \<Rightarrow> string \<Rightarrow> bool" where
  "lexeme w t v \<longleftrightarrow>
     name_lexeme w \<and> t = keyword_type w \<and> v = (if t = IDENTIFIER then w else map toupper w) \<or>
     t = INTEGER_LIT \<and> integer_lexeme w \<and> v = w \<or>
     t = FLOAT_LIT \<and> float_lexeme w \<and> v = w \<or>
     t = STRING_LIT \<and> (w = quoted (CHR 0x27) v \<or> w = quoted (CHR 0x22) v) \<or>
     map_of symbol_table w = Some t \<and> v = w"

definition stops :: "string \<Rightarrow> TokenType \<Rightarrow> char \<Rightarrow> bool" where
  "stops w t c \<longleftrightarrow>
     (if name_lexeme w then \<not> is_ident_char c
      else if t = INTEGER_LIT then \<not> is_digit c \<and> c \<noteq> CHR ''.''
      else if t = FLOAT_LIT then \<not> is_digit c
      else if t = STRING_LIT then c \<noteq> hd w
      else if t = OP_LT then c \<noteq> CHR ''='' \<and> c \<noteq> CHR ''>''
      else if t = OP_GT then c \<noteq> CHR ''=''
      else True)"

lemma number_loop_digits:
  assumes "list_all is_digit ds" "rest = [] \<or> \<not> is_digit (hd rest) \<and> (d \<or> hd rest \<noteq> CHR ''.'')"
  shows "number_loop (ds @ rest) d = (ds, d, rest)"
  using assms
proof (induction ds)
  case Nil
  then show ?case by (cases rest) auto
next
  case (Cons c ds)
  then have "c \<noteq> CHR ''.''" by (auto simp: is_digit_def)
  with Cons show ?case by simp
qed

lemma number_loop_float:
  assumes "list_all is_digit ds" "list_all is_digit fs" "rest = [] \<or> \<not> is_digit (hd rest)"
  shows "number_loop (ds @ CHR ''.'' # fs @ rest) False = (ds @ CHR ''.'' # fs, True, rest)"
  using assms(1)
proof (induction ds)
  case Nil
  then show ?case using number_loop_digits [of fs rest True] assms by simp
next
  case (Cons c ds)
  then have "c \<noteq> CHR ''.''" by (auto simp: is_digit_def)
  with Cons show ?case by simp
qed

lemma string_loop_quoted:
  assumes "rest = [] \<or> hd rest \<noteq> q"
  shows "string_loop q (double_quotes q v @ q # rest) = (v, rest)"
  by (induction v) (use assms in \<open>auto simp: string_loop_cases\<close>)

lemma char_classes [simp]:
  "is_digit c \<Longrightarrow> \<not> is_alpha c" "is_alpha c \<Longrightarrow> \<not> is_space c" "\<not> is_alpha (CHR ''-'')" "\<not> is_digit (CHR ''_'')"
  "\<not> is_digit (CHR ''-'')" "\<not> is_space (CHR ''-'')" "\<not> is_space (CHR ''_'')"
  by (auto simp: is_digit_def is_alpha_def is_space_def)

lemma next_token_name:
  assumes "name_lexeme w" "rest = [] \<or> \<not> is_ident_char (hd rest)"
  shows "next_token pos (hd w) (tl w @ rest)
       = Inr (mk_token (keyword_type w) (if keyword_type w = IDENTIFIER then w else map toupper w) pos, rest)"
proof -
  have w: "hd w # tl w @ rest = w @ rest" "is_alpha (hd w) \<or> hd w = CHR ''_''"
    and a: "\<forall>c \<in> set w. is_ident_char c"
    using assms(1) by (auto simp: name_lexeme_def list_all_iff)
  have "takeWhile is_ident_char rest = [] \<and> dropWhile is_ident_char rest = rest"
    using assms(2) by (cases rest) auto
  then have "takeWhile is_ident_char (w @ rest) = w \<and> dropWhile is_ident_char (w @ rest) = rest"
    using a by (simp add: takeWhile_append2 dropWhile_append2)
  then show ?thesis
    using w(2) by (simp only: next_token_def w(1) read_identifier_or_keyword_def Let_def simp_thms if_True)
qed

lemma next_token_number:
  assumes "takeWhile is_digit (magnitude w) \<noteq> []" "number_loop (magnitude w @ rest) False = (magnitude w, d, rest)"
  shows "next_token pos (hd w) (tl w @ rest) = Inr (mk_token (if d then FLOAT_LIT else INTEGER_LIT) w pos, rest)"
proof -
  have m: "magnitude w \<noteq> []" "is_digit (hd (magnitude w))"
    using assms(1) by (cases "magnitude w"; auto split: if_splits)+
  show ?thesis
  proof (cases "w \<noteq> [] \<and> hd w = CHR ''-''")
    case True
    then have "magnitude w = tl w" "w = CHR ''-'' # tl w"
      by (cases w; simp add: magnitude_def)+
    then show ?thesis
      using True assms(2) m by (simp add: next_token_def read_number_def hd_append)
  next
    case False
    then have "magnitude w = w" by (auto simp: magnitude_def)
    then have "read_number pos (w @ rest) = (mk_token (if d then FLOAT_LIT else INTEGER_LIT) w pos, rest)"
      using False m assms(2) by (simp add: read_number_def hd_append)
    moreover have "hd w # tl w @ rest = w @ rest" using m \<open>magnitude w = w\<close> by simp
    moreover have "is_digit (hd w)" using m \<open>magnitude w = w\<close> by simp
    moreover from this have "next_token pos (hd w) (tl w @ rest) = Inr (read_number pos (hd w # tl w @ rest))"
      by (auto simp: next_token_def)
    ultimately show ?thesis by (simp only:)
  qed
qed

lemma number_head:
  assumes "integer_lexeme w \<or> float_lexeme w"
  shows "w \<noteq> []" "hd w = CHR ''-'' \<or> is_digit (hd w)" "takeWhile is_digit (magnitude w) \<noteq> []"
proof -
  show t: "takeWhile is_digit (magnitude w) \<noteq> []"
    using assms by (cases "magnitude w") (auto simp: integer_lexeme_def float_lexeme_def split: if_splits)
  show "w \<noteq> []" using t by (auto simp: magnitude_def)
  with t show "hd w = CHR ''-'' \<or> is_digit (hd w)" by (cases w) (auto simp: magnitude_def split: if_splits)
qed

lemma next_token_integer:
  assumes "integer_lexeme w" "rest = [] \<or> \<not> is_digit (hd rest) \<and> hd rest \<noteq> CHR ''.''"
  shows "next_token pos (hd w) (tl w @ rest) = Inr (mk_token INTEGER_LIT w pos, rest)"
proof -
  show ?thesis
    using number_head(3) [of w] next_token_number [of w rest False] number_loop_digits [of "magnitude w" rest False] assms
    by (simp add: integer_lexeme_def)
qed

lemma next_token_float:
  assumes "float_lexeme w" "rest = [] \<or> \<not> is_digit (hd rest)"
  shows "next_token pos (hd w) (tl w @ rest) = Inr (mk_token FLOAT_LIT w pos, rest)"
proof -
  let ?ds = "takeWhile is_digit (magnitude w)"
  obtain fs where fs: "dropWhile is_digit (magnitude w) = CHR ''.'' # fs" "list_all is_digit fs" "?ds \<noteq> []"
    using assms(1) by (auto simp: float_lexeme_def split: list.splits)
  have "list_all is_digit ?ds" by (metis list_all_iff set_takeWhileD)
  moreover have "magnitude w = ?ds @ CHR ''.'' # fs" by (metis fs(1) takeWhile_dropWhile_id)
  ultimately show ?thesis
    using next_token_number [of w rest True] number_loop_float [of ?ds fs rest] assms(2) fs
    by (metis append.assoc append_Cons)
qed

lemma next_token_string:
  assumes "q = CHR 0x27 \<or> q = CHR 0x22" "rest = [] \<or> hd rest \<noteq> q"
  shows "next_token pos q (double_quotes q v @ q # rest) = Inr (mk_token STRING_LIT v pos, rest)"
proof -
  have "\<not> is_alpha q \<and> q \<noteq> CHR ''_'' \<and> \<not> is_digit q \<and> q \<noteq> CHR ''-''"
    using assms(1) by (auto simp: is_alpha_def is_digit_def)
  then show ?thesis using assms by (simp add: next_token_def read_string_def string_loop_quoted)
qed

definition symbol_chars :: string where
  "symbol_chars = ''(),;*.=<>!''"

lemma next_token_symbol_char: "c \<in> set symbol_chars \<Longrightarrow> next_token pos c rest = read_symbol pos c rest"
proof -
  assume c: "c \<in> set symbol_chars"
  have "\<forall>c \<in> set symbol_chars. \<not> is_alpha c \<and> \<not> is_digit c"
    "\<forall>c \<in> set symbol_chars. c \<noteq> CHR ''_'' \<and> c \<noteq> CHR ''-'' \<and> c \<noteq> CHR 0x27 \<and> c \<noteq> CHR 0x22"
    by (simp_all add: symbol_chars_def is_alpha_def is_digit_def)
  with c show ?thesis by (simp add: next_token_def)
qed

lemma read_symbol_one:
  "read_symbol pos (CHR ''('') rest = Inr (mk_token LPAREN ''('' pos, rest)"
  "read_symbol pos (CHR '')'') rest = Inr (mk_token RPAREN '')'' pos, rest)"
  "read_symbol pos (CHR '','') rest = Inr (mk_token COMMA '','' pos, rest)"
  "read_symbol pos (CHR '';'') rest = Inr (mk_token SEMICOLON '';'' pos, rest)"
  "read_symbol pos (CHR ''*'') rest = Inr (mk_token STAR ''*'' pos, rest)"
  "read_symbol pos (CHR ''.'') rest = Inr (mk_token DOT ''.'' pos, rest)"
  "read_symbol pos (CHR ''='') rest = Inr (mk_token OP_EQ ''='' pos, rest)"
  "read_symbol pos (CHR ''<'') (CHR ''='' # rest) = Inr (mk_token OP_LE ''<='' pos, rest)"
  "read_symbol pos (CHR ''<'') (CHR ''>'' # rest) = Inr (mk_token OP_NE ''<>'' pos, rest)"
  "read_symbol pos (CHR ''>'') (CHR ''='' # rest) = Inr (mk_token OP_GE ''>='' pos, rest)"
  "read_symbol pos (CHR ''!'') (CHR ''='' # rest) = Inr (mk_token OP_NE ''!='' pos, rest)"
  "rest = [] \<or> hd rest \<noteq> CHR ''='' \<and> hd rest \<noteq> CHR ''>'' \<Longrightarrow>
     read_symbol pos (CHR ''<'') rest = Inr (mk_token OP_LT ''<'' pos, rest)"
  "rest = [] \<or> hd rest \<noteq> CHR ''='' \<Longrightarrow> read_symbol pos (CHR ''>'') rest = Inr (mk_token OP_GT ''>'' pos, rest)"
  by (simp_all add: read_symbol_def) auto

lemma next_token_symbol:
  assumes "map_of symbol_table w = Some t"
    "rest = [] \<or> (t = OP_LT \<longrightarrow> hd rest \<noteq> CHR ''='' \<and> hd rest \<noteq> CHR ''>'') \<and> (t = OP_GT \<longrightarrow> hd rest \<noteq> CHR ''='')"
  shows "next_token pos (hd w) (tl w @ rest) = Inr (mk_token t w pos, rest)"
proof -
  have w: "(w, t) \<in> set symbol_table" using assms(1) by (rule map_of_SomeD)
  have "list_all (\<lambda>(w, t). hd w \<in> set symbol_chars) symbol_table"
    by (simp add: symbol_table_def symbol_chars_def)
  with w have "next_token pos (hd w) (tl w @ rest) = read_symbol pos (hd w) (tl w @ rest)"
    by (intro next_token_symbol_char) (auto simp: list_all_iff)
  also have "read_symbol pos (hd w) (tl w @ rest) = Inr (mk_token t w pos, rest)"
    using w assms(2) unfolding symbol_table_def by (auto simp: read_symbol_one)
  finally show ?thesis .
qed

lemma symbol_head:
  assumes "map_of symbol_table w = Some t"
  shows "w \<noteq> []" "hd w \<in> set symbol_chars"
proof -
  have "list_all (\<lambda>(w, t). w \<noteq> [] \<and> hd w \<in> set symbol_chars) symbol_table"
    by (simp add: symbol_table_def symbol_chars_def)
  then show "w \<noteq> []" "hd w \<in> set symbol_chars" using map_of_SomeD [OF assms] by (auto simp: list_all_iff)
qed

lemma not_name:
  assumes "is_digit c \<or> c = CHR ''-'' \<or> c = CHR 0x27 \<or> c = CHR 0x22 \<or> c \<in> set symbol_chars"
  shows "\<not> is_alpha c" "c \<noteq> CHR ''_''" "\<not> is_space c"
  using assms by (auto simp: symbol_chars_def is_alpha_def is_space_def is_digit_def)

lemma not_name_lexeme: "\<not> is_alpha (hd w) \<Longrightarrow> hd w \<noteq> CHR ''_'' \<Longrightarrow> \<not> name_lexeme w"
  by (simp add: name_lexeme_def)

lemma lexeme_head: "lexeme w t v \<Longrightarrow> w \<noteq> [] \<and> \<not> is_space (hd w)"
  using number_head [of w] symbol_head [of w t] not_name [of "hd w"]
  by (auto simp: lexeme_def name_lexeme_def quoted_def)

lemma next_token_lexeme:
  assumes "lexeme w t v" "rest = [] \<or> stops w t (hd rest)"
  shows "next_token pos (hd w) (tl w @ rest) = Inr (mk_token t v pos, rest)"
proof -
  consider (name) "name_lexeme w" "t = keyword_type w" "v = (if t = IDENTIFIER then w else map toupper w)"
    | (integer) "t = INTEGER_LIT" "integer_lexeme w" "v = w"
    | (float) "t = FLOAT_LIT" "float_lexeme w" "v = w"
    | (quoted) q where "t = STRING_LIT" "q = CHR 0x27 \<or> q = CHR 0x22" "w = quoted q v"
    | (symbol) "map_of symbol_table w = Some t" "v = w"
    using assms(1) by (auto simp: lexeme_def)
  then show ?thesis
  proof cases
    case name
    then show ?thesis using next_token_name [of w rest pos] assms(2) by (simp add: stops_def)
  next
    case integer
    then show ?thesis
      using next_token_integer [of w rest pos] assms(2) number_head(2) [of w] not_name [of "hd w"] not_name_lexeme [of w]
      by (auto simp: stops_def)
  next
    case float
    then show ?thesis
      using next_token_float [of w rest pos] assms(2) number_head(2) [of w] not_name [of "hd w"] not_name_lexeme [of w]
      by (auto simp: stops_def)
  next
    case quoted
    then have "rest = [] \<or> hd rest \<noteq> q"
      using assms(2) not_name [of q] not_name_lexeme [of w] by (auto simp: stops_def quoted_def)
    then show ?thesis using quoted next_token_string [of q rest pos v] by (simp add: quoted_def)
  next
    case symbol
    have "\<not> name_lexeme w" using symbol_head [OF symbol(1)] not_name [of "hd w"] not_name_lexeme [of w] by auto
    then show ?thesis using symbol next_token_symbol [of w t rest pos] assms(2) by (auto simp: stops_def)
  qed
qed

text \<open>
  A text as a list of spelled tokens, each with the white space behind it; the spaces may be empty
  where the next character does not prolong the token.
\<close>

type_synonym spelling = "string \<times> TokenType \<times> string \<times> string"

fun layout :: "spelling list \<Rightarrow> string" where
  "layout [] = []"
| "layout ((w, t, v, b) # xs) = w @ b @ layout xs"

fun spelled :: "spelling list \<Rightarrow> bool" where
  "spelled [] \<longleftrightarrow> True"
| "spelled ((w, t, v, b) # xs) \<longleftrightarrow> lexeme w t v \<and> list_all is_space b
     \<and> (b @ layout xs = [] \<or> stops w t (hd (b @ layout xs))) \<and> spelled xs"

fun placed :: "nat \<Rightarrow> spelling list \<Rightarrow> Token list" where
  "placed p [] = [mk_token END_OF_INPUT [] p]"
| "placed p ((w, t, v, b) # xs) = mk_token t v p # placed (p + length w + length b) xs"

lemma tokenize_loop_spelled:
  assumes "list_all is_space b" "spelled xs"
  shows "tokenize_loop p (b @ layout xs) toks = Inr (toks @ placed (p + length b) xs)"
  using assms
proof (induction xs arbitrary: p b toks)
  case Nil
  then have "dropWhile is_space b = []" by (simp add: list_all_iff)
  then show ?case by (subst tokenize_loop.simps) (simp add: Let_def del: dropWhile_eq_Nil_conv)
next
  case (Cons x xs)
  obtain w t v b' where x: "x = (w, t, v, b')" by (cases x) auto
  let ?rest = "b' @ layout xs"
  have lex: "lexeme w t v" and b': "list_all is_space b'" and stop: "?rest = [] \<or> stops w t (hd ?rest)"
    and sp: "spelled xs"
    using Cons.prems by (simp_all add: x)
  have w: "w @ ?rest = hd w # tl w @ ?rest" "\<not> is_space (hd w)" "w \<noteq> []" using lexeme_head [OF lex] by auto
  have d: "dropWhile is_space (b @ w @ ?rest) = hd w # tl w @ ?rest"
    using Cons.prems(1) w by (subst w(1), subst dropWhile_append2) (auto simp: list_all_iff)
  have len: "length (hd w # tl w @ ?rest) - length ?rest = length w"
    using w(3) by (cases w) auto
  have "tokenize_loop p (b @ w @ ?rest) toks = tokenize_loop (p + length b + length w) ?rest (toks @ [mk_token t v (p + length b)])"
    by (subst tokenize_loop.simps)
      (use next_token_lexeme [OF lex stop] len w in \<open>simp add: d Let_def\<close>)
  also have "\<dots> = Inr (toks @ placed (p + length b) (x # xs))"
    using Cons.IH [OF b' sp] by (simp add: x add.assoc)
  finally show ?case by (simp add: x)
qed

section \<open>Properties of the lexer\<close>

text \<open>
  C21: the lexer recognises its grammar: a text of keywords (in any case), identifiers, numbers, quoted strings
  with doubled quotes and symbols, laid out with white space wherever the next character would prolong a
  token, gives exactly these tokens, each with its value and its offset, and an end token at the length of the text.
\<close>

theorem tokenize_spelled:
  assumes "list_all is_space b" "spelled xs"
  shows "tokenize (b @ layout xs) = Inr (placed (length b) xs)"
  using tokenize_loop_spelled [OF assms, of 0 "[]"] by (simp add: tokenize_def)

theorem tokenize_spelled_witness:
  "tokenize '' where a1>=-3;'' =
     Inr [mk_token KW_WHERE ''WHERE'' 1, mk_token IDENTIFIER ''a1'' 7, mk_token OP_GE ''>='' 9,
          mk_token INTEGER_LIT ''-3'' 11, mk_token SEMICOLON '';'' 13, mk_token END_OF_INPUT [] 14]"
proof -
  let ?xs = "[(''where'', KW_WHERE, ''WHERE'', '' ''), (''a1'', IDENTIFIER, ''a1'', []), (''>='', OP_GE, ''>='', []),
    (''-3'', INTEGER_LIT, ''-3'', []), ('';'', SEMICOLON, '';'', [])]"
  have "spelled ?xs" "list_all is_space '' ''" by code_simp+
  then show ?thesis using tokenize_spelled [of "'' ''" ?xs] by (simp add: eval_nat_numeral)
qed

lemma tokenize_loop_shape:
  assumes "tokenize_loop p s toks = Inr ts"
  shows "\<exists>us. ts = toks @ us @ [mk_token END_OF_INPUT [] (p + length s)] \<and> length us \<le> length s
    \<and> sorted_wrt (<) (map tok_pos us) \<and> (\<forall>u \<in> set us. tok_type u \<noteq> END_OF_INPUT \<and> p \<le> tok_pos u \<and> tok_pos u < p + length s)"
  using assms
proof (induction p s toks arbitrary: ts rule: tokenize_loop.induct)
  case (1 p s toks)
  let ?s1 = "dropWhile is_space s"
  have le: "length ?s1 \<le> length s" by (rule length_dropWhile_le)
  show ?case
  proof (cases ?s1)
    case Nil
    then have "ts = toks @ [mk_token END_OF_INPUT [] (p + length s)]"
      using 1(2) by (subst (asm) tokenize_loop.simps) (simp add: Let_def del: dropWhile_eq_Nil_conv)
    then show ?thesis by (intro exI [of _ "[]"]) simp
  next
    case (Cons c rest)
    define q where "q = p + (length s - length ?s1)"
    have q: "p \<le> q" "q + Suc (length rest) = p + length s" using le by (simp_all add: q_def Cons)
    obtain t rest' where nt: "next_token q c rest = Inr (t, rest')"
      and tail: "tokenize_loop (q + (Suc (length rest) - length rest')) rest' (toks @ [t]) = Inr ts"
      using 1(2) by (subst (asm) tokenize_loop.simps) (auto simp: Let_def Cons q_def split: sum.splits)
    note st = next_token_step(2,3) [OF nt] suffix_length_le [OF next_token_step(1) [OF nt]]
    obtain us where "ts = (toks @ [t]) @ us @ [mk_token END_OF_INPUT [] (q + (Suc (length rest) - length rest') + length rest')]"
      "length us \<le> length rest'" "sorted_wrt (<) (map tok_pos us)"
      "\<forall>u \<in> set us. tok_type u \<noteq> END_OF_INPUT \<and> q + (Suc (length rest) - length rest') \<le> tok_pos u
         \<and> tok_pos u < q + (Suc (length rest) - length rest') + length rest'"
      using 1(1) [OF refl refl, of c rest "(t, rest')" t rest' ts] nt tail by (auto simp: Cons q_def)
    moreover have "length rest \<le> length s" using le by (simp add: Cons)
    ultimately show ?thesis using st q by (intro exI [of _ "t # us"]) auto
  qed
qed

lemma next_token_error:
  assumes "next_token pos c rest = Inl e"
  shows "e = unexpected c pos"
proof -
  have "e = unexpected c pos" if "read_symbol pos c rest = Inl e"
    using that unfolding read_symbol_def Let_def by (simp only: split: if_split_asm) simp_all
  then show ?thesis using assms by (simp add: next_token_def split: if_splits)
qed

lemma tokenize_loop_error:
  assumes "tokenize_loop p s toks = Inl e"
  shows "\<exists>i < length s. e = unexpected (s ! i) (p + i)"
  using assms
proof (induction p s toks rule: tokenize_loop.induct)
  case (1 p s toks)
  let ?s1 = "dropWhile is_space s"
  obtain c rest where s1: "?s1 = c # rest"
    using 1(2) by (cases ?s1) (subst (asm) tokenize_loop.simps, simp_all add: Let_def del: dropWhile_eq_Nil_conv)
  obtain b where s: "s = b @ c # rest" by (metis s1 takeWhile_dropWhile_id)
  define q where "q = p + length b"
  have q: "q = p + (length s - length ?s1)" by (simp add: q_def s1) (simp add: s)
  show ?case
  proof (cases "next_token q c rest")
    case (Inl e')
    then have "tokenize_loop p s toks = Inl e'" by (subst tokenize_loop.simps) (simp add: Let_def s1 q)
    then have "e = unexpected c q" using Inl 1(2) next_token_error [of q c rest e'] by simp
    then show ?thesis by (intro exI [of _ "length b"]) (simp add: s q_def)
  next
    case (Inr r)
    obtain t rest' where r: "next_token q c rest = Inr (t, rest')" using Inr by (cases r) auto
    obtain d where d: "rest = d @ rest'" using next_token_step(1) [OF r] by (auto simp: suffix_def)
    have "tokenize_loop p s toks = tokenize_loop (q + (Suc (length rest) - length rest')) rest' (toks @ [t])"
      using r by (subst tokenize_loop.simps) (simp add: Let_def s1 q)
    then obtain i where "i < length rest'" "e = unexpected (rest' ! i) (q + Suc (length d) + i)"
      using 1(1) [OF refl refl, of c rest "(t, rest')" t rest'] r 1(2) by (auto simp: s1 q d)
    then show ?thesis by (intro exI [of _ "length b + Suc (length d) + i"]) (auto simp: s d q_def nth_append add.assoc)
  qed
qed

text \<open>
  C22: whatever the input, the lexer ends: it reports the character at an offset inside the input that it cannot
  place, or returns at most one token per character, at strictly increasing offsets inside the input
  and none of them an end token, followed by one end token whose offset is the length of the input.
\<close>

theorem tokenize_terminates:
  "(\<exists>i < length input. tokenize input = Inl (unexpected (input ! i) i)) \<or>
   (\<exists>us. tokenize input = Inr (us @ [mk_token END_OF_INPUT [] (length input)]) \<and> length us \<le> length input
     \<and> sorted_wrt (<) (map tok_pos us) \<and> list_all (\<lambda>u. tok_type u \<noteq> END_OF_INPUT \<and> tok_pos u < length input) us)"
proof (cases "tokenize input")
  case (Inl e)
  then show ?thesis using tokenize_loop_error [of 0 input "[]" e] by (auto simp: tokenize_def)
next
  case (Inr ts)
  then show ?thesis using tokenize_loop_shape [of 0 input "[]" ts] by (auto simp: tokenize_def list_all_iff)
qed

text \<open>A string literal that is not closed is accepted up to the end of the input.\<close>

lemma unterminated_string_accepted:
  "tokenize [CHR 0x27, CHR ''a''] = Inr [mk_token STRING_LIT ''a'' 0, mk_token END_OF_INPUT [] 2]"
  by code_simp

end
