(* ===== verification/Numbers.thy ===== *)
theory Numbers
  imports Values
begin

text \<open>
  The numeric conversions of the C++ language and of the standard library that the SQL layer relies on, as
  glibc and libstdc++ define them on x86-64: \<open>std::stoll\<close>, \<open>std::stoi\<close> and \<open>std::stod\<close>, and the casts between
  \<open>int64_t\<close> and \<open>double\<close>. A conversion that throws, or whose result the language leaves undefined, is \<open>None\<close>.
\<close>

section \<open>Integers\<close>

text \<open>Optional white space and sign of all \<open>strto*\<close> functions: whether the number is negative, and the text behind the sign.\<close>

definition read_sign :: "string \<Rightarrow> bool \<times> string" where
  "read_sign s =
     (let t = dropWhile is_space s
      in case t of
           c # u \<Rightarrow> if c = CHR ''-'' then (True, u) else if c = CHR ''+'' then (False, u) else (False, t)
         | [] \<Rightarrow> (False, []))"

definition read_integer :: "string \<Rightarrow> int option" where
  "read_integer s =
     (case read_sign s of (neg, u) \<Rightarrow>
        let ds = takeWhile is_digit u
        in if ds = [] then None
           else Some (if neg then - int (dec_value ds) else int (dec_value ds)))"

definition stoll :: "string \<Rightarrow> u64 option" where
  "stoll s = (case read_integer s of
       Some i \<Rightarrow> if - (2 ^ 63) \<le> i \<and> i < 2 ^ 63 then Some (of_int i) else None
     | None \<Rightarrow> None)"

definition stoi :: "string \<Rightarrow> int option" where
  "stoi s = (case read_integer s of
       Some i \<Rightarrow> if - (2 ^ 31) \<le> i \<and> i < 2 ^ 31 then Some i else None
     | None \<Rightarrow> None)"

lemma read_integer_print [simp]: "read_integer (int_to_string i) = Some i"
proof -
  have d: "read_sign (dec_digits n) = (False, dec_digits n)" for n
  proof -
    obtain c u where u: "dec_digits n = c # u" by (cases "dec_digits n") auto
    then have "is_digit c" using dec_digits_all [of n] by simp
    then show ?thesis using is_digit_not_space [of c] by (simp add: read_sign_def u)
  qed
  have m: "read_sign (CHR ''-'' # s) = (True, s)" for s by (simp add: read_sign_def is_space_def)
  have t: "takeWhile is_digit (dec_digits n) = dec_digits n" for n
    using dec_digits_all [of n] by (simp add: list_all_iff)
  show ?thesis by (simp add: read_integer_def int_to_string_def d m t)
qed

lemma stoll_print: "stoll (int_to_string (sint v)) = Some v" for v :: u64
  using sint_greater_eq [of v] sint_less [of v] by (simp add: stoll_def)

lemma stoi_print: "- (2 ^ 31) \<le> i \<Longrightarrow> i < 2 ^ 31 \<Longrightarrow> stoi (int_to_string i) = Some i"
  by (simp add: stoi_def)

section \<open>Rounding to a double\<close>

text \<open>
  The double nearest to the fraction \<open>n / d\<close>, ties to even. \<open>ilog2 n d\<close> is the exponent of the fraction,
  the largest \<open>E\<close> with \<open>2 ^ E \<le> n / d\<close>; the significand is the fraction in units of \<open>2 ^ e\<close>, with
  \<open>e = E - 52\<close> but at least the unit of the subnormal numbers.
\<close>

fun bit_len :: "nat \<Rightarrow> nat" where
  "bit_len n = (if n = 0 then 0 else Suc (bit_len (n div 2)))"

declare bit_len.simps [simp del]

definition ilog2 :: "nat \<Rightarrow> nat \<Rightarrow> int" where
  "ilog2 n d =
     (let l = int (bit_len n) - int (bit_len d)
      in if d * 2 ^ nat l \<le> n * 2 ^ nat (- l) then l else l - 1)"

definition scaled :: "nat \<Rightarrow> nat \<Rightarrow> int \<Rightarrow> nat \<times> nat" where
  "scaled n d e = (n * 2 ^ nat (- e), d * 2 ^ nat e)"

definition f64_unit :: "nat \<Rightarrow> nat \<Rightarrow> int" where
  "f64_unit n d = max (ilog2 n d - 52) (- 1074)"

definition f64_magnitude :: "nat \<Rightarrow> nat \<Rightarrow> nat" where
  "f64_magnitude n d =
     (if n = 0 then 0
      else let e = f64_unit n d
           in nat (e + 1074) * 2 ^ 52 + (case scaled n d e of (a, b) \<Rightarrow> div_half_even a b))"

definition f64_infinity :: nat where
  "f64_infinity = 2047 * 2 ^ 52"

definition f64_pack :: "bool \<Rightarrow> nat \<Rightarrow> u64" where
  "f64_pack neg m = (if neg then of_nat (2 ^ 63 + m) else of_nat m)"

text \<open>
  \<open>ERANGE\<close> of \<open>strtod\<close>: the result overflows, or it is not exact and stays below the normal numbers
  even when it is rounded to 53 bits with an unbounded exponent.
\<close>

definition f64_range_error :: "nat \<Rightarrow> nat \<Rightarrow> bool" where
  "f64_range_error n d \<longleftrightarrow> n \<noteq> 0 \<and>
     (f64_infinity \<le> f64_magnitude n d \<or>
      (let E = ilog2 n d; (a, b) = scaled n d (f64_unit n d); (a', b') = scaled n d (E - 52)
       in a mod b \<noteq> 0 \<and> (E < - 1023 \<or> (E = - 1023 \<and> div_half_even a' b' < 2 ^ 53))))"

section \<open>Text to double\<close>

definition lower :: "char \<Rightarrow> char" where
  "lower c = (if 65 \<le> (of_char c :: nat) \<and> (of_char c :: nat) \<le> 90 then char_of (of_char c + 32 :: nat) else c)"

definition is_hex :: "char \<Rightarrow> bool" where
  "is_hex c \<longleftrightarrow> is_digit c \<or> (97 \<le> (of_char (lower c) :: nat) \<and> (of_char (lower c) :: nat) \<le> 102)"

definition hex_val :: "char \<Rightarrow> nat" where
  "hex_val c = (if is_digit c then digit_val c else of_char (lower c) - 87)"

definition hex_value :: "string \<Rightarrow> nat" where
  "hex_value s = foldl (\<lambda>acc c. 16 * acc + hex_val c) 0 s"

text \<open>Digits with an optional point: the digits before and behind it, and the text that is left.\<close>

definition read_mantissa :: "(char \<Rightarrow> bool) \<Rightarrow> string \<Rightarrow> string \<times> string \<times> string" where
  "read_mantissa dig s =
     (let ds = takeWhile dig s; r = dropWhile dig s
      in case r of
           c # u \<Rightarrow> if c = CHR ''.'' then (ds, takeWhile dig u, dropWhile dig u) else (ds, [], r)
         | [] \<Rightarrow> (ds, [], []))"

text \<open>An optional exponent, which counts only if a digit follows the letter and the sign.\<close>

definition read_exponent :: "char \<Rightarrow> string \<Rightarrow> int" where
  "read_exponent letter s =
     (case s of
        c # u \<Rightarrow>
          if lower c = letter then
            (let neg = (u \<noteq> [] \<and> hd u = CHR ''-'');
                 t = (if u \<noteq> [] \<and> (hd u = CHR ''-'' \<or> hd u = CHR ''+'') then tl u else u);
                 x = int (dec_value (takeWhile is_digit t))
             in if neg then - x else x)
          else 0
      | [] \<Rightarrow> 0)"

definition finite_double :: "bool \<Rightarrow> nat \<Rightarrow> int \<Rightarrow> nat \<Rightarrow> u64 option" where
  "finite_double neg m x base =
     (let n = m * base ^ nat x; d = base ^ nat (- x)
      in if f64_range_error n d then None else Some (f64_pack neg (f64_magnitude n d)))"

definition is_hex_number :: "string \<Rightarrow> bool" where
  "is_hex_number u \<longleftrightarrow> 2 < length u \<and> u ! 0 = CHR ''0'' \<and> lower (u ! 1) = CHR ''x'' \<and>
     (case read_mantissa is_hex (drop 2 u) of (ds, fs, r) \<Rightarrow> ds @ fs \<noteq> [])"

text \<open>
  \<open>std::stod\<close>: infinities and NaNs by name, hexadecimal and decimal numbers. (The characters in parentheses
  behind \<open>nan\<close> have no defined meaning and are ignored.)
\<close>

definition stod :: "string \<Rightarrow> u64 option" where
  "stod s =
     (case read_sign s of (neg, u) \<Rightarrow>
        if map lower (take 3 u) = ''inf'' then Some (f64_pack neg f64_infinity)
        else if map lower (take 3 u) = ''nan'' then Some (f64_pack neg (f64_infinity + 2 ^ 51))
        else if is_hex_number u then
          (case read_mantissa is_hex (drop 2 u) of (ds, fs, r) \<Rightarrow>
             finite_double neg (hex_value (ds @ fs)) (read_exponent (CHR ''p'') r - 4 * int (length fs)) 2)
        else
          (case read_mantissa is_digit u of (ds, fs, r) \<Rightarrow>
             if ds @ fs = [] then None
             else finite_double neg (dec_value (ds @ fs)) (read_exponent (CHR ''e'') r - int (length fs)) 10))"

section \<open>Casts\<close>

definition i64_to_f64 :: "u64 \<Rightarrow> u64" where
  "i64_to_f64 w = f64_pack (sint w < 0) (f64_magnitude (nat \<bar>sint w\<bar>) 1)"

text \<open>A double is cut off towards zero; a result out of range, an infinity or a NaN is undefined.\<close>

definition f64_significand :: "u64 \<Rightarrow> nat" where
  "f64_significand b = (if f64_exponent b = 0 then f64_mantissa b else 2 ^ 52 + f64_mantissa b)"

definition f64_truncate :: "u64 \<Rightarrow> int" where
  "f64_truncate b =
     (let e = int (max (f64_exponent b) 1) - 1075; m = f64_significand b * 2 ^ nat e div 2 ^ nat (- e)
      in if f64_sign b then - int m else int m)"

definition f64_to_i64 :: "u64 \<Rightarrow> u64 option" where
  "f64_to_i64 b =
     (let i = f64_truncate b
      in if f64_exponent b = 2047 \<or> i < - (2 ^ 63) \<or> 2 ^ 63 \<le> i then None else Some (of_int i))"

end
