(* ===== verification/Parser.thy ===== *)
theory Parser
  imports Tokenizer Numbers Schema
begin

text \<open>
  \<open>src/sql/sql_parser.cpp\<close>: the recursive-descent parser of the SQL dialect. The lexer always ends its tokens
  with one end token (theorem \<open>tokenize_terminates\<close>), so the state \<open>(tokens_, pos_)\<close> of the parser is kept as
  the tokens before \<open>pos_\<close> (last one first), the tokens from \<open>pos_\<close> up to the end token, and the
  offset of the end token; \<open>advance\<close> never moves past it. Every \<open>throw\<close> is \<open>Inl\<close> with the text of \<open>what()\<close>.
\<close>

section \<open>Statements\<close>

datatype CompOp = EQ | NE | LT | GT | LE | GE
datatype LogicOp = LogicAND | LogicOR

record Condition =
  cond_column :: string
  cond_op :: CompOp
  cond_value :: Value

record WhereClause =
  conditions :: "Condition list"
  logic_ops :: "LogicOp list"

record Assignment =
  asg_column :: string
  asg_value :: Value

record CreateTableStmt =
  ct_table_name :: string
  ct_columns :: "ColumnDef list"
  ct_primary_key :: string

record DropTableStmt =
  dt_table_name :: string
  dt_if_exists :: bool

record InsertStmt =
  ins_table_name :: string
  ins_columns :: "string list"
  ins_values :: "Value list"

record SelectStmt =
  sel_table_name :: string
  sel_columns :: "string list"
  sel_all :: bool
  sel_where :: WhereClause
  sel_order_by :: string
  sel_order_desc :: bool
  sel_limit :: int

record UpdateStmt =
  upd_table_name :: string
  upd_assignments :: "Assignment list"
  upd_where :: WhereClause

record DeleteStmt =
  del_table_name :: string
  del_where :: WhereClause

datatype Statement =
    CreateTable CreateTableStmt
  | DropTable DropTableStmt
  | Insert InsertStmt
  | Select SelectStmt
  | Update UpdateStmt
  | Delete DeleteStmt
  | ShowTables
  | Describe string

definition no_where :: WhereClause where
  "no_where = \<lparr>conditions = [], logic_ops = []\<rparr>"

section \<open>The parser state\<close>

record SQLParser =
  behind :: "Token list"
  ahead :: "Token list"
  end_pos :: nat

type_synonym 'a parse = "SQLParser \<Rightarrow> string + 'a \<times> SQLParser"

definition current :: "SQLParser \<Rightarrow> Token" where
  "current p = (case ahead p of t # ts \<Rightarrow> t | [] \<Rightarrow> mk_token END_OF_INPUT [] (end_pos p))"

definition match_tok :: "TokenType \<Rightarrow> SQLParser \<Rightarrow> bool" where
  "match_tok t p \<longleftrightarrow> tok_type (current p) = t"

definition advance :: "SQLParser \<Rightarrow> SQLParser" where
  "advance p = (case ahead p of t # ts \<Rightarrow> p\<lparr>behind := t # behind p, ahead := ts\<rparr> | [] \<Rightarrow> p)"

definition at_end :: "SQLParser \<Rightarrow> bool" where
  "at_end p \<longleftrightarrow> match_tok END_OF_INPUT p \<or> match_tok SEMICOLON p"

text \<open>\<open>static_cast<int>(type)\<close>: the place of the type in its enumeration.\<close>

definition token_types :: "TokenType list" where
  "token_types =
    [KW_CREATE, KW_TABLE, KW_DROP, KW_INSERT, KW_INTO, KW_VALUES,
     KW_SELECT, KW_FROM, KW_WHERE, KW_UPDATE, KW_SET, KW_DELETE,
     KW_AND, KW_OR, KW_NOT, KW_NULL, KW_PRIMARY, KW_KEY,
     KW_INT, KW_FLOAT, KW_TEXT, KW_BOOL, KW_INTEGER, KW_REAL,
     KW_VARCHAR, KW_BOOLEAN, KW_STRING, KW_DOUBLE,
     KW_NOT_NULL, KW_TRUE, KW_FALSE, KW_IF, KW_EXISTS,
     KW_ORDER, KW_BY, KW_ASC, KW_DESC, KW_LIMIT,
     KW_SHOW, KW_TABLES, KW_DESCRIBE,
     INTEGER_LIT, FLOAT_LIT, STRING_LIT, IDENTIFIER,
     OP_EQ, OP_NE, OP_LT, OP_GT, OP_LE, OP_GE,
     COMMA, LPAREN, RPAREN, SEMICOLON, STAR, DOT, END_OF_INPUT]"

definition token_code :: "TokenType \<Rightarrow> nat" where
  "token_code t = length (takeWhile (\<lambda>u. u \<noteq> t) token_types)"

definition quote_value :: "string \<Rightarrow> string" where
  "quote_value v = [CHR 0x27] @ v @ [CHR 0x27]"

definition expect :: "TokenType \<Rightarrow> Token parse" where
  "expect t p =
     (if \<not> match_tok t p then
        Inl (''SQL parse error: expected token type '' @ dec_digits (token_code t) @ '' but got ''
             @ quote_value (tok_value (current p)) @ '' at position '' @ dec_digits (tok_pos (current p)))
      else Inr (current p, advance p))"

text \<open>Sequencing: the exception of the first part, or the second part from where the first one stopped.\<close>

definition ret :: "'a \<Rightarrow> 'a parse" where
  "ret x p = Inr (x, p)"

definition throw :: "string \<Rightarrow> 'a parse" where
  "throw e p = Inl e"

definition andThen :: "'a parse \<Rightarrow> ('a \<Rightarrow> 'b parse) \<Rightarrow> 'b parse" where
  "andThen m f p = (case m p of Inl e \<Rightarrow> Inl e | Inr (x, p') \<Rightarrow> f x p')"

definition skip :: "unit parse" where
  "skip p = Inr ((), advance p)"

definition on_match :: "TokenType \<Rightarrow> 'a parse \<Rightarrow> 'a parse \<Rightarrow> 'a parse" where
  "on_match t m n p = (if match_tok t p then m p else n p)"

text \<open>\<open>if (match(TokenType::COMMA)) advance();\<close>\<close>

definition skip_comma :: "SQLParser \<Rightarrow> SQLParser" where
  "skip_comma p = (if match_tok COMMA p then advance p else p)"

definition name_token :: "string parse" where
  "name_token = andThen (expect IDENTIFIER) (\<lambda>t. ret (tok_value t))"

section \<open>How far a parser moves\<close>

text \<open>\<open>moves k m\<close>: when \<open>m\<close> succeeds it has consumed at least \<open>k\<close> tokens.\<close>

definition moves :: "nat \<Rightarrow> 'a parse \<Rightarrow> bool" where
  "moves k m \<longleftrightarrow> (\<forall>p x p'. m p = Inr (x, p') \<longrightarrow> length (ahead p') + k \<le> length (ahead p))"

named_theorems moving \<open>how many tokens the parsers consume\<close>

lemma moves_D: "moves k m \<Longrightarrow> m p = Inr (x, p') \<Longrightarrow> length (ahead p') + k \<le> length (ahead p)"
  by (simp add: moves_def)

lemma advance_le [simp]: "length (ahead (advance p)) \<le> length (ahead p)"
  by (simp add: advance_def split: list.splits)

lemma advance_less: "tok_type (current p) \<noteq> END_OF_INPUT \<Longrightarrow> Suc (length (ahead (advance p))) = length (ahead p)"
  by (auto simp: advance_def current_def mk_token_def split: list.splits)

lemma advance_bound: "Suc n \<le> length (ahead (advance p)) \<Longrightarrow> n < length (ahead p)"
  using advance_le [of p] by linarith

lemma skip_comma_le [simp]: "length (ahead (skip_comma p)) \<le> length (ahead p)"
  by (simp add: skip_comma_def)

lemma moves_expect [moving]: "t \<noteq> END_OF_INPUT \<Longrightarrow> moves 1 (expect t)"
  using advance_less by (auto simp: moves_def expect_def match_tok_def split: if_splits)

lemma moves_ret [moving]: "moves 0 (ret x)"
  by (simp add: moves_def ret_def)

lemma moves_throw [moving]: "moves k (throw e)"
  by (simp add: moves_def throw_def)

lemma moves_skip [moving]: "moves 0 skip"
  by (auto simp: moves_def skip_def)

lemma moves_andThen: "moves k m \<Longrightarrow> (\<And>x. moves j (f x)) \<Longrightarrow> moves (k + j) (andThen m f)"
  by (fastforce simp: moves_def andThen_def split: sum.splits)

lemma moves_first: "moves 1 m \<Longrightarrow> (\<And>x. moves 0 (f x)) \<Longrightarrow> moves 1 (andThen m f)"
  using moves_andThen [of 1 m 0 f] by simp

lemma moves_none: "moves 0 m \<Longrightarrow> (\<And>x. moves 0 (f x)) \<Longrightarrow> moves 0 (andThen m f)"
  using moves_andThen [of 0 m 0 f] by simp

lemma moves_on_match [moving]: "moves k m \<Longrightarrow> moves k n \<Longrightarrow> moves k (on_match t m n)"
  by (auto simp: moves_def on_match_def)

lemma moves_weaken: "moves k m \<Longrightarrow> moves 0 m"
  by (fastforce simp: moves_def)

lemma moves_name [moving]: "moves 1 name_token"
  unfolding name_token_def by (intro moves_first moving) simp


section \<open>Values, types and conditions\<close>

definition parse_value :: "Value parse" where
  "parse_value p =
     (if match_tok INTEGER_LIT p then
        (case stoll (tok_value (current p)) of None \<Rightarrow> Inl ''stoll'' | Some v \<Rightarrow> Inr (make_int v, advance p))
      else if match_tok FLOAT_LIT p then
        (case stod (tok_value (current p)) of None \<Rightarrow> Inl ''stod'' | Some v \<Rightarrow> Inr (make_float v, advance p))
      else if match_tok STRING_LIT p then Inr (make_text (tok_value (current p)), advance p)
      else if match_tok KW_TRUE p then Inr (make_bool True, advance p)
      else if match_tok KW_FALSE p then Inr (make_bool False, advance p)
      else if match_tok KW_NULL p then Inr (make_null CtTEXT, advance p)
      else Inl (''SQL parse error: expected value, got '' @ quote_value (tok_value (current p))))"

lemma moves_value [moving]: "moves 1 parse_value"
proof -
  have "length (ahead p') + 1 \<le> length (ahead p)" if "parse_value p = Inr (x, p')" for p x p'
  proof -
    have "p' = advance p \<and> tok_type (current p) \<noteq> END_OF_INPUT"
      using that unfolding parse_value_def match_tok_def by (auto split: if_splits option.splits)
    then show ?thesis using advance_less [of p] by simp
  qed
  then show ?thesis by (auto simp: moves_def)
qed

definition parse_column_type :: "ColumnType parse" where
  "parse_column_type p =
     (let t = tok_type (current p); p1 = advance p
      in if t = KW_INT \<or> t = KW_INTEGER then Inr (CtINT, p1)
         else if t = KW_FLOAT \<or> t = KW_REAL \<or> t = KW_DOUBLE then Inr (CtFLOAT, p1)
         else if t = KW_TEXT \<or> t = KW_STRING \<or> t = KW_VARCHAR then
           (if match_tok LPAREN p1 then
              (case expect RPAREN (advance (advance p1)) of Inl e \<Rightarrow> Inl e | Inr (x, p2) \<Rightarrow> Inr (CtTEXT, p2))
            else Inr (CtTEXT, p1))
         else if t = KW_BOOL \<or> t = KW_BOOLEAN then Inr (CtBOOL, p1)
         else Inl (''SQL parse error: expected column type, got '' @ quote_value (tok_value (hd (behind p1)))))"

definition comp_op :: "TokenType \<Rightarrow> CompOp option" where
  "comp_op t = (case t of
       OP_EQ \<Rightarrow> Some EQ | OP_NE \<Rightarrow> Some NE | OP_LT \<Rightarrow> Some LT
     | OP_GT \<Rightarrow> Some GT | OP_LE \<Rightarrow> Some LE | OP_GE \<Rightarrow> Some GE | _ \<Rightarrow> None)"

definition parse_operator :: "CompOp parse" where
  "parse_operator p = (case comp_op (tok_type (current p)) of
       None \<Rightarrow> Inl (''SQL parse error: expected comparison operator, got '' @ quote_value (tok_value (current p)))
     | Some op \<Rightarrow> Inr (op, advance p))"

definition parse_condition :: "Condition parse" where
  "parse_condition =
     andThen name_token (\<lambda>column.
     andThen parse_operator (\<lambda>op.
     andThen parse_value (\<lambda>v.
     ret \<lparr>cond_column = column, cond_op = op, cond_value = v\<rparr>)))"

lemma moves_operator [moving]: "moves 0 parse_operator"
  by (auto simp: moves_def parse_operator_def split: option.splits)

lemma moves_condition [moving]: "moves 1 parse_condition"
  unfolding parse_condition_def by (intro moves_first moves_none moving moves_weaken [OF moves_value])

function where_loop :: "WhereClause \<Rightarrow> WhereClause parse" where
  "where_loop wc p =
     (if match_tok KW_AND p \<or> match_tok KW_OR p then
        (let op = (if match_tok KW_AND p then LogicAND else LogicOR)
         in case parse_condition (advance p) of
              Inl e \<Rightarrow> Inl e
            | Inr (c, p1) \<Rightarrow> where_loop (wc\<lparr>logic_ops := logic_ops wc @ [op], conditions := conditions wc @ [c]\<rparr>) p1)
      else Inr (wc, p))"
  by pat_completeness auto
termination
proof (relation "measure (\<lambda>(wc, p). length (ahead p))", goal_cases)
  case (2 wc p op r c p1)
  then show ?case using moves_D [OF moves_condition, of "advance p" c p1] by (auto dest: advance_bound)
qed simp

declare where_loop.simps [simp del]

definition parse_where :: "WhereClause parse" where
  "parse_where =
     andThen (expect KW_WHERE) (\<lambda>_.
     andThen parse_condition (\<lambda>c.
     where_loop \<lparr>conditions = [c], logic_ops = []\<rparr>))"

definition optional_where :: "WhereClause parse" where
  "optional_where = on_match KW_WHERE parse_where (ret no_where)"

section \<open>Statements\<close>

text \<open>The constraints behind a column: the column with its flags, and the primary key they name.\<close>

function constraint_loop :: "ColumnDef \<Rightarrow> string \<Rightarrow> (ColumnDef \<times> string) parse" where
  "constraint_loop col pk p =
     (if match_tok COMMA p \<or> match_tok RPAREN p \<or> at_end p then Inr ((col, pk), p)
      else if match_tok KW_PRIMARY p then
        (case expect KW_KEY (advance p) of
           Inl e \<Rightarrow> Inl e
         | Inr (_, p1) \<Rightarrow> constraint_loop (col\<lparr>is_primary_key := True\<rparr>) (col_name col) p1)
      else if match_tok KW_NOT p then
        (case expect KW_NULL (advance p) of
           Inl e \<Rightarrow> Inl e
         | Inr (_, p1) \<Rightarrow> constraint_loop (col\<lparr>not_null := True\<rparr>) pk p1)
      else Inr ((col, pk), p))"
  by pat_completeness auto
termination
proof (relation "measure (\<lambda>(col, pk, p). length (ahead p))", goal_cases)
  case (2 col pk p r t p1)
  then show ?case using moves_D [OF moves_expect, of KW_KEY "advance p" t p1] by (auto dest: advance_bound)
next
  case (3 col pk p r t p1)
  then show ?case using moves_D [OF moves_expect, of KW_NULL "advance p" t p1] by (auto dest: advance_bound)
qed simp

declare constraint_loop.simps [simp del]

lemma moves_constraints [moving]: "moves 0 (constraint_loop col pk)"
proof -
  have "constraint_loop col pk p = Inr (x, p') \<Longrightarrow> length (ahead p') \<le> length (ahead p)" for p x p'
  proof (induction col pk p rule: constraint_loop.induct)
    case (1 col pk p)
    then show ?case
      using moves_D [OF moves_expect [of KW_KEY], of "advance p"] moves_D [OF moves_expect [of KW_NULL], of "advance p"]
      by (subst (asm) (3) constraint_loop.simps)
        (fastforce split: if_splits sum.splits dest: advance_bound)
  qed
  then show ?thesis by (auto simp: moves_def)
qed

lemma moves_column_type [moving]: "moves 0 parse_column_type"
proof -
  have "length (ahead p') \<le> length (ahead p)" if "parse_column_type p = Inr (x, p')" for p x p'
  proof -
    let ?q = "advance (advance (advance p))"
    have "p' = advance p \<or> (\<exists>t. expect RPAREN ?q = Inr (t, p'))"
      using that unfolding parse_column_type_def Let_def by (auto split: if_splits sum.splits)
    then show ?thesis
    proof
      assume "\<exists>t. expect RPAREN ?q = Inr (t, p')"
      then have "length (ahead p') \<le> length (ahead ?q)" using moves_D [OF moves_expect [of RPAREN]] by fastforce
      then show ?thesis using advance_le [of "advance (advance p)"] advance_le [of "advance p"] advance_le [of p] by linarith
    qed simp
  qed
  then show ?thesis by (auto simp: moves_def)
qed

text \<open>One pass of the loop over the parenthesised list: a table-level primary key or a column.\<close>

definition parse_primary_key :: "string parse" where
  "parse_primary_key =
     andThen skip (\<lambda>_.
     andThen (expect KW_KEY) (\<lambda>_.
     andThen (expect LPAREN) (\<lambda>_.
     andThen name_token (\<lambda>pk.
     andThen (expect RPAREN) (\<lambda>_.
     ret pk)))))"

definition parse_column :: "string \<Rightarrow> (ColumnDef \<times> string) parse" where
  "parse_column pk =
     andThen name_token (\<lambda>name.
     andThen parse_column_type (\<lambda>t.
     constraint_loop \<lparr>col_name = name, col_type = t, not_null = False, is_primary_key = False\<rparr> pk))"

definition parse_create_item :: "CreateTableStmt \<Rightarrow> CreateTableStmt parse" where
  "parse_create_item stmt =
     on_match KW_PRIMARY
       (andThen parse_primary_key (\<lambda>pk. ret (stmt\<lparr>ct_primary_key := pk\<rparr>)))
       (andThen (parse_column (ct_primary_key stmt)) (\<lambda>(col, pk).
        ret (stmt\<lparr>ct_columns := ct_columns stmt @ [col], ct_primary_key := pk\<rparr>)))"

lemma moves_primary_key [moving]: "moves 1 parse_primary_key"
proof -
  have "moves (0 + 1) parse_primary_key"
    unfolding parse_primary_key_def
    by (intro moves_andThen moves_first moves_none moving moves_weaken [OF moves_expect] moves_weaken [OF moves_name]) simp_all
  then show ?thesis by simp
qed

lemma moves_create_item: "moves 1 (parse_create_item stmt)"
proof -
  have r: "moves 0 (case x of (col, pk) \<Rightarrow> ret (f col pk))" for f :: "ColumnDef \<Rightarrow> string \<Rightarrow> CreateTableStmt" and x
    by (cases x) (simp add: moves_ret)
  show ?thesis
    unfolding parse_create_item_def parse_column_def by (intro moves_on_match moves_first moves_none moving r)
qed

function create_loop :: "CreateTableStmt \<Rightarrow> CreateTableStmt parse" where
  "create_loop stmt p =
     (if match_tok RPAREN p \<or> at_end p then Inr (stmt, p)
      else case parse_create_item stmt p of
             Inl e \<Rightarrow> Inl e
           | Inr (stmt1, p1) \<Rightarrow> create_loop stmt1 (skip_comma p1))"
  by pat_completeness auto
termination
proof (relation "measure (\<lambda>(stmt, p). length (ahead p))", goal_cases)
  case (2 stmt p r stmt1 p1)
  then show ?case
    using moves_D [OF moves_create_item, of stmt p stmt1 p1] le_less_trans [OF skip_comma_le [of p1], of "length (ahead p)"]
    by auto
qed simp

declare create_loop.simps [simp del]

definition mark_primary_key :: "CreateTableStmt \<Rightarrow> CreateTableStmt" where
  "mark_primary_key stmt =
     (if ct_primary_key stmt \<noteq> [] then
        stmt\<lparr>ct_columns := map (\<lambda>c. if col_name c = ct_primary_key stmt
                                    then c\<lparr>is_primary_key := True, not_null := True\<rparr> else c) (ct_columns stmt)\<rparr>
      else stmt)"

definition parse_create_table :: "CreateTableStmt parse" where
  "parse_create_table =
     andThen (expect KW_CREATE) (\<lambda>_.
     andThen (expect KW_TABLE) (\<lambda>_.
     andThen name_token (\<lambda>name.
     andThen (expect LPAREN) (\<lambda>_.
     andThen (create_loop \<lparr>ct_table_name = name, ct_columns = [], ct_primary_key = []\<rparr>) (\<lambda>stmt.
     andThen (expect RPAREN) (\<lambda>_.
     ret (mark_primary_key stmt)))))))"

definition parse_drop_table :: "DropTableStmt parse" where
  "parse_drop_table =
     andThen (expect KW_DROP) (\<lambda>_.
     andThen (expect KW_TABLE) (\<lambda>_.
     andThen (on_match KW_IF (andThen skip (\<lambda>_. andThen (expect KW_EXISTS) (\<lambda>_. ret True))) (ret False)) (\<lambda>if_exists.
     andThen name_token (\<lambda>name.
     ret \<lparr>dt_table_name = name, dt_if_exists = if_exists\<rparr>))))"

text \<open>The two lists of \<open>INSERT\<close>: a comma behind an element is skipped if there is one.\<close>

function name_list_loop :: "string list \<Rightarrow> string list parse" where
  "name_list_loop acc p =
     (if match_tok RPAREN p \<or> at_end p then Inr (acc, p)
      else case name_token p of
             Inl e \<Rightarrow> Inl e
           | Inr (col, p1) \<Rightarrow> name_list_loop (acc @ [col]) (skip_comma p1))"
  by pat_completeness auto
termination
proof (relation "measure (\<lambda>(acc, p). length (ahead p))", goal_cases)
  case (2 acc p r col p1)
  then show ?case
    using moves_D [OF moves_name, of p col p1] le_less_trans [OF skip_comma_le [of p1], of "length (ahead p)"] by auto
qed simp

declare name_list_loop.simps [simp del]

function value_list_loop :: "Value list \<Rightarrow> Value list parse" where
  "value_list_loop acc p =
     (if match_tok RPAREN p \<or> at_end p then Inr (acc, p)
      else case parse_value p of
             Inl e \<Rightarrow> Inl e
           | Inr (v, p1) \<Rightarrow> value_list_loop (acc @ [v]) (skip_comma p1))"
  by pat_completeness auto
termination
proof (relation "measure (\<lambda>(acc, p). length (ahead p))", goal_cases)
  case (2 acc p r v p1)
  then show ?case
    using moves_D [OF moves_value, of p v p1] le_less_trans [OF skip_comma_le [of p1], of "length (ahead p)"] by auto
qed simp

declare value_list_loop.simps [simp del]

definition parse_insert :: "InsertStmt parse" where
  "parse_insert =
     andThen (expect KW_INSERT) (\<lambda>_.
     andThen (expect KW_INTO) (\<lambda>_.
     andThen name_token (\<lambda>name.
     andThen (on_match LPAREN
                (andThen skip (\<lambda>_. andThen (name_list_loop []) (\<lambda>cols. andThen (expect RPAREN) (\<lambda>_. ret cols))))
                (ret [])) (\<lambda>cols.
     andThen (expect KW_VALUES) (\<lambda>_.
     andThen (expect LPAREN) (\<lambda>_.
     andThen (value_list_loop []) (\<lambda>vals.
     andThen (expect RPAREN) (\<lambda>_.
     ret \<lparr>ins_table_name = name, ins_columns = cols, ins_values = vals\<rparr>))))))))"

function select_columns :: "string list \<Rightarrow> string list parse" where
  "select_columns acc p =
     (case name_token p of
        Inl e \<Rightarrow> Inl e
      | Inr (col, p1) \<Rightarrow>
          if match_tok COMMA p1 then select_columns (acc @ [col]) (advance p1) else Inr (acc @ [col], p1))"
  by pat_completeness auto
termination
proof (relation "measure (\<lambda>(acc, p). length (ahead p))", goal_cases)
  case (2 acc p r col p1)
  then show ?case
    using moves_D [OF moves_name, of p col p1] le_less_trans [OF advance_le [of p1], of "length (ahead p)"] by auto
qed simp

declare select_columns.simps [simp del]

definition parse_order_by :: "(string \<times> bool) parse" where
  "parse_order_by =
     andThen skip (\<lambda>_.
     andThen (expect KW_BY) (\<lambda>_.
     andThen name_token (\<lambda>col.
     on_match KW_DESC (andThen skip (\<lambda>_. ret (col, True)))
       (on_match KW_ASC (andThen skip (\<lambda>_. ret (col, False))) (ret (col, False))))))"

definition parse_limit :: "int parse" where
  "parse_limit p =
     (let p1 = advance p
      in case stoi (tok_value (current p1)) of None \<Rightarrow> Inl ''stoi'' | Some n \<Rightarrow> Inr (n, advance p1))"

definition parse_select :: "SelectStmt parse" where
  "parse_select =
     andThen (expect KW_SELECT) (\<lambda>_.
     andThen (on_match STAR (andThen skip (\<lambda>_. ret (True, [])))
                (andThen (select_columns []) (\<lambda>cols. ret (False, cols)))) (\<lambda>(all, cols).
     andThen (expect KW_FROM) (\<lambda>_.
     andThen name_token (\<lambda>name.
     andThen optional_where (\<lambda>wc.
     andThen (on_match KW_ORDER parse_order_by (ret ([], False))) (\<lambda>(order_by, desc).
     andThen (on_match KW_LIMIT parse_limit (ret (-1))) (\<lambda>limit.
     ret \<lparr>sel_table_name = name, sel_columns = cols, sel_all = all, sel_where = wc,
           sel_order_by = order_by, sel_order_desc = desc, sel_limit = limit\<rparr>)))))))"

definition parse_assignment :: "Assignment parse" where
  "parse_assignment =
     andThen name_token (\<lambda>col.
     andThen (expect OP_EQ) (\<lambda>_.
     andThen parse_value (\<lambda>v.
     ret \<lparr>asg_column = col, asg_value = v\<rparr>)))"

lemma moves_assignment [moving]: "moves 1 parse_assignment"
  unfolding parse_assignment_def
  by (intro moves_first moves_none moving moves_weaken [OF moves_value] moves_weaken [OF moves_expect]) simp_all

function assignment_loop :: "Assignment list \<Rightarrow> Assignment list parse" where
  "assignment_loop acc p =
     (case parse_assignment p of
        Inl e \<Rightarrow> Inl e
      | Inr (a, p1) \<Rightarrow>
          if match_tok COMMA p1 then assignment_loop (acc @ [a]) (advance p1) else Inr (acc @ [a], p1))"
  by pat_completeness auto
termination
proof (relation "measure (\<lambda>(acc, p). length (ahead p))", goal_cases)
  case (2 acc p r a p1)
  then show ?case
    using moves_D [OF moves_assignment, of p a p1] le_less_trans [OF advance_le [of p1], of "length (ahead p)"] by auto
qed simp

declare assignment_loop.simps [simp del]

definition parse_update :: "UpdateStmt parse" where
  "parse_update =
     andThen (expect KW_UPDATE) (\<lambda>_.
     andThen name_token (\<lambda>name.
     andThen (expect KW_SET) (\<lambda>_.
     andThen (assignment_loop []) (\<lambda>asgs.
     andThen optional_where (\<lambda>wc.
     ret \<lparr>upd_table_name = name, upd_assignments = asgs, upd_where = wc\<rparr>)))))"

definition parse_delete :: "DeleteStmt parse" where
  "parse_delete =
     andThen (expect KW_DELETE) (\<lambda>_.
     andThen (expect KW_FROM) (\<lambda>_.
     andThen name_token (\<lambda>name.
     andThen optional_where (\<lambda>wc.
     ret \<lparr>del_table_name = name, del_where = wc\<rparr>))))"

definition parse_show_tables :: "unit parse" where
  "parse_show_tables = andThen (expect KW_SHOW) (\<lambda>_. andThen (expect KW_TABLES) (\<lambda>_. ret ()))"

definition parse_describe :: "string parse" where
  "parse_describe = andThen (expect KW_DESCRIBE) (\<lambda>_. name_token)"

definition parse_statement :: "Statement parse" where
  "parse_statement p =
     (if match_tok KW_CREATE p then andThen parse_create_table (\<lambda>s. ret (CreateTable s)) p
      else if match_tok KW_DROP p then andThen parse_drop_table (\<lambda>s. ret (DropTable s)) p
      else if match_tok KW_INSERT p then andThen parse_insert (\<lambda>s. ret (Insert s)) p
      else if match_tok KW_SELECT p then andThen parse_select (\<lambda>s. ret (Select s)) p
      else if match_tok KW_UPDATE p then andThen parse_update (\<lambda>s. ret (Update s)) p
      else if match_tok KW_DELETE p then andThen parse_delete (\<lambda>s. ret (Delete s)) p
      else if match_tok KW_SHOW p then andThen parse_show_tables (\<lambda>_. ret ShowTables) p
      else if match_tok KW_DESCRIBE p then andThen parse_describe (\<lambda>s. ret (Describe s)) p
      else Inl (''SQL parse error: unexpected token '' @ quote_value (tok_value (current p))))"

definition new_parser :: "Token list \<Rightarrow> SQLParser" where
  "new_parser tokens = \<lparr>behind = [], ahead = butlast tokens, end_pos = tok_pos (last tokens)\<rparr>"

definition sql_parse :: "string \<Rightarrow> string + Statement" where
  "sql_parse sql =
     (case tokenize sql of
        Inl e \<Rightarrow> Inl e
      | Inr tokens \<Rightarrow> (case parse_statement (new_parser tokens) of Inl e \<Rightarrow> Inl e | Inr (stmt, p) \<Rightarrow> Inr stmt))"

end
