(* ===== verification/Std_Sort.thy ===== *)
theory Std_Sort
  imports Main "HOL-Library.Multiset"
begin

text \<open>
  What the C++ standard promises of \<open>std::sort\<close>: for a comparison that is a strict weak order on the elements, a sorted
  permutation of them. For any other comparison its behaviour is undefined.
\<close>

section \<open>The contract\<close>

definition strict_weak :: "('a \<Rightarrow> 'a \<Rightarrow> bool) \<Rightarrow> 'a set \<Rightarrow> bool" where
  "strict_weak lt A \<longleftrightarrow> (\<forall>a \<in> A. \<not> lt a a) \<and> (\<forall>a \<in> A. \<forall>b \<in> A. \<forall>c \<in> A. lt a b \<and> lt b c \<longrightarrow> lt a c)
     \<and> (\<forall>a \<in> A. \<forall>b \<in> A. \<forall>c \<in> A. \<not> lt a b \<and> \<not> lt b a \<and> \<not> lt b c \<and> \<not> lt c b \<longrightarrow> \<not> lt a c \<and> \<not> lt c a)"

definition std_sort_ok :: "(('a \<Rightarrow> 'a \<Rightarrow> bool) \<Rightarrow> 'a list \<Rightarrow> 'a list) \<Rightarrow> bool" where
  "std_sort_ok std_sort \<longleftrightarrow> (\<forall>lt xs. strict_weak lt (set xs) \<longrightarrow>
     mset (std_sort lt xs) = mset xs \<and> sorted_wrt (\<lambda>a b. \<not> lt b a) (std_sort lt xs))"

lemma std_sort_set: "std_sort_ok std_sort \<Longrightarrow> strict_weak lt (set xs) \<Longrightarrow> set (std_sort lt xs) = set xs"
  by (metis mset_eq_setD std_sort_ok_def)

section \<open>A function that meets it\<close>

text \<open>Insertion sort meets the contract of \<open>std::sort\<close>.\<close>

fun insert_by :: "('a \<Rightarrow> 'a \<Rightarrow> bool) \<Rightarrow> 'a \<Rightarrow> 'a list \<Rightarrow> 'a list" where
  "insert_by lt x [] = [x]"
| "insert_by lt x (y # ys) = (if lt x y then x # y # ys else y # insert_by lt x ys)"

definition isort :: "('a \<Rightarrow> 'a \<Rightarrow> bool) \<Rightarrow> 'a list \<Rightarrow> 'a list" where
  "isort lt xs = foldr (insert_by lt) xs []"

lemma mset_insert_by [simp]: "mset (insert_by lt x ys) = add_mset x (mset ys)"
  by (induction ys) auto

lemma set_insert_by [simp]: "set (insert_by lt x ys) = insert x (set ys)"
  by (induction ys) auto

lemma sorted_insert_by:
  assumes "strict_weak lt A" "insert x (set ys) \<subseteq> A" "sorted_wrt (\<lambda>a b. \<not> lt b a) ys"
  shows "sorted_wrt (\<lambda>a b. \<not> lt b a) (insert_by lt x ys)"
  using assms(2,3)
proof (induction ys)
  case (Cons y ys)
  have tr: "lt a b \<Longrightarrow> lt b c \<Longrightarrow> lt a c" and ir: "\<not> lt a a" if "a \<in> A" "b \<in> A" "c \<in> A" for a b c
    using assms(1) that unfolding strict_weak_def by blast+
  have "\<not> lt z x" if "lt x y" "z \<in> insert y (set ys)" for z
    using that Cons.prems tr [of z x y] tr [of y x y] ir [of y] by auto
  then show ?case using Cons by auto
qed simp

lemma isort_ok: "std_sort_ok (isort :: ('a \<Rightarrow> 'a \<Rightarrow> bool) \<Rightarrow> 'a list \<Rightarrow> 'a list)"
proof -
  have "mset (isort lt xs) = mset xs \<and> sorted_wrt (\<lambda>a b. \<not> lt b a) (isort lt xs)"
    if "strict_weak lt A" "set xs \<subseteq> A" for lt :: "'a \<Rightarrow> 'a \<Rightarrow> bool" and xs A
    using that(2)
  proof (induction xs)
    case (Cons x xs)
    then have "set (isort lt xs) = set xs" by (metis mset_eq_setD insert_subset list.simps(15))
    then show ?case using Cons sorted_insert_by [OF that(1), of x "isort lt xs"] by (auto simp: isort_def)
  qed (simp add: isort_def)
  then show ?thesis by (auto simp: std_sort_ok_def)
qed

end
