(* ===== verification/Executor.thy ===== *)
theory Executor
  imports Catalog Parser Std_Sort
begin

text \<open>
  \<open>src/sql/executor.cpp\<close>: execution of SQL statements. The executor holds references to the engine and to the
  catalog, which holds a reference to the same engine, so its state is the catalog state. The handlers
  return the query result and the new state; \<open>None\<close> stands for undefined behaviour: a stored row that
  does not decode inside its buffer, a cast of a double that does not fit \<open>int64_t\<close>, an index out of range, a sort
  by a comparison that is no strict weak order on the rows. \<open>std::sort\<close> leaves the order of equivalent elements open and
  is an argument of \<open>SELECT\<close>; \<open>std_sort_ok\<close> is what the C++ standard promises of it.
\<close>

section \<open>Results and conversions\<close>

record QueryResult =
  qr_status :: Status
  qr_message :: string
  qr_column_names :: "string list"
  qr_rows :: "Value list list"

definition qr_ok :: "string \<Rightarrow> QueryResult" where
  "qr_ok msg = \<lparr>qr_status = OK, qr_message = msg, qr_column_names = [], qr_rows = []\<rparr>"

definition qr_error :: "string \<Rightarrow> QueryResult" where
  "qr_error msg = \<lparr>qr_status = INVALID_ARGUMENT, qr_message = msg, qr_column_names = [], qr_rows = []\<rparr>"

definition is_error :: "QueryResult \<Rightarrow> bool" where
  "is_error r \<longleftrightarrow> qr_status r \<noteq> OK"

type_synonym sorter = "(Value list \<Rightarrow> Value list \<Rightarrow> bool) \<Rightarrow> Value list list \<Rightarrow> Value list list"
type_synonym outcome = "(QueryResult \<times> Catalog) option"

text \<open>\<open>%010lld\<close>: the sign counts towards the width.\<close>

definition format_pk :: "Value \<Rightarrow> string" where
  "format_pk v =
     (if v_type v = CtINT then
        (let i = sint (int_val v)
         in if i < 0 then ''-'' @ zero_pad 9 (dec_digits (nat (- i))) else zero_pad 10 (dec_digits (nat i)))
      else value_to_string v)"

definition coerce_value :: "Value \<Rightarrow> ColumnType \<Rightarrow> Value option" where
  "coerce_value v target =
     (if is_null v then Some (make_null target)
      else if v_type v = target then Some v
      else if v_type v = CtINT \<and> target = CtFLOAT then Some (make_float (i64_to_f64 (int_val v)))
      else if v_type v = CtFLOAT \<and> target = CtINT then map_option make_int (f64_to_i64 (float_val v))
      else if v_type v = CtTEXT \<and> target = CtINT then
        (case stoll (text_val v) of Some i \<Rightarrow> Some (make_int i) | None \<Rightarrow> Some v)
      else if v_type v = CtTEXT \<and> target = CtFLOAT then
        (case stod (text_val v) of Some f \<Rightarrow> Some (make_float f) | None \<Rightarrow> Some v)
      else if target = CtTEXT then Some (make_text (value_to_string v))
      else Some v)"

section \<open>Conditions\<close>

definition evaluate_condition :: "Condition \<Rightarrow> TableSchema \<Rightarrow> Value list \<Rightarrow> bool option" where
  "evaluate_condition cond schema row =
     (let i = find_column schema (cond_column cond)
      in if i < 0 \<or> int (length row) \<le> i then Some False
         else do {
           let cell = row ! nat i;
           v \<leftarrow> coerce_value (cond_value cond) (v_type cell);
           Some (case cond_op cond of
               EQ \<Rightarrow> compare_eq cell v
             | NE \<Rightarrow> \<not> compare_eq cell v
             | LT \<Rightarrow> compare_lt cell v
             | GT \<Rightarrow> compare_gt cell v
             | LE \<Rightarrow> compare_eq cell v \<or> compare_lt cell v
             | GE \<Rightarrow> compare_eq cell v \<or> compare_gt cell v) })"

fun where_ops :: "LogicOp list \<Rightarrow> Condition list \<Rightarrow> TableSchema \<Rightarrow> Value list \<Rightarrow> bool \<Rightarrow> bool option" where
  "where_ops [] cs schema row result = Some result"
| "where_ops (op # ops) [] schema row result = None"
| "where_ops (op # ops) (c # cs) schema row result = do {
     next \<leftarrow> evaluate_condition c schema row;
     where_ops ops cs schema row (case op of LogicAND \<Rightarrow> result \<and> next | LogicOR \<Rightarrow> result \<or> next) }"

definition evaluate_where :: "WhereClause \<Rightarrow> TableSchema \<Rightarrow> Value list \<Rightarrow> bool option" where
  "evaluate_where wc schema row =
     (case conditions wc of
        [] \<Rightarrow> Some True
      | c # cs \<Rightarrow> do { result \<leftarrow> evaluate_condition c schema row; where_ops (logic_ops wc) cs schema row result })"

text \<open>\<open>key.find(":row:") != npos\<close>\<close>

fun contains_sub :: "string \<Rightarrow> string \<Rightarrow> bool" where
  "contains_sub pat s \<longleftrightarrow> take (length pat) s = pat \<or> (case s of [] \<Rightarrow> False | _ # r \<Rightarrow> contains_sub pat r)"

declare contains_sub.simps [simp del]

text \<open>The loop over the scanned entries that the row statements share: the rows that match, with their keys.\<close>

fun matching_rows :: "WhereClause \<Rightarrow> TableSchema \<Rightarrow> (string \<times> string) list \<Rightarrow> (string \<times> Value list) list option" where
  "matching_rows wc schema [] = Some []"
| "matching_rows wc schema ((key, data) # kvs) =
     (if \<not> contains_sub '':row:'' key then matching_rows wc schema kvs
      else do {
        row \<leftarrow> row_deserialize schema data;
        hit \<leftarrow> (if conditions wc \<noteq> [] then evaluate_where wc schema row else Some True);
        rest \<leftarrow> matching_rows wc schema kvs;
        Some (if hit then (key, row) # rest else rest) })"

definition table_scan :: "Catalog \<Rightarrow> string \<Rightarrow> (string \<times> string) list" where
  "table_scan c t = engine_scan (cat_engine c) (row_key_prefix t) (row_key_prefix_end t)"

definition no_table :: "string \<Rightarrow> QueryResult" where
  "no_table t = qr_error (''Table '' @ quote_value t @ '' does not exist'')"

section \<open>Statements on tables\<close>

definition exec_create_table :: "Catalog \<Rightarrow> CreateTableStmt \<Rightarrow> outcome" where
  "exec_create_table c stmt =
     (if ct_table_name stmt = [] then Some (qr_error ''Table name cannot be empty'', c)
      else if ct_columns stmt = [] then Some (qr_error ''Table must have at least one column'', c)
      else if ct_primary_key stmt = [] then Some (qr_error ''Table must have a PRIMARY KEY'', c)
      else case create_table c \<lparr>table_name = ct_table_name stmt, columns = ct_columns stmt, primary_key = ct_primary_key stmt\<rparr> of
        (s, c1) \<Rightarrow>
          if s = INVALID_ARGUMENT then Some (qr_error (''Table '' @ quote_value (ct_table_name stmt) @ '' already exists''), c1)
          else if s \<noteq> OK then Some (qr_error (''Failed to create table: '' @ status_to_string s), c1)
          else Some (qr_ok (''Table '' @ quote_value (ct_table_name stmt) @ '' created.''), c1))"

definition exec_drop_table :: "Catalog \<Rightarrow> DropTableStmt \<Rightarrow> outcome" where
  "exec_drop_table c stmt =
     (if \<not> table_exists c (dt_table_name stmt) then
        (if dt_if_exists stmt then Some (qr_ok ''OK'', c) else Some (no_table (dt_table_name stmt), c))
      else case drop_table c (dt_table_name stmt) of
        (s, c1) \<Rightarrow>
          if s \<noteq> OK then Some (qr_error (''Failed to drop table: '' @ status_to_string s), c1)
          else Some (qr_ok (''Table '' @ quote_value (dt_table_name stmt) @ '' dropped.''), c1))"

definition exec_show_tables :: "Catalog \<Rightarrow> outcome" where
  "exec_show_tables c =
     (let tables = sort (list_tables c)
      in Some (\<lparr>qr_status = OK, qr_message = dec_digits (length tables) @ '' table(s).'',
                qr_column_names = [''table_name''], qr_rows = map (\<lambda>t. [make_text t]) tables\<rparr>, c))"

definition describe_row :: "ColumnDef \<Rightarrow> Value list" where
  "describe_row col =
     [make_text (col_name col), make_text (column_type_to_string (col_type col)),
      make_text (if not_null col then ''YES'' else ''NO''), make_text (if is_primary_key col then ''YES'' else ''NO'')]"

definition exec_describe :: "Catalog \<Rightarrow> string \<Rightarrow> outcome" where
  "exec_describe c t =
     (case get_schema c t of
        (None, c1) \<Rightarrow> Some (no_table t, c1)
      | (Some schema, c1) \<Rightarrow>
          Some (\<lparr>qr_status = OK, qr_message = dec_digits (length (columns schema)) @ '' column(s).'',
                 qr_column_names = [''column_name'', ''type'', ''not_null'', ''primary_key''],
                 qr_rows = map describe_row (columns schema)\<rparr>, c1))"

section \<open>Statements on rows\<close>

text \<open>
  The loop of \<open>INSERT\<close> over the named columns: the row in schema order, and the value of the primary key once
  one is given (\<open>has_pk\<close>); the left side of the sum is the message of an early return.
\<close>

fun place_values :: "string \<Rightarrow> TableSchema \<Rightarrow> (string \<times> Value) list \<Rightarrow> Value list \<Rightarrow> Value option
    \<Rightarrow> (string + Value list \<times> Value option) option" where
  "place_values t schema [] row pk = Some (Inr (row, pk))"
| "place_values t schema ((col, v) # rest) row pk =
     (let i = find_column schema col
      in if i < 0 then Some (Inl (''Unknown column '' @ quote_value col @ '' in table '' @ quote_value t))
         else do {
           x \<leftarrow> coerce_value v (col_type (columns schema ! nat i));
           place_values t schema rest (row[nat i := x]) (if col = primary_key schema then Some x else pk) })"

definition null_violation :: "TableSchema \<Rightarrow> Value list \<Rightarrow> string option" where
  "null_violation schema row =
     map_option (\<lambda>(col, v). col_name col) (find (\<lambda>(col, v). not_null col \<and> is_null v) (zip (columns schema) row))"

text \<open>The last part of \<open>INSERT\<close>: refuse a primary key that is there, else store the row.\<close>

definition store_row :: "Catalog \<Rightarrow> TableSchema \<Rightarrow> string \<Rightarrow> Value list \<Rightarrow> Value \<Rightarrow> QueryResult \<times> Catalog" where
  "store_row c schema t row pk =
     (let kv_key = row_key t (format_pk pk)
      in if fst (engine_get (cat_engine c) kv_key) = OK then
           (qr_error (''Duplicate PRIMARY KEY value: '' @ value_to_string pk), c)
         else case engine_put (cat_engine c) kv_key (row_serialize schema row) of
           (s, e1) \<Rightarrow>
             if s \<noteq> OK then (qr_error (''Failed to insert row: '' @ status_to_string s), c\<lparr>cat_engine := e1\<rparr>)
             else (qr_ok ''1 row inserted.'', c\<lparr>cat_engine := e1\<rparr>))"

text \<open>What \<open>INSERT\<close> does with the placed row: the NOT NULL constraints, a generated key if none is given, the store.\<close>

definition finish_insert :: "Catalog \<Rightarrow> TableSchema \<Rightarrow> string \<Rightarrow> Value list \<Rightarrow> Value option \<Rightarrow> QueryResult \<times> Catalog" where
  "finish_insert c schema t row pk =
     (case null_violation schema row of
        Some col \<Rightarrow> (qr_error (''Column '' @ quote_value col @ '' cannot be NULL''), c)
      | None \<Rightarrow>
          (case pk of
             Some pk_value \<Rightarrow> store_row c schema t row pk_value
           | None \<Rightarrow>
               let pk_idx = find_column schema (primary_key schema)
               in if 0 \<le> pk_idx \<and> col_type (columns schema ! nat pk_idx) = CtINT then
                    (case next_row_id c t of
                       (rid, c1) \<Rightarrow> store_row c1 schema t (row[nat pk_idx := make_int rid]) (make_int rid))
                  else (qr_error (''PRIMARY KEY '' @ quote_value (primary_key schema) @ '' value required''), c)))"

definition exec_insert :: "Catalog \<Rightarrow> InsertStmt \<Rightarrow> outcome" where
  "exec_insert c stmt =
     (let t = ins_table_name stmt
      in case get_schema c t of
        (None, c1) \<Rightarrow> Some (no_table t, c1)
      | (Some schema, c1) \<Rightarrow>
          let cols = (if ins_columns stmt = [] then map col_name (columns schema) else ins_columns stmt)
          in if length cols \<noteq> length (ins_values stmt) then
               Some (qr_error (''Column count ('' @ dec_digits (length cols) @ '') doesn'' @ [CHR 0x27] @ ''t match value count (''
                 @ dec_digits (length (ins_values stmt)) @ '')''), c1)
             else do {
               row_pk \<leftarrow> place_values t schema (zip cols (ins_values stmt)) (map (\<lambda>col. make_null (col_type col)) (columns schema)) None;
               Some (case row_pk of
                   Inl msg \<Rightarrow> (qr_error msg, c1)
                 | Inr (row, pk) \<Rightarrow> finish_insert c1 schema t row pk) })"

text \<open>The columns of \<open>SELECT\<close>: their places in a row and their names.\<close>

fun select_indices :: "TableSchema \<Rightarrow> string list \<Rightarrow> string + nat list" where
  "select_indices schema [] = Inr []"
| "select_indices schema (name # names) =
     (let i = find_column schema name
      in if i < 0 then Inl (''Unknown column '' @ quote_value name)
         else case select_indices schema names of Inl e \<Rightarrow> Inl e | Inr js \<Rightarrow> Inr (nat i # js))"

definition project :: "nat list \<Rightarrow> Value list \<Rightarrow> Value list" where
  "project indices row = map (\<lambda>i. if i < length row then row ! i else make_null CtTEXT) indices"

definition order_before :: "nat \<Rightarrow> bool \<Rightarrow> Value list \<Rightarrow> Value list \<Rightarrow> bool" where
  "order_before i desc a b = (if desc then compare_gt (a ! i) (b ! i) else compare_lt (a ! i) (b ! i))"

fun index_of :: "string \<Rightarrow> string list \<Rightarrow> nat option" where
  "index_of x [] = None"
| "index_of x (y # ys) = (if y = x then Some 0 else map_option Suc (index_of x ys))"

text \<open>\<open>std::sort\<close>, whose behaviour is defined for a comparison that is a strict weak order on the elements.\<close>

definition sort_rows :: "sorter \<Rightarrow> (Value list \<Rightarrow> Value list \<Rightarrow> bool) \<Rightarrow> Value list list \<Rightarrow> Value list list option" where
  "sort_rows std_sort lt rows = (if strict_weak lt (set rows) then Some (std_sort lt rows) else None)"

text \<open>The end of \<open>SELECT\<close>: ordering, limit and the answer.\<close>

definition finish_select :: "sorter \<Rightarrow> SelectStmt \<Rightarrow> string list \<Rightarrow> Value list list \<Rightarrow> QueryResult option" where
  "finish_select std_sort stmt names rows = do {
     ordered \<leftarrow> (if sel_order_by stmt = [] then Some (Inr rows)
       else case index_of (sel_order_by stmt) names of
              None \<Rightarrow> Some (Inl (''ORDER BY column '' @ quote_value (sel_order_by stmt) @ '' must be in SELECT list''))
            | Some i \<Rightarrow> map_option Inr (sort_rows std_sort (order_before i (sel_order_desc stmt)) rows));
     Some (case ordered of
        Inl e \<Rightarrow> qr_error e
      | Inr rows \<Rightarrow>
          let rows = (if 0 \<le> sel_limit stmt \<and> nat (sel_limit stmt) < length rows
                      then take (nat (sel_limit stmt)) rows else rows)
          in \<lparr>qr_status = OK, qr_message = dec_digits (length rows) @ '' row(s) returned.'',
              qr_column_names = names, qr_rows = rows\<rparr>) }"

definition exec_select :: "sorter \<Rightarrow> Catalog \<Rightarrow> SelectStmt \<Rightarrow> outcome" where
  "exec_select std_sort c stmt =
     (let t = sel_table_name stmt
      in case get_schema c t of
        (None, c1) \<Rightarrow> Some (no_table t, c1)
      | (Some schema, c1) \<Rightarrow>
          let names = (if sel_all stmt \<or> sel_columns stmt = [] then map col_name (columns schema) else sel_columns stmt);
              indices = (if sel_all stmt \<or> sel_columns stmt = [] then Inr [0..<length (columns schema)]
                         else select_indices schema names)
          in case indices of
               Inl e \<Rightarrow> Some (qr_error e, c1)
             | Inr indices \<Rightarrow> do {
                 hits \<leftarrow> matching_rows (sel_where stmt) schema (table_scan c1 t);
                 r \<leftarrow> finish_select std_sort stmt names (map (\<lambda>(key, row). project indices row) hits);
                 Some (r, c1) })"

text \<open>\<open>UPDATE\<close>: the assignments to one row, then the loop over the scanned entries with the writes in it.\<close>

fun assign_row :: "TableSchema \<Rightarrow> Assignment list \<Rightarrow> Value list \<Rightarrow> (string + Value list) option" where
  "assign_row schema [] row = Some (Inr row)"
| "assign_row schema (a # as) row =
     (let i = find_column schema (asg_column a)
      in if i < 0 then Some (Inl (''Unknown column '' @ quote_value (asg_column a)))
         else do {
           x \<leftarrow> coerce_value (asg_value a) (col_type (columns schema ! nat i));
           if nat i < length row then assign_row schema as (row[nat i := x]) else None })"

fun update_loop :: "TableSchema \<Rightarrow> UpdateStmt \<Rightarrow> (string \<times> string) list \<Rightarrow> nat \<Rightarrow> StorageEngine
    \<Rightarrow> (QueryResult \<times> StorageEngine) option" where
  "update_loop schema stmt [] updated e = Some (qr_ok (dec_digits updated @ '' row(s) updated.''), e)"
| "update_loop schema stmt ((key, data) # kvs) updated e =
     (if \<not> contains_sub '':row:'' key then update_loop schema stmt kvs updated e
      else do {
        row \<leftarrow> row_deserialize schema data;
        hit \<leftarrow> (if conditions (upd_where stmt) \<noteq> [] then evaluate_where (upd_where stmt) schema row else Some True);
        if \<not> hit then update_loop schema stmt kvs updated e
        else do {
          new \<leftarrow> assign_row schema (upd_assignments stmt) row;
          (case new of
             Inl msg \<Rightarrow> Some (qr_error msg, e)
           | Inr row' \<Rightarrow> update_loop schema stmt kvs (updated + 1) (snd (engine_put e key (row_serialize schema row')))) } })"

definition exec_update :: "Catalog \<Rightarrow> UpdateStmt \<Rightarrow> outcome" where
  "exec_update c stmt =
     (let t = upd_table_name stmt
      in case get_schema c t of
        (None, c1) \<Rightarrow> Some (no_table t, c1)
      | (Some schema, c1) \<Rightarrow> do {
          (r, e) \<leftarrow> update_loop schema stmt (table_scan c1 t) 0 (cat_engine c1);
          Some (r, c1\<lparr>cat_engine := e\<rparr>) })"

definition exec_delete :: "Catalog \<Rightarrow> DeleteStmt \<Rightarrow> outcome" where
  "exec_delete c stmt =
     (let t = del_table_name stmt
      in case get_schema c t of
        (None, c1) \<Rightarrow> Some (no_table t, c1)
      | (Some schema, c1) \<Rightarrow> do {
          hits \<leftarrow> matching_rows (del_where stmt) schema (table_scan c1 t);
          let keys = map fst hits;
          Some (qr_ok (dec_digits (length keys) @ '' row(s) deleted.''),
                c1\<lparr>cat_engine := fold remove_ignoring keys (cat_engine c1)\<rparr>) })"

section \<open>The entry points\<close>

text \<open>No exception leaves the handlers: the conversions that may throw catch it themselves.\<close>

definition execute :: "sorter \<Rightarrow> Catalog \<Rightarrow> Statement \<Rightarrow> outcome" where
  "execute std_sort c stmt =
     (case stmt of
        CreateTable s \<Rightarrow> exec_create_table c s
      | DropTable s \<Rightarrow> exec_drop_table c s
      | Insert s \<Rightarrow> exec_insert c s
      | Select s \<Rightarrow> exec_select std_sort c s
      | Update s \<Rightarrow> exec_update c s
      | Delete s \<Rightarrow> exec_delete c s
      | ShowTables \<Rightarrow> exec_show_tables c
      | Describe t \<Rightarrow> exec_describe c t)"

definition execute_sql :: "sorter \<Rightarrow> Catalog \<Rightarrow> string \<Rightarrow> outcome" where
  "execute_sql std_sort c sql =
     (case sql_parse sql of
        Inl e \<Rightarrow> Some (qr_error (''Parse error: '' @ e), c)
      | Inr stmt \<Rightarrow> execute std_sort c stmt)"

end
