(* ===== verification/Executor_Correct.thy ===== *)
theory Executor_Correct
  imports Executor
begin

text \<open>
  What SQL statements do to a table. The abstract table is the map from the text of a primary key to the row
  that is stored under it; the handlers of the executor implement \<open>INSERT\<close>, \<open>UPDATE\<close>, \<open>DELETE\<close> and \<open>SELECT\<close> on it.
\<close>

section \<open>Tables as maps\<close>

definition row_ok :: "TableSchema \<Rightarrow> Value list \<Rightarrow> bool" where
  "row_ok schema row \<longleftrightarrow> length row = length (columns schema) \<and> list_all value_ok row"

text \<open>The state of a table: the catalog invariant, and every stored row is the encoding of a row of the schema.\<close>

definition table_ok :: "nat \<Rightarrow> Catalog \<Rightarrow> TableSchema \<Rightarrow> bool" where
  "table_ok n c schema \<longleftrightarrow> catalog_ok n c \<and> map_of (cache c) (table_name schema) = Some schema
     \<and> (\<forall>pk d. view (cat_engine c) (row_key (table_name schema) pk) = Some d \<longrightarrow>
          (\<exists>row. d = row_serialize schema row \<and> row_ok schema row))"

definition table_map :: "Catalog \<Rightarrow> TableSchema \<Rightarrow> string \<rightharpoonup> Value list" where
  "table_map c schema pk = Option.bind (view (cat_engine c) (row_key (table_name schema) pk)) (row_deserialize schema)"

text \<open>
  Scans end at the marker \<open>'~'\<close>: the rows they reach are those whose key sorts up to it. A row stored under a key that starts
  with \<open>'~'\<close> and goes on, or with a byte outside ASCII, is in the table and is not reached by any statement.
\<close>

definition scan_map :: "Catalog \<Rightarrow> TableSchema \<Rightarrow> string \<rightharpoonup> Value list" where
  "scan_map c schema pk = (if pk \<le> ''~'' then table_map c schema pk else None)"

text \<open>The rows a scan reaches as a list in key order.\<close>

definition table_list :: "Catalog \<Rightarrow> TableSchema \<Rightarrow> (string \<times> Value list) list" where
  "table_list c schema =
     map (\<lambda>(k, d). (drop (length (row_key_prefix (table_name schema))) k, the (row_deserialize schema d)))
       (table_scan c (table_name schema))"

definition enc_row :: "TableSchema \<Rightarrow> string \<times> Value list \<Rightarrow> string \<times> string" where
  "enc_row schema x = (row_key (table_name schema) (fst x), row_serialize schema (snd x))"

lemma row_key_inj [simp]: "row_key t p = row_key t q \<longleftrightarrow> p = q"
  by (simp add: row_key_def)

lemma row_key_less [simp]: "row_key t p < row_key t q \<longleftrightarrow> p < q"
  by (simp add: row_key_def append_less_append [of "TABLE_PREFIX @ t @ '':row:''", simplified])

lemma row_key_drop [simp]: "drop (length (row_key_prefix t)) (row_key t pk) = pk"
  by (simp add: row_key_def row_key_prefix_def)

lemma contains_row [simp]: "contains_sub '':row:'' (row_key t pk)"
proof -
  have "contains_sub pat (xs @ pat @ ys)" for pat xs ys
    by (induction xs) (subst contains_sub.simps, simp)+
  from this [of "'':row:''" "TABLE_PREFIX @ t" pk] show ?thesis by (simp add: row_key_def)
qed

lemma table_ok_schema: "table_ok n c schema \<Longrightarrow> schema_ok schema \<and> engine_ok n (cat_engine c) \<and> get_schema c (table_name schema) = (Some schema, c)"
  by (auto simp: table_ok_def catalog_ok_def get_schema_def)

lemma row_decode: "schema_ok schema \<Longrightarrow> row_ok schema row \<Longrightarrow> row_deserialize schema (row_serialize schema row) = Some row"
  by (rule row_deserialize_serialize) (auto simp: row_ok_def schema_ok_def)

lemma scan_entry:
  assumes ok: "table_ok n c schema" and x: "(k, d) \<in> set (table_scan c (table_name schema))"
  obtains pk row where "k = row_key (table_name schema) pk" "pk \<le> ''~''" "d = row_serialize schema row" "row_ok schema row"
    "view (cat_engine c) k = Some d"
proof -
  let ?t = "table_name schema"
  have e: "engine_ok n (cat_engine c)" using table_ok_schema [OF ok] by simp
  have "map_of (table_scan c ?t) k = Some d"
    unfolding table_scan_def using x engine_kv.scan_sorted [OF e] by (simp add: smap_wf_distinct table_scan_def)
  then have r: "row_key_prefix ?t \<le> k \<and> k \<le> row_key_prefix_end ?t" and v: "view (cat_engine c) k = Some d"
    by (auto simp: table_scan_def engine_kv.scan_law [OF e] split: if_splits)
  obtain pk where pk: "k = row_key ?t pk" "pk \<le> ''~''" using r row_range by blast
  moreover obtain row where "d = row_serialize schema row" "row_ok schema row"
    using ok v pk(1) by (auto simp: table_ok_def)
  ultimately show ?thesis using that v by blast
qed

lemma table_scan_list:
  assumes ok: "table_ok n c schema"
  shows "table_scan c (table_name schema) = map (enc_row schema) (table_list c schema)"
    and "\<forall>(pk, row) \<in> set (table_list c schema). row_ok schema row"
proof -
  have s: "schema_ok schema" using table_ok_schema [OF ok] by simp
  define dec where "dec = (\<lambda>(k :: string, d). (drop (length (row_key_prefix (table_name schema))) k, the (row_deserialize schema d)))"
  have d: "enc_row schema (dec x) = x \<and> row_ok schema (snd (dec x))" if "x \<in> set (table_scan c (table_name schema))" for x
  proof -
    obtain k d where x: "x = (k, d)" by (cases x)
    from scan_entry [OF ok that [unfolded x]] obtain pk row where "k = row_key (table_name schema) pk"
      "d = row_serialize schema row" "row_ok schema row" .
    then show ?thesis using row_decode [OF s] by (simp add: x dec_def enc_row_def)
  qed
  have l: "table_list c schema = map dec (table_scan c (table_name schema))" by (simp add: table_list_def dec_def)
  have "map (\<lambda>x. enc_row schema (dec x)) (table_scan c (table_name schema)) = table_scan c (table_name schema)"
    using d by (intro map_idI) simp
  then show "table_scan c (table_name schema) = map (enc_row schema) (table_list c schema)" by (simp add: l comp_def)
  show "\<forall>(pk, row) \<in> set (table_list c schema). row_ok schema row" using d by (simp add: l split_beta)
qed

lemma map_of_enc_row: "map_of (map (enc_row schema) xs) (row_key (table_name schema) pk) = map_option (row_serialize schema) (map_of xs pk)"
  by (induction xs) (auto simp: enc_row_def)

lemma table_list_map:
  assumes ok: "table_ok n c schema"
  shows "smap_wf (table_list c schema)" "map_of (table_list c schema) = scan_map c schema"
proof -
  let ?L = "table_list c schema" and ?t = "table_name schema"
  have e: "engine_ok n (cat_engine c)" and s: "schema_ok schema" using table_ok_schema [OF ok] by simp_all
  note L = table_scan_list [OF ok]
  have wf: "smap_wf (map (enc_row schema) ?L)"
    unfolding L(1) [symmetric] table_scan_def by (rule engine_kv.scan_sorted [OF e])
  have "map fst (map (enc_row schema) ?L) = map (row_key ?t) (map fst ?L)" by (simp add: enc_row_def)
  then have "sorted_wrt (\<lambda>x y. row_key ?t x < row_key ?t y) (map fst ?L)"
    using wf unfolding smap_wf_def by (simp only: sorted_wrt_map)
  then show w: "smap_wf ?L" by (simp add: smap_wf_def)
  show "map_of ?L = scan_map c schema"
  proof
    fix pk
    have r: "row_key_prefix ?t \<le> row_key ?t pk \<and> row_key ?t pk \<le> row_key_prefix_end ?t \<longleftrightarrow> pk \<le> ''~''"
      using row_range [of ?t "row_key ?t pk"] by auto
    have m: "map_option (row_serialize schema) (map_of ?L pk) = (if pk \<le> ''~'' then view (cat_engine c) (row_key ?t pk) else None)"
      using r engine_kv.scan_law [OF e, of "row_key_prefix ?t" "row_key_prefix_end ?t" "row_key ?t pk"]
      unfolding map_of_enc_row [symmetric] L(1) [symmetric] table_scan_def by simp
    show "map_of ?L pk = scan_map c schema pk"
    proof (cases "map_of ?L pk")
      case None
      then show ?thesis using m by (auto simp: scan_map_def table_map_def split: if_splits)
    next
      case (Some row)
      then have "row_ok schema row" using L(2) map_of_SomeD [of ?L pk row] by auto
      then show ?thesis using m Some row_decode [OF s] by (auto simp: scan_map_def table_map_def split: if_splits) (metis bind.bind_lunit)
    qed
  qed
qed

section \<open>The loop over the rows\<close>

definition hits :: "WhereClause \<Rightarrow> TableSchema \<Rightarrow> Value list \<Rightarrow> bool" where
  "hits wc schema row \<longleftrightarrow> evaluate_where wc schema row = Some True"

lemma where_shortcut: "(if conditions wc \<noteq> [] then evaluate_where wc schema row else Some True) = evaluate_where wc schema row"
  by (simp add: evaluate_where_def)

lemma matching_rows_list:
  assumes "\<forall>(pk, row) \<in> set xs. row_ok schema row" "schema_ok schema" "matching_rows wc schema (map (enc_row schema) xs) = Some hs"
  shows "hs = map (\<lambda>(pk, row). (row_key (table_name schema) pk, row)) (filter (\<lambda>(pk, row). hits wc schema row) xs)"
    and "\<forall>(pk, row) \<in> set xs. evaluate_where wc schema row \<noteq> None"
proof -
  have "hs = map (\<lambda>(pk, row). (row_key (table_name schema) pk, row)) (filter (\<lambda>(pk, row). hits wc schema row) xs)
    \<and> (\<forall>(pk, row) \<in> set xs. evaluate_where wc schema row \<noteq> None)"
    using assms(1,3)
  proof (induction xs arbitrary: hs)
    case (Cons x xs)
    obtain pk row where x: "x = (pk, row)" by (cases x)
    have "row_deserialize schema (row_serialize schema row) = Some row"
      using Cons.prems(1) row_decode [OF assms(2)] by (simp add: x)
    then obtain hit rest where "evaluate_where wc schema row = Some hit"
      "matching_rows wc schema (map (enc_row schema) xs) = Some rest"
      "hs = (if hit then (row_key (table_name schema) pk, row) # rest else rest)"
      using Cons.prems(2) unfolding x list.map enc_row_def [of schema "(pk, row)"]
      by (auto simp: where_shortcut bind_eq_Some_conv)
    with Cons show ?case by (auto simp: x hits_def)
  qed simp
  then show "hs = map (\<lambda>(pk, row). (row_key (table_name schema) pk, row)) (filter (\<lambda>(pk, row). hits wc schema row) xs)"
    "\<forall>(pk, row) \<in> set xs. evaluate_where wc schema row \<noteq> None" by simp_all
qed

section \<open>Keeping the table invariant\<close>

text \<open>A state whose store differs only in rows of the table that still decode keeps the invariant.\<close>

lemma row_key_not_catalog [simp]: "row_key t pk \<noteq> catalog_key u" "catalog_key u \<noteq> row_key t pk"
  using key_kinds by auto

lemma table_ok_step:
  assumes ok: "table_ok m c schema" and e: "engine_ok n e"
    and other: "\<And>k. \<forall>pk. k \<noteq> row_key (table_name schema) pk \<Longrightarrow> view e k = view (cat_engine c) k"
    and rows: "\<And>pk d. view e (row_key (table_name schema) pk) = Some d \<Longrightarrow> \<exists>row. d = row_serialize schema row \<and> row_ok schema row"
  shows "table_ok n (c\<lparr>cat_engine := e\<rparr>) schema"
proof -
  have "view e (catalog_key u) = view (cat_engine c) (catalog_key u)" for u by (rule other) simp
  then show ?thesis using ok e rows by (auto simp: table_ok_def catalog_ok_def)
qed

lemma small_row: "table_ok n c schema \<Longrightarrow> map_of (table_list c schema) pk = Some row \<Longrightarrow>
    small_entry (row_key (table_name schema) pk, None)"
proof -
  assume ok: "table_ok n c schema" and pk: "map_of (table_list c schema) pk = Some row"
  have "scan_map c schema pk = Some row" using pk table_list_map [OF ok] by simp
  then obtain d where "view (cat_engine c) (row_key (table_name schema) pk) = Some d"
    by (auto simp: scan_map_def table_map_def bind_eq_Some_conv split: if_splits)
  then show ?thesis using view_small table_ok_schema [OF ok] by blast
qed

lemma table_list_mem: "table_ok n c schema \<Longrightarrow> (pk, row) \<in> set (table_list c schema) \<longleftrightarrow> scan_map c schema pk = Some row"
  using table_list_map smap_wf_distinct by (metis map_of_eq_Some_iff)

definition hit_keys :: "Catalog \<Rightarrow> TableSchema \<Rightarrow> WhereClause \<Rightarrow> string set" where
  "hit_keys c schema wc = {pk. pk \<le> ''~'' \<and> (\<exists>row. table_map c schema pk = Some row \<and> hits wc schema row)}"

lemma hit_keys_scan: "hit_keys c schema wc = {pk. \<exists>row. scan_map c schema pk = Some row \<and> hits wc schema row}"
  by (auto simp: hit_keys_def scan_map_def)

lemma count_hits:
  assumes "table_ok n c schema"
  shows "length (filter (\<lambda>(pk, row). hits wc schema row) (table_list c schema)) = card (hit_keys c schema wc)"
proof -
  let ?H = "filter (\<lambda>(pk, row). hits wc schema row) (table_list c schema)"
  have "length ?H = card (fst ` set ?H)"
    using smap_wf_distinct [OF smap_wf_filter [OF table_list_map(1) [OF assms]], of "\<lambda>(pk, row). hits wc schema row"]
    by (metis distinct_card length_map list.set_map)
  moreover have "fst ` set ?H = hit_keys c schema wc"
    using table_list_mem [OF assms] by (force simp: hit_keys_scan)
  ultimately show ?thesis by simp
qed

section \<open>DELETE\<close>

lemma exec_delete_ok:
  assumes ok: "table_ok (length (table_list c schema) + n) c schema" and t: "del_table_name stmt = table_name schema"
    and run: "exec_delete c stmt = Some (r, c')"
  shows "table_ok n c' schema"
    and "view (cat_engine c') = (\<lambda>k. if k \<in> row_key (table_name schema) ` hit_keys c schema (del_where stmt) then None else view (cat_engine c) k)"
    and "r = qr_ok (dec_digits (card (hit_keys c schema (del_where stmt))) @ '' row(s) deleted.'')"
proof -
  let ?t = "table_name schema" and ?L = "table_list c schema"
  let ?H = "filter (\<lambda>(pk, row). hits (del_where stmt) schema row) ?L"
  note L = table_scan_list [OF ok] and M = table_list_map [OF ok] and S = table_ok_schema [OF ok]
  obtain hs where hs: "matching_rows (del_where stmt) schema (map (enc_row schema) ?L) = Some hs"
    "r = qr_ok (dec_digits (length hs) @ '' row(s) deleted.'')" "c' = c\<lparr>cat_engine := fold remove_ignoring (map fst hs) (cat_engine c)\<rparr>"
    using run S by (auto simp: exec_delete_def t L(1) bind_eq_Some_conv)
  define ks where "ks = map (\<lambda>(pk, row). row_key ?t pk) ?H"
  have hs': "map fst hs = ks" "length hs = length ?H"
    using matching_rows_list(1) [OF L(2) _ hs(1)] S by (simp_all add: ks_def comp_def split_beta)
  note mem = table_list_mem [OF ok]
  have small: "\<forall>k \<in> set ks. k \<noteq> [] \<and> small_entry (k, None)"
    using small_row [OF ok] M(2) mem by (auto simp: ks_def)
  have len: "length ks \<le> length ?L" by (simp add: ks_def)
  then have "engine_ok (length ks + n) (cat_engine c)" using S engine_ok_mono by (metis add_le_mono1)
  note rem = engine_kv.remove_all [OF this small]
  have f: "cat_engine c' = fold (\<lambda>k e. snd (engine_remove e k)) ks (cat_engine c)"
    by (simp add: hs(3) hs'(1) remove_ignoring_def [abs_def])
  have kset: "k \<in> set ks \<longleftrightarrow> k \<in> row_key ?t ` hit_keys c schema (del_where stmt)" for k
    using mem by (auto simp: ks_def hit_keys_scan)
  show v: "view (cat_engine c') = (\<lambda>k. if k \<in> row_key ?t ` hit_keys c schema (del_where stmt) then None else view (cat_engine c) k)"
    using rem unfolding f kset by simp
  have "table_ok n (c\<lparr>cat_engine := cat_engine c'\<rparr>) schema"
  proof (rule table_ok_step [OF ok])
    show "engine_ok n (cat_engine c')" using rem by (simp add: f)
    show "view (cat_engine c') k = view (cat_engine c) k" if "\<forall>pk. k \<noteq> row_key ?t pk" for k using that by (auto simp: v)
    show "\<exists>row. d = row_serialize schema row \<and> row_ok schema row" if "view (cat_engine c') (row_key ?t pk) = Some d" for pk d
      using that ok by (auto simp: v table_ok_def split: if_splits)
  qed
  then show "table_ok n c' schema" using hs(3) by simp
  show "r = qr_ok (dec_digits (card (hit_keys c schema (del_where stmt))) @ '' row(s) deleted.'')"
    using hs(2) hs'(2) count_hits [OF ok] by simp
qed

section \<open>Values and columns\<close>

text \<open>A value as the makers build it, whatever the length of its text.\<close>

definition value_shape :: "Value \<Rightarrow> bool" where
  "value_shape v \<longleftrightarrow> (is_null v \<and> known_type (v_type v) \<and> v = make_null (v_type v)) \<or> v = make_int (int_val v)
     \<or> v = make_float (float_val v) \<or> v = make_text (text_val v) \<or> v = make_bool (bool_val v)"

lemma value_shape_makers [simp]:
  "value_shape (make_int i)" "value_shape (make_float f)" "value_shape (make_text t)" "value_shape (make_bool b)"
  "known_type ty \<Longrightarrow> value_shape (make_null ty)"
  by (simp_all add: value_shape_def value_makers)

lemma value_ok_shape:
  "value_ok v \<longleftrightarrow> value_shape v \<and> (v_type v = CtTEXT \<and> \<not> is_null v \<longrightarrow> length (text_val v) < 2 ^ 32)"
  by (cases v) (auto simp: value_ok_def value_shape_def value_makers known_type_def)

lemma coerce_value_shape: "coerce_value v t = Some x \<Longrightarrow> value_shape v \<Longrightarrow> known_type t \<Longrightarrow> value_shape x"
  by (auto simp: coerce_value_def split: if_splits option.splits)

lemma text_in_row:
  assumes "v \<in> set row" "v_type v = CtTEXT" "\<not> is_null v"
  shows "length (text_val v) \<le> length (row_serialize schema row)"
proof -
  have "length (text_val v) \<le> length (value_bytes v)" using assms by (simp add: value_bytes_def)
  also have "\<dots> \<le> sum_list (map (length \<circ> value_bytes) row)"
    using assms(1) by (intro member_le_sum_list) auto
  also have "\<dots> \<le> length (row_serialize schema row)" by (simp add: row_serialize_def length_concat)
  finally show ?thesis .
qed

lemma row_ok_small:
  assumes "list_all value_shape row" "length row = length (columns schema)" "small_entry (k, Some (row_serialize schema row))"
  shows "row_ok schema row"
proof -
  have "length (row_serialize schema row) < 2 ^ 32" using assms(3) by (simp add: small_entry_def)
  then show ?thesis
    using assms(1,2) text_in_row [of _ row schema] by (fastforce simp: row_ok_def list_all_iff value_ok_shape)
qed

lemma find_column_from_ge: "find_column_from cs n i = -1 \<or> i \<le> find_column_from cs n i"
  by (induction cs n i rule: find_column_from.induct) auto

lemma find_column_from_spec:
  assumes "0 \<le> find_column_from cs n i" "0 \<le> i"
  shows "nat (find_column_from cs n i - i) < length cs \<and> col_name (cs ! nat (find_column_from cs n i - i)) = n"
  using assms
proof (induction cs n i rule: find_column_from.induct)
  case (2 c cs n i)
  show ?case
  proof (cases "col_name c = n")
    case False
    let ?f = "find_column_from cs n (i + 1)"
    have "i + 1 \<le> ?f" using 2(2) False find_column_from_ge [of cs n "i + 1"] by auto
    then have "nat (?f - i) = Suc (nat (?f - (i + 1)))" by simp
    with 2 False show ?thesis by simp
  qed simp
qed simp

lemma find_column_spec:
  assumes "0 \<le> find_column schema n"
  shows "nat (find_column schema n) < length (columns schema)" "col_name (columns schema ! nat (find_column schema n)) = n"
  using find_column_from_spec [of "columns schema" n 0] assms by (simp_all add: find_column_def)

section \<open>INSERT\<close>

text \<open>The value a list of columns and values gives to the column at an index: the last one that names it.\<close>

definition given :: "TableSchema \<Rightarrow> (string \<times> Value) list \<Rightarrow> nat \<Rightarrow> Value option" where
  "given schema cvs i = map_of (rev (map (\<lambda>(col, v). (find_column schema col, v)) cvs)) (int i)"

definition filled :: "TableSchema \<Rightarrow> (string \<times> Value) list \<Rightarrow> Value list \<Rightarrow> nat \<Rightarrow> Value" where
  "filled schema cvs row i =
     (case given schema cvs i of Some v \<Rightarrow> the (coerce_value v (col_type (columns schema ! i))) | None \<Rightarrow> row ! i)"

definition pk_index :: "TableSchema \<Rightarrow> nat" where
  "pk_index schema = nat (find_column schema (primary_key schema))"

lemma place_values_ok:
  assumes "place_values t schema cvs row pk = Some (Inr (row', pk'))" "length row = length (columns schema)"
    "list_all value_shape row" "list_all (\<lambda>(col, v). value_shape v) cvs" "list_all column_ok (columns schema)"
    "\<forall>x. pk = Some x \<longrightarrow> 0 \<le> find_column schema (primary_key schema) \<and> row ! pk_index schema = x"
  shows "length row' = length (columns schema) \<and> list_all value_shape row'
    \<and> (\<forall>x. pk' = Some x \<longrightarrow> 0 \<le> find_column schema (primary_key schema) \<and> row' ! pk_index schema = x)
    \<and> (pk' = None \<longleftrightarrow> pk = None \<and> primary_key schema \<notin> fst ` set cvs)
    \<and> (\<forall>i < length (columns schema). row' ! i = filled schema cvs row i)"
  using assms
proof (induction t schema cvs row pk rule: place_values.induct)
  case (2 t schema col v rest row pk)
  let ?i = "find_column schema col"
  have i: "0 \<le> ?i" using 2(2) by (auto simp: Let_def split: if_splits)
  then obtain x where x: "coerce_value v (col_type (columns schema ! nat ?i)) = Some x"
    "place_values t schema rest (row[nat ?i := x]) (if col = primary_key schema then Some x else pk) = Some (Inr (row', pk'))"
    using 2(2) by (auto simp: Let_def bind_eq_Some_conv)
  note fc = find_column_spec [OF i]
  have "known_type (col_type (columns schema ! nat ?i))"
    using 2(6) fc(1) by (auto simp: list_all_length column_ok_def)
  then have "value_shape x" using coerce_value_shape [OF x(1)] 2(5) by simp
  then have sh: "list_all value_shape (row[nat ?i := x])"
    using 2(4) by (auto simp: list_all_iff dest!: set_update_subset_insert [THEN subsetD])
  have pk: "\<forall>y. (if col = primary_key schema then Some x else pk) = Some y \<longrightarrow>
      0 \<le> find_column schema (primary_key schema) \<and> row[nat ?i := x] ! pk_index schema = y"
  proof (cases "col = primary_key schema")
    case True
    then show ?thesis using i fc(1) 2(3) by (simp add: pk_index_def)
  next
    case False
    have "pk_index schema \<noteq> nat ?i" if "0 \<le> find_column schema (primary_key schema)"
      using find_column_spec(2) [OF that] fc(2) False unfolding pk_index_def by metis
    moreover have "0 \<le> find_column schema (primary_key schema) \<and> row ! pk_index schema = y" if "pk = Some y" for y
      using 2(7) that by simp
    ultimately show ?thesis using False by (metis nth_list_update_neq)
  qed
  have fl: "filled schema rest (row[nat ?i := x]) j = filled schema ((col, v) # rest) row j" if "j < length (columns schema)" for j
    using that x(1) i fc(1) 2(3) by (auto simp: filled_def given_def map_add_def nth_list_update split: option.splits)
  show ?case
    using 2(1) [OF refl _ x] i 2(3,5,6) sh pk fl by (simp split: if_splits)
qed (auto simp: filled_def given_def)

lemma store_row_ok:
  assumes ok: "table_ok (Suc n) c schema" and row: "row_ok schema row"
    and fits: "small_entry (row_key (table_name schema) (format_pk pk), Some (row_serialize schema row))"
  defines "k \<equiv> row_key (table_name schema) (format_pk pk)"
  shows "view (cat_engine c) k \<noteq> None \<Longrightarrow>
      store_row c schema (table_name schema) row pk = (qr_error (''Duplicate PRIMARY KEY value: '' @ value_to_string pk), c)"
    and "view (cat_engine c) k = None \<Longrightarrow>
      \<exists>c'. store_row c schema (table_name schema) row pk = (qr_ok ''1 row inserted.'', c')
        \<and> view (cat_engine c') = (view (cat_engine c))(k \<mapsto> row_serialize schema row) \<and> table_ok n c' schema"
proof -
  have e: "engine_ok (Suc n) (cat_engine c)" and k: "k \<noteq> []" using table_ok_schema [OF ok] by (simp_all add: k_def)
  have g: "engine_get (cat_engine c) k = (case view (cat_engine c) k of Some v \<Rightarrow> (OK, v) | None \<Rightarrow> (NOT_FOUND, []))"
    by (rule engine_kv.get_law [OF e k])
  show "store_row c schema (table_name schema) row pk = (qr_error (''Duplicate PRIMARY KEY value: '' @ value_to_string pk), c)"
    if "view (cat_engine c) k \<noteq> None"
    using that g by (auto simp: store_row_def k_def)
  assume new: "view (cat_engine c) k = None"
  obtain e' where e': "engine_put (cat_engine c) k (row_serialize schema row) = (OK, e')" "engine_ok n e'"
    "view e' = (view (cat_engine c))(k \<mapsto> row_serialize schema row)"
    using engine_kv.put_law [OF e k] fits by (auto simp: k_def)
  have "table_ok n (c\<lparr>cat_engine := e'\<rparr>) schema"
  proof (rule table_ok_step [OF ok e'(2)])
    show "view e' x = view (cat_engine c) x" if "\<forall>pk. x \<noteq> row_key (table_name schema) pk" for x
      using that by (auto simp: e'(3) k_def)
    show "\<exists>row. d = row_serialize schema row \<and> row_ok schema row" if "view e' (row_key (table_name schema) p) = Some d" for p d
      using that row ok by (auto simp: e'(3) k_def table_ok_def split: if_splits)
  qed
  then show "\<exists>c'. store_row c schema (table_name schema) row pk = (qr_ok ''1 row inserted.'', c')
        \<and> view (cat_engine c') = (view (cat_engine c))(k \<mapsto> row_serialize schema row) \<and> table_ok n c' schema"
    using g new e' by (auto simp: store_row_def k_def)
qed

text \<open>The columns and values of an insert statement, and the row it describes.\<close>

definition insert_pairs :: "TableSchema \<Rightarrow> InsertStmt \<Rightarrow> (string \<times> Value) list" where
  "insert_pairs schema stmt =
     zip (if ins_columns stmt = [] then map col_name (columns schema) else ins_columns stmt) (ins_values stmt)"

definition null_row :: "TableSchema \<Rightarrow> Value list" where
  "null_row schema = map (\<lambda>col. make_null (col_type col)) (columns schema)"

definition insert_row :: "TableSchema \<Rightarrow> InsertStmt \<Rightarrow> Value list" where
  "insert_row schema stmt = map (filled schema (insert_pairs schema stmt) (null_row schema)) [0..<length (columns schema)]"

text \<open>A table whose primary key is a column that refuses NULL, as the parser makes them.\<close>

definition keyed :: "TableSchema \<Rightarrow> bool" where
  "keyed schema \<longleftrightarrow> 0 \<le> find_column schema (primary_key schema) \<and> not_null (columns schema ! pk_index schema)"

lemma null_violation_None:
  assumes "length row = length (columns schema)"
  shows "null_violation schema row = None \<longleftrightarrow> (\<forall>i < length row. not_null (columns schema ! i) \<longrightarrow> \<not> is_null (row ! i))"
  using assms by (auto simp: null_violation_def find_None_iff set_zip)

lemma filled_row:
  assumes "place_values t schema (insert_pairs schema stmt) (null_row schema) None = Some (Inr (row, pk))"
    "schema_ok schema" "list_all value_ok (ins_values stmt)"
  shows "row = insert_row schema stmt" "list_all value_shape row" "length row = length (columns schema)"
    "\<forall>x. pk = Some x \<longrightarrow> x = row ! pk_index schema" "pk = None \<Longrightarrow> primary_key schema \<notin> fst ` set (insert_pairs schema stmt)"
proof -
  have "list_all value_shape (null_row schema)"
    using assms(2) by (auto simp: null_row_def list_all_iff schema_ok_def column_ok_def)
  moreover have "list_all (\<lambda>(col, v). value_shape v) (insert_pairs schema stmt)"
    using assms(3) by (auto simp: insert_pairs_def list_all_iff value_ok_shape dest!: set_zip_rightD)
  ultimately have P: "length row = length (columns schema) \<and> list_all value_shape row
    \<and> (\<forall>x. pk = Some x \<longrightarrow> 0 \<le> find_column schema (primary_key schema) \<and> row ! pk_index schema = x)
    \<and> (pk = None \<longleftrightarrow> primary_key schema \<notin> fst ` set (insert_pairs schema stmt))
    \<and> (\<forall>i < length (columns schema). row ! i = filled schema (insert_pairs schema stmt) (null_row schema) i)"
    using place_values_ok [OF assms(1)] assms(2) by (simp add: null_row_def schema_ok_def)
  then show "list_all value_shape row" "length row = length (columns schema)" "\<forall>x. pk = Some x \<longrightarrow> x = row ! pk_index schema"
    "pk = None \<Longrightarrow> primary_key schema \<notin> fst ` set (insert_pairs schema stmt)" by auto
  show "row = insert_row schema stmt" using P by (intro nth_equalityI) (simp_all add: insert_row_def)
qed

lemma find_column_inj:
  assumes "find_column schema a = find_column schema b" "0 \<le> find_column schema b"
  shows "a = b"
  using assms by (metis find_column_spec(2))

lemma missing_key_null:
  assumes "keyed schema" "primary_key schema \<notin> fst ` set cvs"
  shows "filled schema cvs (null_row schema) (pk_index schema) = make_null (col_type (columns schema ! pk_index schema))"
proof -
  have k: "0 \<le> find_column schema (primary_key schema)" using assms(1) by (simp add: keyed_def)
  then have i: "int (pk_index schema) = find_column schema (primary_key schema)" by (simp add: pk_index_def)
  have "find_column schema (primary_key schema) \<noteq> find_column schema (fst x)" if "x \<in> set cvs" for x
  proof
    assume "find_column schema (primary_key schema) = find_column schema (fst x)"
    then have "fst x = primary_key schema" using find_column_inj [OF _ k, of "fst x"] by metis
    then show False using assms(2) that by (metis imageI)
  qed
  then have "\<forall>x \<in> set cvs. find_column schema (primary_key schema) \<noteq> find_column schema (fst x)" by blast
  then have "given schema cvs (pk_index schema) = None"
    unfolding given_def i map_of_eq_None_iff by (auto simp: image_iff split_beta)
  then show ?thesis using find_column_spec(1) [OF k] by (simp add: filled_def null_row_def pk_index_def)
qed

lemma placed_key:
  assumes pl: "place_values t schema (insert_pairs schema stmt) (null_row schema) None = Some (Inr (row, pk))"
    and s: "schema_ok schema" and vals: "list_all value_ok (ins_values stmt)" and key: "keyed schema"
    and nv: "null_violation schema row = None"
  shows "pk = Some (row ! pk_index schema)"
proof -
  note F = filled_row [OF pl s vals]
  have ki: "pk_index schema < length (columns schema)" using key find_column_spec(1) by (simp add: keyed_def pk_index_def)
  then have nn: "\<not> is_null (row ! pk_index schema)" using nv null_violation_None [OF F(3)] F(3) key by (simp add: keyed_def)
  have "pk \<noteq> None"
  proof
    assume "pk = None"
    then have "row ! pk_index schema = make_null (col_type (columns schema ! pk_index schema))"
      using F(1,5) missing_key_null [OF key] ki by (simp add: insert_row_def)
    with nn show False by (simp add: make_null_def)
  qed
  then show ?thesis using F(4) by auto
qed

section \<open>UPDATE\<close>

definition assigned :: "TableSchema \<Rightarrow> Assignment list \<Rightarrow> Value list \<Rightarrow> Value list" where
  "assigned schema as row =
     map (filled schema (map (\<lambda>a. (asg_column a, asg_value a)) as) row) [0..<length (columns schema)]"

definition known_columns :: "TableSchema \<Rightarrow> Assignment list \<Rightarrow> bool" where
  "known_columns schema as \<longleftrightarrow> list_all (\<lambda>a. 0 \<le> find_column schema (asg_column a)) as"

lemma assign_row_ok:
  assumes "assign_row schema as row = Some res" "known_columns schema as" "length row = length (columns schema)"
    "list_all value_shape row" "list_all (\<lambda>a. value_shape (asg_value a)) as" "list_all column_ok (columns schema)"
  shows "res = Inr (assigned schema as row) \<and> list_all value_shape (assigned schema as row)"
  using assms
proof (induction schema as row rule: assign_row.induct)
  case (1 schema row)
  have "assigned schema [] row = row"
    using 1(3) by (intro nth_equalityI) (simp_all add: assigned_def filled_def given_def)
  then show ?case using 1 by simp
next
  case (2 schema a as row)
  let ?i = "find_column schema (asg_column a)"
  have i: "0 \<le> ?i" using 2(3) by (simp add: known_columns_def)
  note fc = find_column_spec [OF i]
  obtain x where x: "coerce_value (asg_value a) (col_type (columns schema ! nat ?i)) = Some x"
    "assign_row schema as (row[nat ?i := x]) = Some res"
    using 2(2,4) i fc(1) by (auto simp: Let_def bind_eq_Some_conv)
  have "known_type (col_type (columns schema ! nat ?i))"
    using 2(7) fc(1) by (simp add: list_all_length column_ok_def)
  then have "value_shape x" using coerce_value_shape [OF x(1)] 2(6) by simp
  then have sh: "list_all value_shape (row[nat ?i := x])"
    using 2(5) by (auto simp: list_all_iff dest!: set_update_subset_insert [THEN subsetD])
  have "filled schema (map (\<lambda>a. (asg_column a, asg_value a)) as) (row[nat ?i := x]) j
      = filled schema (map (\<lambda>a. (asg_column a, asg_value a)) (a # as)) row j" if "j < length (columns schema)" for j
    using that x(1) i fc(1) 2(4) by (auto simp: filled_def given_def map_add_def nth_list_update split: option.splits)
  then have "assigned schema as (row[nat ?i := x]) = assigned schema (a # as) row" by (simp add: assigned_def)
  moreover have "\<not> ?i < 0" "nat ?i < length row" using i fc(1) 2(4) by simp_all
  ultimately show ?case
    using 2(1) [OF refl _ x(1) _ x(2)] 2(3,4,6,7) sh by (simp add: known_columns_def)
qed

lemma update_loop_ok:
  assumes "update_loop schema stmt (map (enc_row schema) xs) u e = Some (r, e')" "engine_ok (length xs + n) e"
    "\<forall>(pk, row) \<in> set xs. row_ok schema row" "smap_wf xs" "schema_ok schema" "known_columns schema (upd_assignments stmt)"
    "list_all (\<lambda>a. value_shape (asg_value a)) (upd_assignments stmt)"
    "\<forall>(pk, row) \<in> set xs. hits (upd_where stmt) schema row \<longrightarrow>
       small_entry (row_key (table_name schema) pk, Some (row_serialize schema (assigned schema (upd_assignments stmt) row)))"
  shows "r = qr_ok (dec_digits (u + length (filter (\<lambda>(pk, row). hits (upd_where stmt) schema row) xs)) @ '' row(s) updated.'')
    \<and> engine_ok n e'
    \<and> (\<forall>pk. view e' (row_key (table_name schema) pk) = (case map_of xs pk of
         Some row \<Rightarrow> if hits (upd_where stmt) schema row then Some (row_serialize schema (assigned schema (upd_assignments stmt) row))
                     else view e (row_key (table_name schema) pk)
       | None \<Rightarrow> view e (row_key (table_name schema) pk)))
    \<and> (\<forall>k. (\<forall>pk. k \<noteq> row_key (table_name schema) pk) \<longrightarrow> view e' k = view e k)
    \<and> (\<forall>(pk, row) \<in> set xs. hits (upd_where stmt) schema row \<longrightarrow> list_all value_shape (assigned schema (upd_assignments stmt) row))"
  using assms
proof (induction xs arbitrary: u e)
  case Nil
  then show ?case by simp
next
  case (Cons x xs)
  obtain pk row where x: "x = (pk, row)" by (cases x)
  let ?k = "row_key (table_name schema) pk" and ?new = "assigned schema (upd_assignments stmt) row"
  have rok: "row_ok schema row" and wf: "smap_wf xs" using Cons.prems(3,4) by (simp_all add: x smap_wf_Cons)
  have pk: "map_of xs pk = None" using Cons.prems(4) by (auto simp: x smap_wf_Cons map_of_eq_None_iff)
  have cols: "list_all column_ok (columns schema)" using Cons.prems(5) by (simp add: schema_ok_def)
  obtain hit where hit: "evaluate_where (upd_where stmt) schema row = Some hit"
    and run: "(if \<not> hit then update_loop schema stmt (map (enc_row schema) xs) u e
        else do { new \<leftarrow> assign_row schema (upd_assignments stmt) row;
          (case new of Inl msg \<Rightarrow> Some (qr_error msg, e)
           | Inr row' \<Rightarrow> update_loop schema stmt (map (enc_row schema) xs) (u + 1) (snd (engine_put e ?k (row_serialize schema row')))) })
        = Some (r, e')"
    using Cons.prems(1) row_decode [OF Cons.prems(5) rok] unfolding x list.map enc_row_def [of schema "(pk, row)"]
    by (auto simp: where_shortcut bind_eq_Some_conv simp del: where_ops.simps)
  show ?case
  proof (cases hit)
    case False
    then show ?thesis
      using Cons.IH [of u e] run Cons.prems(2,3,5,6,7,8) wf pk hit engine_ok_mono [of "Suc (length xs + n)" e "length xs + n"]
      by (auto simp: x hits_def split: option.splits)
  next
    case True
    have sh: "length row = length (columns schema)" "list_all value_shape row"
      using rok by (auto simp: row_ok_def list_all_iff value_ok_shape)
    obtain res where res: "assign_row schema (upd_assignments stmt) row = Some res"
      using run True by (auto simp: bind_eq_Some_conv)
    have "res = Inr ?new" and shape: "list_all value_shape ?new" using assign_row_ok [OF res] Cons.prems(6,7) cols sh by simp_all
    with run True res have run': "update_loop schema stmt (map (enc_row schema) xs) (u + 1) (snd (engine_put e ?k (row_serialize schema ?new))) = Some (r, e')"
      by simp
    have "small_entry (?k, Some (row_serialize schema ?new))" using Cons.prems(8) True hit by (simp add: x hits_def)
    then obtain e1 where e1: "engine_put e ?k (row_serialize schema ?new) = (OK, e1)" "engine_ok (length xs + n) e1"
      "view e1 = (view e)(?k \<mapsto> row_serialize schema ?new)"
      using engine_kv.put_law [of "length xs + n" e ?k] Cons.prems(2) by auto
    show ?thesis
      using Cons.IH [of "u + 1" e1] run' e1 Cons.prems(3,5,6,7,8) wf pk hit True shape
      by (auto simp: x hits_def split: option.splits)
  qed
qed

lemma exec_update_ok:
  assumes ok: "table_ok (length (table_list c schema) + n) c schema" and t: "upd_table_name stmt = table_name schema"
    and known: "known_columns schema (upd_assignments stmt)" and vals: "list_all (\<lambda>a. value_ok (asg_value a)) (upd_assignments stmt)"
    and fits: "\<And>pk row. scan_map c schema pk = Some row \<Longrightarrow> hits (upd_where stmt) schema row \<Longrightarrow>
       small_entry (row_key (table_name schema) pk, Some (row_serialize schema (assigned schema (upd_assignments stmt) row)))"
    and run: "exec_update c stmt = Some (r, c')"
  shows "table_ok n c' schema"
    "table_map c' schema = (\<lambda>pk. if pk \<in> hit_keys c schema (upd_where stmt)
       then map_option (assigned schema (upd_assignments stmt)) (table_map c schema pk) else table_map c schema pk)"
    "r = qr_ok (dec_digits (card (hit_keys c schema (upd_where stmt))) @ '' row(s) updated.'')"
    "\<And>k. k \<notin> row_key (table_name schema) ` hit_keys c schema (upd_where stmt) \<Longrightarrow> view (cat_engine c') k = view (cat_engine c) k"
proof -
  let ?t = "table_name schema" and ?L = "table_list c schema" and ?as = "upd_assignments stmt" and ?wc = "upd_where stmt"
  note L = table_scan_list [OF ok] and M = table_list_map [OF ok] and S = table_ok_schema [OF ok]
  note mem = table_list_mem [OF ok]
  obtain e where e: "update_loop schema stmt (map (enc_row schema) ?L) 0 (cat_engine c) = Some (r, e)" "c' = c\<lparr>cat_engine := e\<rparr>"
    using run S by (auto simp: exec_update_def t L(1) bind_eq_Some_conv)
  have "list_all (\<lambda>a. value_shape (asg_value a)) ?as" using vals by (auto simp: list_all_iff value_ok_shape)
  moreover have "\<forall>(pk, row) \<in> set ?L. hits ?wc schema row \<longrightarrow>
       small_entry (row_key ?t pk, Some (row_serialize schema (assigned schema ?as row)))" using fits mem by auto
  ultimately have U: "r = qr_ok (dec_digits (0 + length (filter (\<lambda>(pk, row). hits ?wc schema row) ?L)) @ '' row(s) updated.'')
    \<and> engine_ok n e
    \<and> (\<forall>pk. view e (row_key ?t pk) = (case map_of ?L pk of
         Some row \<Rightarrow> if hits ?wc schema row then Some (row_serialize schema (assigned schema ?as row))
                     else view (cat_engine c) (row_key ?t pk)
       | None \<Rightarrow> view (cat_engine c) (row_key ?t pk)))
    \<and> (\<forall>k. (\<forall>pk. k \<noteq> row_key ?t pk) \<longrightarrow> view e k = view (cat_engine c) k)
    \<and> (\<forall>(pk, row) \<in> set ?L. hits ?wc schema row \<longrightarrow> list_all value_shape (assigned schema ?as row))"
    using update_loop_ok [OF e(1), of n] S L(2) M(1) known by simp
  have new: "row_ok schema (assigned schema ?as row)" if "scan_map c schema pk = Some row" "hits ?wc schema row" for pk row
  proof -
    have "list_all value_shape (assigned schema ?as row)" using U that mem by blast
    then show ?thesis using row_ok_small [OF _ _ fits [OF that]] by (simp add: assigned_def)
  qed
  have v: "view e (row_key ?t pk) = (case scan_map c schema pk of
         Some row \<Rightarrow> if hits ?wc schema row then Some (row_serialize schema (assigned schema ?as row)) else view (cat_engine c) (row_key ?t pk)
       | None \<Rightarrow> view (cat_engine c) (row_key ?t pk))" for pk
    using U M(2) by simp
  have "table_ok n (c\<lparr>cat_engine := e\<rparr>) schema"
  proof (rule table_ok_step [OF ok])
    show "engine_ok n e" using U by simp
    show "view e k = view (cat_engine c) k" if "\<forall>pk. k \<noteq> row_key ?t pk" for k using U that by simp
    show "\<exists>row. d = row_serialize schema row \<and> row_ok schema row" if "view e (row_key ?t pk) = Some d" for pk d
      using that ok new by (auto simp: v table_ok_def split: option.splits if_splits)
  qed
  then show "table_ok n c' schema" using e(2) by simp
  have h: "pk \<in> hit_keys c schema ?wc \<longleftrightarrow> (\<exists>row. scan_map c schema pk = Some row \<and> hits ?wc schema row)" for pk by (simp add: hit_keys_scan)
  show "view (cat_engine c') k = view (cat_engine c) k" if "k \<notin> row_key ?t ` hit_keys c schema ?wc" for k
  proof (cases "\<exists>pk. k = row_key ?t pk")
    case True
    then obtain pk where k: "k = row_key ?t pk" by blast
    then have "pk \<notin> hit_keys c schema ?wc" using that by blast
    then show ?thesis using v [of pk] h [of pk] by (auto simp: k e(2) split: option.splits)
  next
    case False
    then show ?thesis using U by (simp add: e(2))
  qed
  note other = this
  show "table_map c' schema = (\<lambda>pk. if pk \<in> hit_keys c schema ?wc then map_option (assigned schema ?as) (table_map c schema pk) else table_map c schema pk)"
  proof
    fix pk
    show "table_map c' schema pk = (if pk \<in> hit_keys c schema ?wc then map_option (assigned schema ?as) (table_map c schema pk) else table_map c schema pk)"
    proof (cases "pk \<in> hit_keys c schema ?wc")
      case True
      then obtain row where row: "scan_map c schema pk = Some row" "hits ?wc schema row" using h by blast
      then have "table_map c schema pk = Some row" by (simp add: scan_map_def split: if_splits)
      moreover have "row_deserialize schema (row_serialize schema (assigned schema ?as row)) = Some (assigned schema ?as row)"
        using new [OF row] row_decode [of schema] S by blast
      ultimately show ?thesis using v [of pk] row True by (simp add: table_map_def e(2))
    next
      case False
      then have "row_key ?t pk \<notin> row_key ?t ` hit_keys c schema ?wc" by auto
      then show ?thesis using other False by (simp add: table_map_def)
    qed
  qed
  show "r = qr_ok (dec_digits (card (hit_keys c schema (upd_where stmt))) @ '' row(s) updated.'')"
    using U count_hits [OF ok] by simp
qed

end
