(* ===== verification/Executor_Properties.thy ===== *)
theory Executor_Properties
  imports Executor_Correct
begin

text \<open>
  The properties of the SQL executor: the statements return, and each does to the abstract table exactly what
  SQL says, or reports an error and changes nothing; with the cases in which the code departs from that.
\<close>

section \<open>Statements return\<close>

text \<open>
  What may be undefined in a statement on a sound table: the cast of a double literal that does not fit an integer column,
  and a sort by a column with values that do not compare.
\<close>

definition safe_value :: "Value \<Rightarrow> bool" where
  "safe_value v \<longleftrightarrow> v_type v \<noteq> CtFLOAT \<or> f64_to_i64 (float_val v) \<noteq> None"

definition safe_where :: "WhereClause \<Rightarrow> bool" where
  "safe_where wc \<longleftrightarrow> list_all (\<lambda>c. safe_value (cond_value c)) (conditions wc) \<and> length (logic_ops wc) \<le> length (conditions wc) - 1"

lemma coerce_value_total: "safe_value v \<Longrightarrow> \<exists>x. coerce_value v t = Some x"
  by (auto simp: coerce_value_def safe_value_def split: option.splits)

lemma evaluate_condition_total: "safe_value (cond_value c) \<Longrightarrow> \<exists>b. evaluate_condition c schema row = Some b"
proof -
  assume safe: "safe_value (cond_value c)"
  let ?i = "find_column schema (cond_column c)"
  obtain x where "coerce_value (cond_value c) (v_type (row ! nat ?i)) = Some x" using coerce_value_total [OF safe] by blast
  then show ?thesis by (auto simp: evaluate_condition_def Let_def)
qed

lemma where_ops_total:
  "list_all (\<lambda>c. safe_value (cond_value c)) cs \<Longrightarrow> length ops \<le> length cs \<Longrightarrow> \<exists>b. where_ops ops cs schema row r = Some b"
proof (induction ops cs schema row r rule: where_ops.induct)
  case (3 op ops c cs schema row r)
  then obtain b where "evaluate_condition c schema row = Some b" using evaluate_condition_total by fastforce
  with 3 show ?case by auto
qed auto

lemma evaluate_where_total:
  assumes "safe_where wc"
  shows "\<exists>b. evaluate_where wc schema row = Some b"
proof (cases "conditions wc")
  case (Cons c cs)
  then obtain b where "evaluate_condition c schema row = Some b"
    using assms evaluate_condition_total [of c schema row] by (auto simp: safe_where_def)
  then show ?thesis
    using Cons assms where_ops_total [of cs "logic_ops wc" schema row b] by (auto simp: safe_where_def evaluate_where_def)
qed (auto simp: evaluate_where_def)

lemma matching_rows_total:
  assumes "\<forall>(pk, row) \<in> set xs. row_ok schema row" "schema_ok schema" "safe_where wc"
  shows "\<exists>hs. matching_rows wc schema (map (enc_row schema) xs) = Some hs"
  using assms(1)
proof (induction xs)
  case (Cons x xs)
  obtain pk row where x: "x = (pk, row)" by (cases x)
  obtain b where "evaluate_where wc schema row = Some b" using evaluate_where_total [OF assms(3)] by blast
  moreover have "row_deserialize schema (row_serialize schema row) = Some row"
    using Cons.prems row_decode [OF assms(2)] by (simp add: x)
  ultimately show ?case using Cons by (auto simp: x enc_row_def [of schema "(pk, row)"] where_shortcut)
qed simp

lemma assign_row_total:
  assumes "list_all (\<lambda>a. safe_value (asg_value a)) as" "known_columns schema as" "length row = length (columns schema)"
  shows "\<exists>row'. assign_row schema as row = Some (Inr row')"
  using assms
proof (induction schema as row rule: assign_row.induct)
  case (2 schema a as row)
  let ?i = "find_column schema (asg_column a)"
  have i: "0 \<le> ?i" using 2(3) by (simp add: known_columns_def)
  obtain x where "coerce_value (asg_value a) (col_type (columns schema ! nat ?i)) = Some x"
    using 2(2) coerce_value_total [of "asg_value a"] by fastforce
  then show ?case
    using 2(1) [OF refl, of x] 2(2-4) i find_column_spec(1) [OF i] by (simp add: known_columns_def)
qed simp

lemma update_loop_total:
  assumes "\<forall>(pk, row) \<in> set xs. row_ok schema row" "schema_ok schema" "safe_where (upd_where stmt)"
    "known_columns schema (upd_assignments stmt)" "list_all (\<lambda>a. safe_value (asg_value a)) (upd_assignments stmt)"
  shows "\<exists>r. update_loop schema stmt (map (enc_row schema) xs) u e = Some r"
  using assms(1)
proof (induction xs arbitrary: u e)
  case (Cons x xs)
  obtain pk row where x: "x = (pk, row)" by (cases x)
  have rok: "row_ok schema row" using Cons.prems by (simp add: x)
  obtain b where "evaluate_where (upd_where stmt) schema row = Some b" using evaluate_where_total [OF assms(3)] by blast
  moreover obtain row' where "assign_row schema (upd_assignments stmt) row = Some (Inr row')"
    using assign_row_total [OF assms(5,4), of row] rok by (auto simp: row_ok_def)
  ultimately show ?case
    using Cons row_decode [OF assms(2) rok] by (auto simp: x enc_row_def [of schema "(pk, row)"] where_shortcut)
qed simp

lemma place_values_total:
  assumes "list_all (\<lambda>(col, v). safe_value v) cvs"
  shows "\<exists>res. place_values t schema cvs row pk = Some res \<and>
     ((\<exists>msg. res = Inl msg) \<longleftrightarrow> (\<exists>(col, v) \<in> set cvs. find_column schema col < 0))"
  using assms
proof (induction t schema cvs row pk rule: place_values.induct)
  case (2 t schema col v rest row pk)
  obtain x where "coerce_value v (col_type (columns schema ! nat (find_column schema col))) = Some x"
    using 2(2) coerce_value_total [of v] by fastforce
  then show ?case using 2(1) [OF refl, of x] 2(2) by (cases "find_column schema col < 0") auto
qed auto

section \<open>Properties of the statements\<close>

text \<open>An insert that the table accepts: as many values as columns, known columns, and no NULL where it is refused.\<close>

definition insert_valid :: "TableSchema \<Rightarrow> InsertStmt \<Rightarrow> bool" where
  "insert_valid schema stmt \<longleftrightarrow>
     length (ins_values stmt) = length (if ins_columns stmt = [] then map col_name (columns schema) else ins_columns stmt)
     \<and> (\<forall>(col, v) \<in> set (insert_pairs schema stmt). 0 \<le> find_column schema col)
     \<and> (\<forall>i < length (columns schema). not_null (columns schema ! i) \<longrightarrow> \<not> is_null (insert_row schema stmt ! i))"

lemma exec_insert_cases:
  assumes ok: "table_ok (Suc n) c schema" and key: "keyed schema" and t: "ins_table_name stmt = table_name schema"
    and vals: "list_all value_ok (ins_values stmt)" and safe: "list_all safe_value (ins_values stmt)"
  shows "\<exists>r c'. exec_insert c stmt = Some (r, c')"
    and "\<not> insert_valid schema stmt \<Longrightarrow> \<exists>msg. exec_insert c stmt = Some (qr_error msg, c)"
    and "insert_valid schema stmt \<Longrightarrow> exec_insert c stmt =
      Some (store_row c schema (table_name schema) (insert_row schema stmt) (insert_row schema stmt ! pk_index schema))
      \<and> list_all value_shape (insert_row schema stmt)"
proof -
  note S = table_ok_schema [OF ok]
  let ?t = "table_name schema" and ?cvs = "insert_pairs schema stmt"
  let ?cols = "if ins_columns stmt = [] then map col_name (columns schema) else ins_columns stmt"
  have "list_all (\<lambda>(col, v). safe_value v) ?cvs"
    using safe by (auto simp: insert_pairs_def list_all_iff dest!: set_zip_rightD)
  from place_values_total [OF this, of ?t schema "null_row schema" None]
  obtain res where res: "place_values ?t schema ?cvs (null_row schema) None = Some res"
    "(\<exists>msg. res = Inl msg) \<longleftrightarrow> (\<exists>(col, v) \<in> set ?cvs. find_column schema col < 0)" by blast
  have run: "length (ins_values stmt) = length ?cols \<Longrightarrow> exec_insert c stmt = Some (case res of
      Inl msg \<Rightarrow> (qr_error msg, c) | Inr (row, pk) \<Rightarrow> finish_insert c schema ?t row pk)"
    using S res(1) by (simp add: exec_insert_def t Let_def insert_pairs_def null_row_def split: if_splits)
  have len: "length (ins_values stmt) \<noteq> length ?cols \<Longrightarrow> \<exists>msg. exec_insert c stmt = Some (qr_error msg, c)"
    using S by (auto simp: exec_insert_def t Let_def split: if_splits)
  show "\<exists>r c'. exec_insert c stmt = Some (r, c')" using run len by (metis prod.exhaust)
  have fin: "row = insert_row schema stmt \<and> list_all value_shape row \<and> (null_violation schema row = None \<longleftrightarrow>
        (\<forall>i < length (columns schema). not_null (columns schema ! i) \<longrightarrow> \<not> is_null (insert_row schema stmt ! i)))
      \<and> (null_violation schema row = None \<longrightarrow> pk = Some (insert_row schema stmt ! pk_index schema))"
    if "res = Inr (row, pk)" for row pk
  proof -
    note pl = res(1) [unfolded that]
    note F = filled_row [OF pl _ vals]
    show ?thesis
      using F(1,2,3) S null_violation_None [of row schema] placed_key [OF pl _ vals key] by simp
  qed
  show "\<exists>msg. exec_insert c stmt = Some (qr_error msg, c)" if "\<not> insert_valid schema stmt"
  proof (cases "length (ins_values stmt) = length ?cols")
    case True
    show ?thesis
    proof (cases res)
      case (Inr x)
      obtain row pk where x: "res = Inr (row, pk)" using Inr by (cases x) auto
      have "null_violation schema row \<noteq> None"
        using that True res(2) fin [OF x] unfolding insert_valid_def x by force
      then show ?thesis using run [OF True] by (auto simp: x finish_insert_def)
    qed (use run [OF True] in auto)
  qed (rule len)
  show "exec_insert c stmt = Some (store_row c schema (table_name schema) (insert_row schema stmt) (insert_row schema stmt ! pk_index schema))
      \<and> list_all value_shape (insert_row schema stmt)"
    if valid: "insert_valid schema stmt"
  proof -
    have "\<not> (\<exists>msg. res = Inl msg)" using res(2) valid unfolding insert_valid_def by force
    then obtain row pk where x: "res = Inr (row, pk)" by (cases res) auto
    have "null_violation schema row = None" using fin [OF x] valid unfolding insert_valid_def by blast
    moreover have "row = insert_row schema stmt" "list_all value_shape row" using fin [OF x] by blast+
    moreover have "pk = Some (insert_row schema stmt ! pk_index schema)" using fin [OF x] calculation by blast
    ultimately show ?thesis using run valid by (simp add: x finish_insert_def insert_valid_def)
  qed
qed

lemma cache_store_row: "store_row c schema t row pk = (r, c') \<Longrightarrow> cache c' = cache c"
  by (auto simp: store_row_def Let_def split: prod.splits if_splits)

text \<open>An \<open>INSERT\<close> that fits the schema stores its row if the key is free.\<close>

lemma exec_insert_new:
  assumes ok: "table_ok (Suc n) c schema" and key: "keyed schema" and t: "ins_table_name stmt = table_name schema"
    and vals: "list_all value_ok (ins_values stmt)" and safe: "list_all safe_value (ins_values stmt)"
    and fits: "small_entry (row_key (table_name schema) (format_pk (insert_row schema stmt ! pk_index schema)),
      Some (row_serialize schema (insert_row schema stmt)))"
    and valid: "insert_valid schema stmt"
  shows "row_deserialize schema (row_serialize schema (insert_row schema stmt)) = Some (insert_row schema stmt)"
    and "view (cat_engine c) (row_key (table_name schema) (format_pk (insert_row schema stmt ! pk_index schema))) = None \<Longrightarrow>
      \<exists>c'. exec_insert c stmt = Some (qr_ok ''1 row inserted.'', c') \<and> table_ok n c' schema \<and> cache c' = cache c
        \<and> view (cat_engine c') = (view (cat_engine c))
            (row_key (table_name schema) (format_pk (insert_row schema stmt ! pk_index schema)) \<mapsto> row_serialize schema (insert_row schema stmt))"
    and "view (cat_engine c) (row_key (table_name schema) (format_pk (insert_row schema stmt ! pk_index schema))) \<noteq> None \<Longrightarrow>
      \<exists>msg. exec_insert c stmt = Some (qr_error msg, c)"
proof -
  let ?row = "insert_row schema stmt"
  note run = exec_insert_cases(3) [OF ok key t vals safe valid]
  note S = table_ok_schema [OF ok]
  have rok: "row_ok schema ?row" using row_ok_small [OF _ _ fits] run by (simp add: insert_row_def)
  show "row_deserialize schema (row_serialize schema ?row) = Some ?row" using row_decode [OF _ rok] S by blast
  show "\<exists>c'. exec_insert c stmt = Some (qr_ok ''1 row inserted.'', c') \<and> table_ok n c' schema \<and> cache c' = cache c
      \<and> view (cat_engine c') = (view (cat_engine c)) (row_key (table_name schema) (format_pk (?row ! pk_index schema)) \<mapsto> row_serialize schema ?row)"
    if "view (cat_engine c) (row_key (table_name schema) (format_pk (?row ! pk_index schema))) = None"
    using store_row_ok(2) [OF ok rok fits that] run by (auto dest: cache_store_row)
  show "\<exists>msg. exec_insert c stmt = Some (qr_error msg, c)"
    if "view (cat_engine c) (row_key (table_name schema) (format_pk (?row ! pk_index schema))) \<noteq> None"
    using store_row_ok(1) [OF ok rok fits that] run by auto
qed

text \<open>
  C5: \<open>INSERT\<close> into a table whose key column refuses NULL either stores exactly one new row or changes nothing. It
  succeeds if and only if the statement fits the columns and the constraints and the key is free; then the table gains
  the row in which every named column has its value converted to the column type and every other column
  is NULL, stored under its key, and every other entry of the store stays as it was. Otherwise
  it reports an error and the state is the same as before.
\<close>

theorem insert_exact:
  assumes ok: "table_ok (Suc n) c schema" and key: "keyed schema" and t: "ins_table_name stmt = table_name schema"
    and vals: "list_all value_ok (ins_values stmt)" and safe: "list_all safe_value (ins_values stmt)"
    and fits: "small_entry (row_key (table_name schema) (format_pk (insert_row schema stmt ! pk_index schema)),
      Some (row_serialize schema (insert_row schema stmt)))"
  shows "let row = insert_row schema stmt; k = row_key (table_name schema) (format_pk (row ! pk_index schema))
    in if insert_valid schema stmt \<and> view (cat_engine c) k = None
       then \<exists>c'. exec_insert c stmt = Some (qr_ok ''1 row inserted.'', c') \<and> table_ok n c' schema
         \<and> view (cat_engine c') = (view (cat_engine c))(k \<mapsto> row_serialize schema row)
         \<and> row_deserialize schema (row_serialize schema row) = Some row
       else \<exists>msg. exec_insert c stmt = Some (qr_error msg, c)"
proof (cases "insert_valid schema stmt")
  case True
  note I = exec_insert_new [OF ok key t vals safe fits True]
  show ?thesis
    using I True by (cases "view (cat_engine c) (row_key (table_name schema) (format_pk (insert_row schema stmt ! pk_index schema)))")
      (auto simp: Let_def)
next
  case False
  then show ?thesis using exec_insert_cases(2) [OF ok key t vals safe] by (simp add: Let_def)
qed

text \<open>
  C8: \<open>DELETE\<close> removes exactly the rows that satisfy its condition among the rows that scans reach, those whose key sorts up to
  \<open>'~'\<close>: the table loses those and keeps every other row, reached or not; the count in the answer is their number; and in the
  whole store no other entry changes. A row stored under a key beyond \<open>'~'\<close> stays even if it satisfies the condition.
\<close>

theorem delete_exact:
  assumes ok: "table_ok (length (table_list c schema) + n) c schema" and t: "del_table_name stmt = table_name schema"
    and safe: "safe_where (del_where stmt)"
  shows "\<exists>c'. exec_delete c stmt = Some (qr_ok (dec_digits (card (hit_keys c schema (del_where stmt))) @ '' row(s) deleted.''), c')
    \<and> table_ok n c' schema
    \<and> table_map c' schema = (\<lambda>pk. if pk \<in> hit_keys c schema (del_where stmt) then None else table_map c schema pk)
    \<and> view (cat_engine c') = (\<lambda>k. if k \<in> row_key (table_name schema) ` hit_keys c schema (del_where stmt) then None
        else view (cat_engine c) k)"
proof -
  note S = table_ok_schema [OF ok] and L = table_scan_list [OF ok]
  obtain hs where "matching_rows (del_where stmt) schema (map (enc_row schema) (table_list c schema)) = Some hs"
    using matching_rows_total [OF L(2) _ safe] S by blast
  then obtain r c' where run: "exec_delete c stmt = Some (r, c')" using S by (simp add: exec_delete_def t L(1))
  note D = exec_delete_ok [OF ok t run]
  have "table_map c' schema pk = (if pk \<in> hit_keys c schema (del_where stmt) then None else table_map c schema pk)" for pk
    by (auto simp: table_map_def D(2))
  then show ?thesis using D run by auto
qed

text \<open>
  C7: \<open>UPDATE\<close> changes exactly the rows that satisfy its condition among the rows that scans reach, those whose key sorts up to
  \<open>'~'\<close>, and in them exactly the assigned columns: each such row gets the new values converted to the column types; every other
  row, reached or not, and every other entry of the store stays as it was; and the count in the answer is the number of changed
  rows. A row keeps the key it is stored under even if its primary key column is assigned, and a row stored under a key
  beyond \<open>'~'\<close> is not changed even if it satisfies the condition.
\<close>

theorem update_exact:
  assumes ok: "table_ok (length (table_list c schema) + n) c schema" and t: "upd_table_name stmt = table_name schema"
    and known: "known_columns schema (upd_assignments stmt)"
    and vals: "list_all (\<lambda>a. value_ok (asg_value a) \<and> safe_value (asg_value a)) (upd_assignments stmt)"
    and safe: "safe_where (upd_where stmt)"
    and fits: "\<And>pk row. pk \<in> hit_keys c schema (upd_where stmt) \<Longrightarrow> table_map c schema pk = Some row \<Longrightarrow>
       small_entry (row_key (table_name schema) pk, Some (row_serialize schema (assigned schema (upd_assignments stmt) row)))"
  shows "\<exists>c'. exec_update c stmt = Some (qr_ok (dec_digits (card (hit_keys c schema (upd_where stmt))) @ '' row(s) updated.''), c')
    \<and> table_ok n c' schema
    \<and> table_map c' schema = (\<lambda>pk. if pk \<in> hit_keys c schema (upd_where stmt)
        then map_option (assigned schema (upd_assignments stmt)) (table_map c schema pk) else table_map c schema pk)
    \<and> (\<forall>k. k \<notin> row_key (table_name schema) ` hit_keys c schema (upd_where stmt) \<longrightarrow> view (cat_engine c') k = view (cat_engine c) k)"
proof -
  note S = table_ok_schema [OF ok] and L = table_scan_list [OF ok]
  have v: "list_all (\<lambda>a. value_ok (asg_value a)) (upd_assignments stmt)" "list_all (\<lambda>a. safe_value (asg_value a)) (upd_assignments stmt)"
    using vals by (simp_all add: list_all_iff)
  have f: "small_entry (row_key (table_name schema) pk, Some (row_serialize schema (assigned schema (upd_assignments stmt) row)))"
    if "scan_map c schema pk = Some row" "hits (upd_where stmt) schema row" for pk row
    using that fits [of pk row] by (auto simp: hit_keys_scan scan_map_def split: if_splits)
  obtain r e where "update_loop schema stmt (map (enc_row schema) (table_list c schema)) 0 (cat_engine c) = Some (r, e)"
    using update_loop_total [OF L(2) _ safe known v(2)] S by (metis prod.exhaust)
  then obtain c' where run: "exec_update c stmt = Some (r, c')" using S by (simp add: exec_update_def t L(1))
  show ?thesis using exec_update_ok [OF ok t known v(1) f run] run by blast
qed

section \<open>SELECT\<close>

text \<open>On values of one type, none of them NULL or NaN, the comparison of \<open>ORDER BY\<close> is a strict weak order.\<close>

lemma order_strict_weak:
  assumes "\<forall>row \<in> A. comparable (row ! i) \<and> v_type (row ! i) = ty"
  shows "strict_weak (order_before i desc) A"
proof -
  have "\<exists>f :: Value list \<Rightarrow> int. \<forall>a \<in> A. \<forall>b \<in> A. order_before i desc a b \<longleftrightarrow> f a < f b" if "ty \<noteq> CtTEXT"
  proof -
    let ?g = "\<lambda>row. case ty of CtINT \<Rightarrow> sint (int_val (row ! i)) | CtFLOAT \<Rightarrow> f64_rank (float_val (row ! i)) | _ \<Rightarrow> 0"
    have "order_before i desc a b \<longleftrightarrow> (if desc then ?g b < ?g a else ?g a < ?g b)" if "a \<in> A" "b \<in> A" for a b
      using that assms \<open>ty \<noteq> CtTEXT\<close> by (cases ty) (auto simp: order_before_def comparable_def compare_defs)
    then show ?thesis by (intro exI [of _ "\<lambda>row. if desc then - ?g row else ?g row"]) auto
  qed
  moreover have "order_before i desc a b \<longleftrightarrow> (if desc then text_val (b ! i) < text_val (a ! i) else text_val (a ! i) < text_val (b ! i))"
    if "ty = CtTEXT" "a \<in> A" "b \<in> A" for a b
    using that assms by (auto simp: order_before_def comparable_def compare_defs)
  ultimately show ?thesis by (cases "ty = CtTEXT"; cases desc) (fastforce simp: strict_weak_def)+
qed

text \<open>The columns a select names, where they are in a row, and the rows it asks for, in key order.\<close>

definition all_columns :: "SelectStmt \<Rightarrow> bool" where
  "all_columns stmt \<longleftrightarrow> sel_all stmt \<or> sel_columns stmt = []"

definition sel_names :: "TableSchema \<Rightarrow> SelectStmt \<Rightarrow> string list" where
  "sel_names schema stmt = (if all_columns stmt then map col_name (columns schema) else sel_columns stmt)"

definition sel_indices :: "TableSchema \<Rightarrow> SelectStmt \<Rightarrow> nat list" where
  "sel_indices schema stmt =
     (if all_columns stmt then [0..<length (columns schema)] else map (\<lambda>n. nat (find_column schema n)) (sel_columns stmt))"

definition asked_rows :: "Catalog \<Rightarrow> TableSchema \<Rightarrow> SelectStmt \<Rightarrow> Value list list" where
  "asked_rows c schema stmt =
     map (\<lambda>(pk, row). map ((!) row) (sel_indices schema stmt)) (filter (\<lambda>(pk, row). hits (sel_where stmt) schema row) (table_list c schema))"

lemma select_indices_known:
  "list_all (\<lambda>n. 0 \<le> find_column schema n) names \<Longrightarrow> select_indices schema names = Inr (map (\<lambda>n. nat (find_column schema n)) names)"
  by (induction names) auto

lemma select_indices_unknown:
  "\<not> list_all (\<lambda>n. 0 \<le> find_column schema n) names \<Longrightarrow> \<exists>e. select_indices schema names = Inl e"
  by (induction names) (auto simp: Let_def not_le split: sum.split)

lemma index_of_mem: "x \<in> set xs \<Longrightarrow> \<exists>i. index_of x xs = Some i \<and> i < length xs \<and> xs ! i = x"
  by (induction xs) auto

lemma project_rows:
  assumes ok: "table_ok n c schema" and cols: "all_columns stmt \<or> list_all (\<lambda>n. 0 \<le> find_column schema n) (sel_columns stmt)"
  shows "map (\<lambda>(key, row). project (sel_indices schema stmt) row)
      (map (\<lambda>(pk, row). (row_key (table_name schema) pk, row)) (filter (\<lambda>(pk, row). hits wc schema row) (table_list c schema)))
    = map (\<lambda>(pk, row). map ((!) row) (sel_indices schema stmt)) (filter (\<lambda>(pk, row). hits wc schema row) (table_list c schema))"
proof -
  have i: "i < length (columns schema)" if "i \<in> set (sel_indices schema stmt)" for i
    using that cols find_column_spec(1) by (auto simp: sel_indices_def list_all_iff split: if_splits)
  have "project (sel_indices schema stmt) row = map ((!) row) (sel_indices schema stmt)" if "(pk, row) \<in> set (table_list c schema)" for pk row
    using that i table_scan_list(2) [OF ok] by (auto simp: project_def row_ok_def)
  then show ?thesis by auto
qed

text \<open>The rows that are asked for can be sorted: the column of \<open>ORDER BY\<close> has values of one type, none of them NULL or NaN.\<close>

definition order_ok :: "Catalog \<Rightarrow> TableSchema \<Rightarrow> SelectStmt \<Rightarrow> bool" where
  "order_ok c schema stmt \<longleftrightarrow> (\<forall>i. sel_order_by stmt \<noteq> [] \<and> index_of (sel_order_by stmt) (sel_names schema stmt) = Some i \<longrightarrow>
     (\<exists>ty. \<forall>row \<in> set (asked_rows c schema stmt). comparable (row ! i) \<and> v_type (row ! i) = ty))"

text \<open>A \<open>SELECT\<close> of known columns hands the asked rows to the last part of the handler.\<close>

lemma exec_select_run:
  assumes ok: "table_ok n c schema" and t: "sel_table_name stmt = table_name schema" and safe: "safe_where (sel_where stmt)"
    and cols: "all_columns stmt \<or> list_all (\<lambda>n. 0 \<le> find_column schema n) (sel_columns stmt)"
  shows "exec_select std_sort c stmt = map_option (\<lambda>r. (r, c)) (finish_select std_sort stmt (sel_names schema stmt) (asked_rows c schema stmt))"
proof -
  note S = table_ok_schema [OF ok] and L = table_scan_list [OF ok]
  obtain hs where hs: "matching_rows (sel_where stmt) schema (map (enc_row schema) (table_list c schema)) = Some hs"
    using matching_rows_total [OF L(2) _ safe] S by blast
  have A: "map (\<lambda>(key, row). project (sel_indices schema stmt) row) hs = asked_rows c schema stmt"
    using matching_rows_list(1) [OF L(2) _ hs] S project_rows [OF ok cols] by (simp add: asked_rows_def)
  have ix: "(if sel_all stmt \<or> sel_columns stmt = [] then Inr [0..<length (columns schema)] else select_indices schema (sel_names schema stmt))
      = Inr (sel_indices schema stmt)"
    using cols select_indices_known by (auto simp: all_columns_def sel_indices_def sel_names_def)
  have nm: "(if sel_all stmt \<or> sel_columns stmt = [] then map col_name (columns schema) else sel_columns stmt) = sel_names schema stmt"
    by (simp add: sel_names_def all_columns_def)
  have g: "get_schema c (table_name schema) = (Some schema, c)" using S by simp
  show ?thesis by (simp only: exec_select_def Let_def t g prod.case option.case nm ix sum.case L(1) hs bind.bind_lunit A map_conv_bind_option comp_def)
qed

lemma finish_select_total:
  assumes "order_ok c schema stmt"
  shows "\<exists>r. finish_select std_sort stmt (sel_names schema stmt) (asked_rows c schema stmt) = Some r"
proof (cases "sel_order_by stmt = [] \<or> index_of (sel_order_by stmt) (sel_names schema stmt) = None")
  case False
  then obtain i where i: "index_of (sel_order_by stmt) (sel_names schema stmt) = Some i" by auto
  moreover from i obtain ty where "\<forall>row \<in> set (asked_rows c schema stmt). comparable (row ! i) \<and> v_type (row ! i) = ty"
    using assms False unfolding order_ok_def by blast
  ultimately show ?thesis using False order_strict_weak by (auto simp: finish_select_def sort_rows_def)
qed (auto simp: finish_select_def)

text \<open>
  C6: \<open>SELECT\<close> returns the rows that satisfy its condition among the rows that scans reach, those whose key sorts up to \<open>'~'\<close>, each
  with the named columns, without repeating or losing one: in key order without \<open>ORDER BY\<close>; as a permutation sorted by the
  named column, ascending or descending, with it; cut to the first rows with \<open>LIMIT\<close>. The state does not change. The column of
  \<open>ORDER BY\<close> has to have values of one type, none of them NULL or NaN, since the sort is undefined otherwise. Rows stored under keys
  beyond \<open>'~'\<close> are not returned.
\<close>

theorem select_exact:
  assumes ok: "table_ok n c schema" and t: "sel_table_name stmt = table_name schema" and safe: "safe_where (sel_where stmt)"
    and cols: "all_columns stmt \<or> list_all (\<lambda>n. 0 \<le> find_column schema n) (sel_columns stmt)"
    and order: "sel_order_by stmt = [] \<or> sel_order_by stmt \<in> set (sel_names schema stmt)" "order_ok c schema stmt"
    and sort: "std_sort_ok std_sort"
  shows "\<exists>r rows. exec_select std_sort c stmt = Some (r, c) \<and> \<not> is_error r
    \<and> qr_column_names r = sel_names schema stmt
    \<and> qr_rows r = (if 0 \<le> sel_limit stmt then take (nat (sel_limit stmt)) rows else rows)
    \<and> (sel_order_by stmt = [] \<longrightarrow> rows = asked_rows c schema stmt)
    \<and> (sel_order_by stmt \<noteq> [] \<longrightarrow> (\<exists>i. i < length (sel_names schema stmt) \<and> sel_names schema stmt ! i = sel_order_by stmt
         \<and> mset rows = mset (asked_rows c schema stmt)
         \<and> sorted_wrt (\<lambda>a b. \<not> order_before i (sel_order_desc stmt) b a) rows))
    \<and> set (table_list c schema) = {(pk, row). pk \<le> ''~'' \<and> table_map c schema pk = Some row}
    \<and> sorted_wrt (<) (map fst (table_list c schema))"
proof -
  let ?A = "asked_rows c schema stmt"
  obtain i where i: "sel_order_by stmt \<noteq> [] \<Longrightarrow> index_of (sel_order_by stmt) (sel_names schema stmt) = Some i
      \<and> i < length (sel_names schema stmt) \<and> sel_names schema stmt ! i = sel_order_by stmt"
    using index_of_mem order(1) by metis
  have weak: "strict_weak (order_before i (sel_order_desc stmt)) (set ?A)" if "sel_order_by stmt \<noteq> []"
    using order(2) i [OF that] that order_strict_weak unfolding order_ok_def by blast
  define rows where "rows = (if sel_order_by stmt = [] then ?A else std_sort (order_before i (sel_order_desc stmt)) ?A)"
  define lim where "lim = (if 0 \<le> sel_limit stmt \<and> nat (sel_limit stmt) < length rows then take (nat (sel_limit stmt)) rows else rows)"
  have "finish_select std_sort stmt (sel_names schema stmt) ?A = Some \<lparr>qr_status = OK, qr_message = dec_digits (length lim) @ '' row(s) returned.'',
      qr_column_names = sel_names schema stmt, qr_rows = lim\<rparr>"
    using i weak by (cases "sel_order_by stmt = []") (simp_all add: finish_select_def sort_rows_def lim_def rows_def Let_def)
  then obtain r where run: "exec_select std_sort c stmt = Some (r, c)" "qr_status r = OK" "qr_column_names r = sel_names schema stmt" "qr_rows r = lim"
    using exec_select_run [OF ok t safe cols, of std_sort] by auto
  have "mset rows = mset ?A \<and> sorted_wrt (\<lambda>a b. \<not> order_before i (sel_order_desc stmt) b a) rows" if "sel_order_by stmt \<noteq> []"
    using sort weak [OF that] that by (simp add: std_sort_ok_def rows_def)
  moreover have "lim = (if 0 \<le> sel_limit stmt then take (nat (sel_limit stmt)) rows else rows)" by (simp add: lim_def)
  moreover have "sorted_wrt (<) (map fst (table_list c schema))" using table_list_map(1) [OF ok] by (simp add: smap_wf_def)
  moreover have "set (table_list c schema) = {(pk, row). pk \<le> ''~'' \<and> table_map c schema pk = Some row}"
    using table_list_mem [OF ok] by (auto simp: scan_map_def split: if_splits)
  moreover have "sel_order_by stmt = [] \<longrightarrow> rows = ?A" by (simp add: rows_def)
  ultimately show ?thesis
    using run i by (intro exI [of _ r] exI [of _ rows]) (simp add: is_error_def, blast)
qed

section \<open>Types\<close>

definition row_typed :: "TableSchema \<Rightarrow> Value list \<Rightarrow> bool" where
  "row_typed schema row \<longleftrightarrow> (\<forall>i < length (columns schema). v_type (row ! i) = col_type (columns schema ! i))"

definition typed_table :: "Catalog \<Rightarrow> TableSchema \<Rightarrow> bool" where
  "typed_table c schema \<longleftrightarrow> (\<forall>pk row. table_map c schema pk = Some row \<longrightarrow> row_typed schema row)"

text \<open>The literals that the conversion rules turn into a value of the column type.\<close>

definition coercible :: "Value \<Rightarrow> ColumnType \<Rightarrow> bool" where
  "coercible v t \<longleftrightarrow> is_null v \<or> v_type v = t \<or> t = CtTEXT \<or> (v_type v = CtINT \<and> t = CtFLOAT) \<or> (v_type v = CtFLOAT \<and> t = CtINT)
     \<or> (v_type v = CtTEXT \<and> t = CtINT \<and> stoll (text_val v) \<noteq> None) \<or> (v_type v = CtTEXT \<and> t = CtFLOAT \<and> stod (text_val v) \<noteq> None)"

lemma coerce_typed: "coercible v t \<Longrightarrow> coerce_value v t = Some x \<Longrightarrow> v_type x = t"
  by (auto simp: coercible_def coerce_value_def value_makers split: if_splits option.splits)

definition pairs_coercible :: "TableSchema \<Rightarrow> (string \<times> Value) list \<Rightarrow> bool" where
  "pairs_coercible schema cvs \<longleftrightarrow>
     list_all (\<lambda>(col, v). safe_value v \<and> coercible v (col_type (columns schema ! nat (find_column schema col)))) cvs"

lemma filled_typed:
  assumes "pairs_coercible schema cvs" "v_type (row ! i) = col_type (columns schema ! i)"
  shows "v_type (filled schema cvs row i) = col_type (columns schema ! i)"
proof (cases "given schema cvs i")
  case (Some v)
  then have "(int i, v) \<in> set (map (\<lambda>(col, v). (find_column schema col, v)) cvs)"
    unfolding given_def by (metis map_of_SomeD set_rev)
  then have "safe_value v" "coercible v (col_type (columns schema ! i))"
    using assms(1) by (auto simp: pairs_coercible_def list_all_iff) (metis (no_types, lifting) case_prodD nat_int)
  moreover from this obtain x where "coerce_value v (col_type (columns schema ! i)) = Some x"
    using coerce_value_total by blast
  ultimately show ?thesis using coerce_typed Some by (simp add: filled_def)
qed (simp add: filled_def assms(2))

lemma insert_row_typed: "pairs_coercible schema (insert_pairs schema stmt) \<Longrightarrow> row_typed schema (insert_row schema stmt)"
  by (simp add: row_typed_def insert_row_def filled_typed null_row_def make_null_def)

lemma assigned_typed:
  "pairs_coercible schema (map (\<lambda>a. (asg_column a, asg_value a)) as) \<Longrightarrow> row_typed schema row \<Longrightarrow> row_typed schema (assigned schema as row)"
  by (simp add: row_typed_def assigned_def filled_typed)

text \<open>
  A row statement on a table: it names the table, its values can be converted, what it writes is within the size limits, and what
  it sorts by can be compared.
\<close>

fun row_stmt_ok :: "Catalog \<Rightarrow> TableSchema \<Rightarrow> Statement \<Rightarrow> bool" where
  "row_stmt_ok c schema (Insert s) \<longleftrightarrow> ins_table_name s = table_name schema \<and> list_all value_ok (ins_values s)
     \<and> list_all safe_value (ins_values s) \<and> pairs_coercible schema (insert_pairs schema s)
     \<and> small_entry (row_key (table_name schema) (format_pk (insert_row schema s ! pk_index schema)), Some (row_serialize schema (insert_row schema s)))"
| "row_stmt_ok c schema (Update s) \<longleftrightarrow> upd_table_name s = table_name schema \<and> known_columns schema (upd_assignments s)
     \<and> list_all (\<lambda>a. value_ok (asg_value a)) (upd_assignments s) \<and> safe_where (upd_where s)
     \<and> pairs_coercible schema (map (\<lambda>a. (asg_column a, asg_value a)) (upd_assignments s))
     \<and> (\<forall>(pk, row) \<in> set (table_list c schema). hits (upd_where s) schema row \<longrightarrow>
          small_entry (row_key (table_name schema) pk, Some (row_serialize schema (assigned schema (upd_assignments s) row))))"
| "row_stmt_ok c schema (Delete s) \<longleftrightarrow> del_table_name s = table_name schema \<and> safe_where (del_where s)"
| "row_stmt_ok c schema (Select s) \<longleftrightarrow> sel_table_name s = table_name schema \<and> safe_where (sel_where s) \<and> order_ok c schema s"
| "row_stmt_ok c schema _ \<longleftrightarrow> False"

lemma table_ok_mono: "table_ok n c schema \<Longrightarrow> m \<le> n \<Longrightarrow> table_ok m c schema"
  by (auto simp: table_ok_def intro: catalog_ok_mono)

lemma table_map_put:
  assumes "view (cat_engine c') = (view (cat_engine c))(row_key (table_name schema) pk \<mapsto> row_serialize schema row)"
    "row_deserialize schema (row_serialize schema row) = Some row"
  shows "table_map c' schema = (table_map c schema)(pk \<mapsto> row)"
  using assms by (auto simp: table_map_def fun_eq_iff)

lemma insert_preserves:
  assumes ok: "table_ok (Suc n) c schema" and key: "keyed schema" and typed: "typed_table c schema"
    and stmt: "row_stmt_ok c schema (Insert s)"
  shows "\<exists>r c'. exec_insert c s = Some (r, c') \<and> table_ok n c' schema \<and> typed_table c' schema"
proof -
  let ?row = "insert_row schema s"
  have vals: "list_all value_ok (ins_values s)" "list_all safe_value (ins_values s)" and t: "ins_table_name s = table_name schema"
    and fits: "small_entry (row_key (table_name schema) (format_pk (?row ! pk_index schema)), Some (row_serialize schema ?row))"
    and ty: "row_typed schema ?row"
    using stmt insert_row_typed by simp_all
  have same: "table_ok n c schema" by (rule table_ok_mono [OF ok]) simp
  note I = exec_insert_cases [OF ok key t vals]
  show ?thesis
  proof (cases "insert_valid schema s")
    case True
    have rok: "row_ok schema ?row" using row_ok_small [OF _ _ fits] I(3) [OF True] by (simp add: insert_row_def)
    note st = store_row_ok [OF ok rok fits]
    show ?thesis
    proof (cases "view (cat_engine c) (row_key (table_name schema) (format_pk (?row ! pk_index schema)))")
      case None
      then obtain c' where c': "store_row c schema (table_name schema) ?row (?row ! pk_index schema) = (qr_ok ''1 row inserted.'', c')"
        "view (cat_engine c') = (view (cat_engine c))(row_key (table_name schema) (format_pk (?row ! pk_index schema)) \<mapsto> row_serialize schema ?row)"
        "table_ok n c' schema" using st(2) by blast
      have "typed_table c' schema"
        using typed ty table_map_put [OF c'(2)] row_decode [OF _ rok] table_ok_schema [OF ok] by (auto simp: typed_table_def split: if_splits)
      then show ?thesis using I(3) [OF True] c' by simp
    next
      case (Some v)
      then show ?thesis using st(1) I(3) [OF True] same typed by simp
    qed
  next
    case False
    then show ?thesis using I(2) same typed by auto
  qed
qed

lemma update_preserves:
  assumes ok: "table_ok (length (table_list c schema) + n) c schema" and typed: "typed_table c schema"
    and stmt: "row_stmt_ok c schema (Update s)"
  shows "\<exists>r c'. exec_update c s = Some (r, c') \<and> table_ok n c' schema \<and> typed_table c' schema"
proof -
  let ?as = "upd_assignments s"
  note S = table_ok_schema [OF ok] and L = table_scan_list [OF ok]
  have p: "known_columns schema ?as" "list_all (\<lambda>a. value_ok (asg_value a)) ?as" "safe_where (upd_where s)" "upd_table_name s = table_name schema"
    "pairs_coercible schema (map (\<lambda>a. (asg_column a, asg_value a)) ?as)"
    and f: "\<forall>(pk, row) \<in> set (table_list c schema). hits (upd_where s) schema row \<longrightarrow>
      small_entry (row_key (table_name schema) pk, Some (row_serialize schema (assigned schema ?as row)))"
    using stmt by simp_all
  have fits: "small_entry (row_key (table_name schema) pk, Some (row_serialize schema (assigned schema ?as row)))"
    if "scan_map c schema pk = Some row" "hits (upd_where s) schema row" for pk row
    using bspec [OF f, of "(pk, row)"] that table_list_mem [OF ok] by simp
  have safe: "list_all (\<lambda>a. safe_value (asg_value a)) ?as" using p(5) by (auto simp: pairs_coercible_def list_all_iff)
  obtain r e where "update_loop schema s (map (enc_row schema) (table_list c schema)) 0 (cat_engine c) = Some (r, e)"
    using update_loop_total [OF L(2) _ p(3,1) safe] S by (metis prod.exhaust)
  then have run: "exec_update c s = Some (r, c\<lparr>cat_engine := e\<rparr>)" using S p(4) by (simp add: exec_update_def L(1))
  note U = exec_update_ok [OF ok p(4,1,2) fits run]
  have "typed_table (c\<lparr>cat_engine := e\<rparr>) schema"
    using typed assigned_typed [OF p(5)] U(2) by (auto simp: typed_table_def)
  then show ?thesis using U(1) run by blast
qed

lemma delete_preserves:
  assumes ok: "table_ok (length (table_list c schema) + n) c schema" and typed: "typed_table c schema"
    and stmt: "row_stmt_ok c schema (Delete s)"
  shows "\<exists>r c'. exec_delete c s = Some (r, c') \<and> table_ok n c' schema \<and> typed_table c' schema"
proof -
  note S = table_ok_schema [OF ok] and L = table_scan_list [OF ok]
  obtain hs where "matching_rows (del_where s) schema (map (enc_row schema) (table_list c schema)) = Some hs"
    using matching_rows_total [OF L(2), of "del_where s"] S stmt by auto
  then obtain r c' where run: "exec_delete c s = Some (r, c')" using S stmt by (simp add: exec_delete_def L(1))
  note D = exec_delete_ok [OF ok _ run]
  have "table_map c schema pk = Some row" if "table_map c' schema pk = Some row" for pk row
    using that D(2) stmt by (auto simp: table_map_def bind_eq_Some_conv split: if_splits)
  then have "typed_table c' schema" using typed unfolding typed_table_def by blast
  then show ?thesis using D(1) run stmt by auto
qed

lemma select_returns:
  assumes ok: "table_ok n c schema" and t: "sel_table_name s = table_name schema" and safe: "safe_where (sel_where s)"
    and order: "order_ok c schema s"
  shows "\<exists>r. exec_select std_sort c s = Some (r, c)"
proof (cases "all_columns s \<or> list_all (\<lambda>n. 0 \<le> find_column schema n) (sel_columns s)")
  case True
  then show ?thesis using exec_select_run [OF ok t safe] finish_select_total [OF order] by fastforce
next
  case False
  then obtain e where "select_indices schema (sel_columns s) = Inl e" using select_indices_unknown by (metis)
  then show ?thesis using False table_ok_schema [OF ok] t by (simp add: exec_select_def all_columns_def Let_def)
qed

text \<open>
  C19: types are preserved. On a table whose key column refuses NULL and whose rows all have the types of their columns, every
  insert, update, delete or select with literals that can be converted to the column types, and for a select with values in the
  column of \<open>ORDER BY\<close> that can be compared, returns, and leaves a sound table whose rows, reached by scans or not, again have
  the types of their columns.
\<close>

theorem sql_type_preservation:
  assumes ok: "table_ok (Suc (length (table_list c schema) + n)) c schema" and key: "keyed schema"
    and typed: "typed_table c schema" and stmt: "row_stmt_ok c schema stmt"
  shows "\<exists>r c'. execute std_sort c stmt = Some (r, c') \<and> table_ok n c' schema \<and> typed_table c' schema"
proof -
  have ok1: "table_ok (Suc n) c schema" and ok2: "table_ok (length (table_list c schema) + n) c schema" and ok3: "table_ok n c schema"
    by (rule table_ok_mono [OF ok]; simp)+
  show ?thesis
  proof (cases stmt)
    case (Insert s)
    then show ?thesis using insert_preserves [OF ok1 key typed] stmt by (simp add: execute_def)
  next
    case (Update s)
    then show ?thesis using update_preserves [OF ok2 typed] stmt by (simp add: execute_def)
  next
    case (Delete s)
    then show ?thesis using delete_preserves [OF ok2 typed] stmt by (simp add: execute_def)
  next
    case (Select s)
    have "\<exists>r. exec_select std_sort c s = Some (r, c)" by (rule select_returns [OF ok]) (use stmt Select in simp_all)
    then show ?thesis using ok3 typed Select by (auto simp: execute_def)
  qed (use stmt in simp_all)
qed

end
