(* ===== verification/Executor_Witnesses.thy ===== *)
theory Executor_Witnesses
  imports Executor_Properties
begin

text \<open>
  The executor at work: a table with an integer key and a text column, empty and with one row, on which the
  properties of the statements apply; and the cases in which conditions and conversions do not
  do what SQL says.
\<close>

section \<open>A table\<close>

definition ex_row :: "Value list" where
  "ex_row = [make_int 5, make_text ''a'']"

definition ex_insert :: InsertStmt where
  "ex_insert = \<lparr>ins_table_name = ''t'', ins_columns = [], ins_values = ex_row\<rparr>"

lemma ex_columns [simp]:
  "find_column ex_schema ''id'' = 0" "find_column ex_schema ''x'' = 1" "length (columns ex_schema) = 2" "pk_index ex_schema = 0"
  "table_name ex_schema = ''t''" "col_type (columns ex_schema ! 0) = CtINT" "col_type (columns ex_schema ! Suc 0) = CtTEXT" "keyed ex_schema"
  by (simp_all add: find_column_def ex_schema_def pk_index_def keyed_def)

lemma ex_key: "format_pk (make_int 5) = ''0000000005''"
  by code_simp

lemma ex_insert_row: "insert_row ex_schema ex_insert = ex_row"
  by code_simp

lemma ex_row_ok: "row_ok ex_schema ex_row" "list_all value_ok ex_row" "list_all safe_value ex_row"
  by (simp_all add: row_ok_def ex_row_def value_ok_def known_type_def value_makers safe_value_def)

lemma ex_fits: "small_entry (row_key ''t'' ''0000000005'', Some (row_serialize ex_schema ex_row))"
  by (simp add: small_entry_def key_defs row_serialize_def ex_row_def value_bytes_def value_makers)

lemma ex_created_table:
  obtains c where "table_ok 900 c ex_schema" "\<forall>pk. view (cat_engine c) (row_key ''t'' pk) = None" "set (map fst (cache c)) = {''t''}"
proof -
  have "catalog_ok (Suc (Suc 900)) ex_catalog" by (rule catalog_ok_mono [OF ex_catalog_ok(1)]) simp
  moreover have "\<not> table_exists ex_catalog (table_name ex_schema)" using ex_catalog_ok(3) by simp
  ultimately obtain c where c: "catalog_ok 900 c" "map_of (cache c) = (map_of (cache ex_catalog))(''t'' \<mapsto> ex_schema)"
    "view (cat_engine c) = (view (cat_engine ex_catalog))(catalog_key ''t'' \<mapsto> schema_serialize ex_schema, meta_key ''t'' ''next_rowid'' \<mapsto> ''1'')"
    using create_table_ok [OF _ ex_catalog_ok(2), of 900 ex_catalog, unfolded ex_schema_name] by (auto simp: ex_schema_name)
  have "view (cat_engine ex_catalog) k = None" for k by (simp add: ex_catalog_def view_def layers_def live_def ex_fresh_def)
  then have new: "\<forall>pk. view (cat_engine c) (row_key ''t'' pk) = None" by (simp add: c(3))
  then have "table_ok 900 c ex_schema" using c(1,2) by (simp add: table_ok_def)
  moreover have "set (map fst (cache c)) = {''t''}"
    using arg_cong [OF c(2), of dom] by (simp add: dom_map_of_conv_image_fst ex_catalog_def)
  ultimately show ?thesis using that new by blast
qed

lemma ex_empty_table:
  obtains c where "table_ok 900 c ex_schema" "\<forall>pk. view (cat_engine c) (row_key ''t'' pk) = None"
  by (rule ex_created_table) (rule that)

lemma ex_stored_row:
  obtains c where "table_ok 800 c ex_schema" "table_map c ex_schema = [''0000000005'' \<mapsto> ex_row]"
    "table_list c ex_schema = [(''0000000005'', ex_row)]" "set (map fst (cache c)) = {''t''}"
proof -
  obtain c0 where "table_ok 900 c0 ex_schema" and new: "\<forall>pk. view (cat_engine c0) (row_key ''t'' pk) = None"
    and names: "set (map fst (cache c0)) = {''t''}"
    by (rule ex_created_table)
  then have "table_ok (Suc 800) c0 ex_schema" by (elim table_ok_mono) simp
  note c0 = this new
  obtain c where c: "view (cat_engine c) = (view (cat_engine c0))(row_key ''t'' ''0000000005'' \<mapsto> row_serialize ex_schema ex_row)"
    "table_ok 800 c ex_schema" "cache c = cache c0"
    using store_row_ok(2) [OF c0(1) ex_row_ok(1), of "make_int 5"] ex_fits c0(2) by (auto simp: ex_key dest: cache_store_row)
  have d: "row_deserialize ex_schema (row_serialize ex_schema ex_row) = Some ex_row"
    using row_decode [OF _ ex_row_ok(1)] table_ok_schema [OF c(2)] by simp
  have le: "''0000000005'' \<le> ''~''" by (simp add: less_eq_list_code)
  have m: "table_map c ex_schema = [''0000000005'' \<mapsto> ex_row]"
    using c(1) c0(2) d by (auto simp: table_map_def fun_eq_iff)
  then have "scan_map c ex_schema = [''0000000005'' \<mapsto> ex_row]" using le by (auto simp: scan_map_def fun_eq_iff)
  then have "table_list c ex_schema = [(''0000000005'', ex_row)]"
    using table_list_map [OF c(2)] by (intro smap_eqI) (simp_all add: smap_wf_Cons)
  then show ?thesis using that c(2,3) m names by simp
qed

lemma ex_one_row:
  obtains c where "table_ok 800 c ex_schema" "table_map c ex_schema = [''0000000005'' \<mapsto> ex_row]"
    "table_list c ex_schema = [(''0000000005'', ex_row)]"
  by (rule ex_stored_row) (rule that)

section \<open>The statements on the table\<close>

theorem insert_exact_witness:
  "\<exists>c c'. table_ok 900 c ex_schema \<and> exec_insert c ex_insert = Some (qr_ok ''1 row inserted.'', c')
     \<and> view (cat_engine c') (row_key ''t'' ''0000000005'') = Some (row_serialize ex_schema ex_row)"
proof -
  obtain c where c: "table_ok 900 c ex_schema" and new: "\<forall>pk. view (cat_engine c) (row_key ''t'' pk) = None"
    by (rule ex_empty_table)
  have c1: "table_ok (Suc 800) c ex_schema" by (rule table_ok_mono [OF c]) simp
  have "insert_valid ex_schema ex_insert" by code_simp
  moreover have "ex_row ! 0 = make_int 5" "ins_table_name ex_insert = ''t''" "ins_values ex_insert = ex_row"
    by (simp_all add: ex_row_def ex_insert_def)
  ultimately obtain c' where "exec_insert c ex_insert = Some (qr_ok ''1 row inserted.'', c')"
    "view (cat_engine c') = (view (cat_engine c))(row_key ''t'' ''0000000005'' \<mapsto> row_serialize ex_schema ex_row)"
    using insert_exact [OF c1, of ex_insert] ex_row_ok ex_fits new by (auto simp: ex_insert_row ex_key Let_def)
  then show ?thesis using c by auto
qed

definition ex_where :: WhereClause where
  "ex_where = \<lparr>conditions = [\<lparr>cond_column = ''id'', cond_op = EQ, cond_value = make_int 5\<rparr>], logic_ops = []\<rparr>"

lemma ex_hits: "hits ex_where ex_schema ex_row" "safe_where ex_where"
  by code_simp+

theorem delete_exact_witness:
  "\<exists>c c'. table_map c ex_schema = [''0000000005'' \<mapsto> ex_row]
     \<and> exec_delete c \<lparr>del_table_name = ''t'', del_where = ex_where\<rparr> = Some (qr_ok ''1 row(s) deleted.'', c') \<and> table_map c' ex_schema = Map.empty"
proof -
  obtain c where "table_ok 800 c ex_schema" and m: "table_map c ex_schema = [''0000000005'' \<mapsto> ex_row]" "table_list c ex_schema = [(''0000000005'', ex_row)]"
    by (rule ex_one_row)
  then have c: "table_ok (length (table_list c ex_schema) + 700) c ex_schema" by (elim table_ok_mono) simp
  have h: "hit_keys c ex_schema ex_where = {''0000000005''}" using ex_hits by (auto simp: hit_keys_def m less_eq_list_code)
  have "dec_digits (card {''0000000005''}) = ''1''" using dec_digits_one by simp
  then obtain c' where "exec_delete c \<lparr>del_table_name = ''t'', del_where = ex_where\<rparr> = Some (qr_ok ''1 row(s) deleted.'', c')"
    "table_map c' ex_schema = (\<lambda>pk. if pk \<in> {''0000000005''} then None else table_map c ex_schema pk)"
    using delete_exact [OF c, of "\<lparr>del_table_name = ''t'', del_where = ex_where\<rparr>"] ex_hits by (auto simp: h)
  then show ?thesis by (intro exI [of _ c] exI [of _ c']) (simp add: m fun_eq_iff)
qed

definition ex_update :: UpdateStmt where
  "ex_update = \<lparr>upd_table_name = ''t'', upd_assignments = [\<lparr>asg_column = ''id'', asg_value = make_int 6\<rparr>], upd_where = ex_where\<rparr>"

text \<open>The row keeps its place in the table although its primary key changes.\<close>

theorem update_exact_witness:
  "\<exists>c c'. table_map c ex_schema = [''0000000005'' \<mapsto> ex_row]
     \<and> exec_update c ex_update = Some (qr_ok ''1 row(s) updated.'', c')
     \<and> table_map c' ex_schema = [''0000000005'' \<mapsto> [make_int 6, make_text ''a'']]"
proof -
  obtain c where "table_ok 800 c ex_schema" and m: "table_map c ex_schema = [''0000000005'' \<mapsto> ex_row]" "table_list c ex_schema = [(''0000000005'', ex_row)]"
    by (rule ex_one_row)
  then have c: "table_ok (length (table_list c ex_schema) + 700) c ex_schema" by (elim table_ok_mono) simp
  have a: "assigned ex_schema (upd_assignments ex_update) ex_row = [make_int 6, make_text ''a'']" by code_simp
  have f: "small_entry (row_key ''t'' ''0000000005'', Some (row_serialize ex_schema [make_int 6, make_text ''a'']))"
    by (simp add: small_entry_def key_defs row_serialize_def value_bytes_def value_makers)
  have h: "hit_keys c ex_schema ex_where = {''0000000005''}" using ex_hits by (auto simp: hit_keys_def m less_eq_list_code)
  have d: "dec_digits (card {''0000000005''}) = ''1''" using dec_digits_one by simp
  have u: "upd_where ex_update = ex_where" "upd_table_name ex_update = ''t''" by (simp_all add: ex_update_def)
  have k: "known_columns ex_schema (upd_assignments ex_update)"
    "list_all (\<lambda>a. value_ok (asg_value a) \<and> safe_value (asg_value a)) (upd_assignments ex_update)"
    by (simp_all add: known_columns_def ex_update_def value_ok_def safe_value_def known_type_def value_makers)
  have fits: "small_entry (row_key (table_name ex_schema) pk, Some (row_serialize ex_schema (assigned ex_schema (upd_assignments ex_update) row)))"
    if "table_map c ex_schema pk = Some row" for pk row
    using that f by (simp add: m a split: if_splits)
  obtain c' where c': "exec_update c ex_update = Some (qr_ok (dec_digits (card (hit_keys c ex_schema ex_where)) @ '' row(s) updated.''), c')"
    "table_map c' ex_schema = (\<lambda>pk. if pk \<in> hit_keys c ex_schema ex_where
        then map_option (assigned ex_schema (upd_assignments ex_update)) (table_map c ex_schema pk) else table_map c ex_schema pk)"
    using update_exact [OF c _ k _ fits] ex_hits(2) unfolding u by auto
  have "table_map c' ex_schema = [''0000000005'' \<mapsto> [make_int 6, make_text ''a'']]"
    by (simp add: c'(2) h m a fun_eq_iff)
  then show ?thesis using c'(1) d m by (intro exI [of _ c] exI [of _ c']) (simp add: h)
qed

definition ex_select :: SelectStmt where
  "ex_select = \<lparr>sel_table_name = ''t'', sel_columns = [''x''], sel_all = False, sel_where = ex_where,
     sel_order_by = ''x'', sel_order_desc = True, sel_limit = 3\<rparr>"

theorem select_exact_witness:
  "\<exists>c r. table_map c ex_schema = [''0000000005'' \<mapsto> ex_row] \<and> exec_select isort c ex_select = Some (r, c) \<and> qr_rows r = [[make_text ''a'']]"
proof -
  obtain c where c: "table_ok 800 c ex_schema" and m: "table_map c ex_schema = [''0000000005'' \<mapsto> ex_row]" "table_list c ex_schema = [(''0000000005'', ex_row)]"
    by (rule ex_one_row)
  have s: "sel_table_name ex_select = ''t''" "sel_where ex_select = ex_where" "sel_order_by ex_select = ''x''" "sel_limit ex_select = 3"
    "sel_names ex_schema ex_select = [''x'']" "\<not> all_columns ex_select" "sel_columns ex_select = [''x'']"
    by (simp_all add: ex_select_def sel_names_def all_columns_def)
  have a: "asked_rows c ex_schema ex_select = [[make_text ''a'']]"
    using ex_hits(1) s by (simp add: asked_rows_def m sel_indices_def ex_row_def)
  have "comparable (make_text ''a'')" by (simp add: comparable_def known_type_def value_makers)
  then have "order_ok c ex_schema ex_select" by (auto simp: order_ok_def a s(3,5))
  then obtain r rows where r: "exec_select isort c ex_select = Some (r, c)" "qr_rows r = take 3 rows" "mset rows = {#[make_text ''a'']#}"
    using select_exact [OF c _ _ _ _ _ isort_ok, of ex_select] ex_hits(2) s a by auto
  from r(3) have "rows = [[make_text ''a'']]" by simp
  then show ?thesis using m r by auto
qed

theorem sql_type_preservation_witness:
  "\<exists>c r c'. execute isort c (Insert ex_insert) = Some (r, c') \<and> table_ok 800 c' ex_schema \<and> typed_table c' ex_schema"
proof -
  obtain c where c: "table_ok 900 c ex_schema" and new: "\<forall>pk. view (cat_engine c) (row_key ''t'' pk) = None"
    by (rule ex_empty_table)
  have m: "table_map c ex_schema = Map.empty" using new by (auto simp: table_map_def)
  then have l: "table_list c ex_schema = []" using table_list_map(2) [OF c] by (cases "table_list c ex_schema") (auto simp: scan_map_def fun_eq_iff split: if_splits)
  have "table_ok (Suc (length (table_list c ex_schema) + 800)) c ex_schema" by (rule table_ok_mono [OF c]) (simp add: l)
  moreover have "typed_table c ex_schema" by (simp add: typed_table_def m)
  moreover have "pairs_coercible ex_schema (insert_pairs ex_schema ex_insert)" by code_simp
  then have "row_stmt_ok c ex_schema (Insert ex_insert)"
    using ex_row_ok ex_fits by (simp add: ex_insert_row ex_key) (simp add: ex_insert_def ex_row_def ex_key)
  ultimately show ?thesis using sql_type_preservation [of c ex_schema 800 "Insert ex_insert" isort] by auto
qed

section \<open>Where conditions depart from SQL\<close>

text \<open>
  C39: comparisons with a literal of another type, or with NULL, do not do what SQL says. For a boolean column, \<open>col = n\<close> with an
  integer literal holds exactly for the rows that are FALSE, whatever the integer; for an integer column, \<open>col = 'text'\<close> with
  a text that is no number holds exactly for the rows that are 0; and \<open>col <> v\<close> holds for rows in which the
  column is NULL.
\<close>

theorem where_departs_from_sql:
  assumes "find_column schema col = int i" "i < length row"
  shows "(row ! i = make_bool b \<longrightarrow>
      evaluate_condition \<lparr>cond_column = col, cond_op = EQ, cond_value = make_int k\<rparr> schema row = Some (\<not> b))
    \<and> (row ! i = make_int n \<and> stoll txt = None \<longrightarrow>
      evaluate_condition \<lparr>cond_column = col, cond_op = EQ, cond_value = make_text txt\<rparr> schema row = Some (n = 0))
    \<and> (is_null (row ! i) \<and> safe_value v \<longrightarrow>
      evaluate_condition \<lparr>cond_column = col, cond_op = NE, cond_value = v\<rparr> schema row = Some True)"
proof -
  have c: "coerce_value (make_int k) CtBOOL = Some (make_int k)"
    "stoll txt = None \<Longrightarrow> coerce_value (make_text txt) CtINT = Some (make_text txt)"
    by (simp_all add: coerce_value_def value_makers)
  have t: "v_type (make_bool b) = CtBOOL" "v_type (make_int n) = CtINT" by (simp_all add: value_makers)
  have e: "compare_eq (make_bool b) (make_int k) \<longleftrightarrow> \<not> b" "compare_eq (make_int n) (make_text txt) \<longleftrightarrow> n = 0"
    "is_null (row ! i) \<Longrightarrow> \<not> compare_eq (row ! i) x" for x
    by (simp_all add: compare_eq_def value_makers)
  show ?thesis
    using assms c t e coerce_value_total [of v "v_type (row ! i)"] by (auto simp: evaluate_condition_def Let_def)
qed

theorem where_departs_from_sql_witness:
  "evaluate_condition \<lparr>cond_column = ''x'', cond_op = EQ, cond_value = make_int 1\<rparr> ex_schema [make_int 0, make_bool False] = Some True
   \<and> evaluate_condition \<lparr>cond_column = ''x'', cond_op = EQ, cond_value = make_int 1\<rparr> ex_schema [make_int 0, make_bool True] = Some False
   \<and> evaluate_condition \<lparr>cond_column = ''id'', cond_op = EQ, cond_value = make_text ''abc''\<rparr> ex_schema [make_int 0, make_bool True] = Some True
   \<and> evaluate_condition \<lparr>cond_column = ''id'', cond_op = NE, cond_value = make_int 1\<rparr> ex_schema [make_null CtINT, make_bool True] = Some True"
proof -
  have "stoll ''abc'' = None" by code_simp
  moreover have "safe_value (make_int 1)" by (simp add: safe_value_def make_int_def)
  ultimately show ?thesis
    using where_departs_from_sql [of ex_schema "''x''" 1 "[make_int 0, make_bool False]" False 1]
      where_departs_from_sql [of ex_schema "''x''" 1 "[make_int 0, make_bool True]" True 1]
      where_departs_from_sql [of ex_schema "''id''" 0 "[make_int 0, make_bool True]" True 1 0 "''abc''"]
      where_departs_from_sql [of ex_schema "''id''" 0 "[make_null CtINT, make_bool True]" True 1 0 "''abc''" "make_int 1"]
    by (simp add: make_null_def)
qed

text \<open>With NULLs the comparison that \<open>ORDER BY\<close> hands to \<open>std::sort\<close> is no strict weak order, and the sort is undefined.\<close>

lemma order_null_not_weak: "\<not> strict_weak (order_before 0 False) {[make_int 1], [make_null CtINT], [make_int 2]}"
  by (simp add: strict_weak_def order_before_def compare_lt_def value_makers)

lemma order_by_null_undefined:
  "finish_select std_sort (ex_select\<lparr>sel_order_desc := False\<rparr>) [''x''] [[make_int 1], [make_null CtINT], [make_int 2]] = None"
  using order_null_not_weak by (simp add: finish_select_def sort_rows_def ex_select_def)

text \<open>An integer literal is stored as it is in a boolean column.\<close>

lemma int_stored_in_bool_column: "coerce_value (make_int 1) CtBOOL = Some (make_int 1)"
  by (simp add: coerce_value_def value_makers)

end
