(* ===== verification/Server.thy ===== *)
theory Server
  imports Executor
begin

text \<open>
  \<open>src/network/server.cpp\<close>: the binary protocol. A connection is what one client thread sees of its socket: the bytes the
  peer has still to deliver, after which it closes the stream; the bytes sent so far; a script of answers that
  \<open>recv\<close> and \<open>send\<close> consume (a call with no answer left completes); and the values that successive reads of \<open>running_\<close> give, which
  is true once they are used up. One thread serves one client, request by request; the state it works on is the
  catalog with its engine. Setting up the listening socket, accepting clients and starting threads are not modelled, and
  neither are requests of several clients at the same time; log output is left out.
\<close>

section \<open>The socket\<close>

record Conn =
  inbox :: "byte list"
  outbox :: "byte list"
  net :: "io_answer list"
  runs :: "bool list"

definition next_net :: "Conn \<Rightarrow> io_answer \<times> Conn" where
  "next_net s = (case net s of [] \<Rightarrow> (Done, s) | a # as \<Rightarrow> (a, s\<lparr>net := as\<rparr>))"

definition recv :: "Conn \<Rightarrow> nat \<Rightarrow> int \<times> byte list \<times> Conn" where
  "recv s len =
     (let take_in = (\<lambda>n s. (int (length (take n (inbox s))), take n (inbox s), s\<lparr>inbox := drop n (inbox s)\<rparr>))
      in case next_net s of
           (Fail, s') \<Rightarrow> (-1, [], s')
         | (Done, s') \<Rightarrow> take_in len s'
         | (Short m, s') \<Rightarrow> take_in (min m len) s')"

definition send :: "Conn \<Rightarrow> byte list \<Rightarrow> int \<times> Conn" where
  "send s data =
     (let put_out = (\<lambda>n s. (int (length (take n data)), s\<lparr>outbox := outbox s @ take n data\<rparr>))
      in case next_net s of
           (Fail, s') \<Rightarrow> (-1, s')
         | (Done, s') \<Rightarrow> put_out (length data) s'
         | (Short m, s') \<Rightarrow> put_out m s')"

lemma recv_spec:
  "recv s len = (n, bs, s') \<Longrightarrow> inbox s = bs @ inbox s' \<and> outbox s' = outbox s \<and> runs s' = runs s
     \<and> length bs = nat n \<and> n \<le> int len \<and> set (net s') \<subseteq> set (net s)"
  by (auto simp: recv_def next_net_def Let_def split: list.splits io_answer.splits)

lemma send_spec:
  "send s data = (n, s') \<Longrightarrow> inbox s' = inbox s \<and> runs s' = runs s \<and> outbox s' = outbox s @ take (nat n) data
     \<and> n \<le> int (length data) \<and> set (net s') \<subseteq> set (net s)"
  by (auto simp: send_def next_net_def Let_def min_def split: list.splits io_answer.splits)

text \<open>
  \<open>recv_all\<close>: the bytes, or \<open>None\<close> when the call fails or the peer has closed. Every length it is called with is at most
  100 MB, so the cast to \<open>int\<close> in its loop keeps the value.
\<close>

function recv_all :: "Conn \<Rightarrow> nat \<Rightarrow> byte list option \<times> Conn" where
  "recv_all s len =
     (if len = 0 then (Some [], s)
      else case recv s len of
        (n, bs, s1) \<Rightarrow>
          if n \<le> 0 then (None, s1)
          else case recv_all s1 (len - nat n) of (r, s2) \<Rightarrow> (map_option (\<lambda>rest. bs @ rest) r, s2))"
  by pat_completeness auto
termination
  by (relation "measure (\<lambda>(s, len). len)") auto

declare recv_all.simps [simp del]

text \<open>
  \<open>send_all\<close> casts the number of bytes that are left to \<open>int\<close>. From 2 GB on the result can be negative, which \<open>send\<close> takes for a
  huge length and reads past the buffer: undefined, and \<open>None\<close> here.
\<close>

definition cast_int :: "nat \<Rightarrow> int" where
  "cast_int n = sint (of_nat n :: u32)"

function send_all :: "Conn \<Rightarrow> byte list \<Rightarrow> (bool \<times> Conn) option" where
  "send_all s data =
     (if data = [] then Some (True, s)
      else if cast_int (length data) < 0 then None
      else case send s (take (nat (cast_int (length data))) data) of
        (n, s1) \<Rightarrow> if n \<le> 0 then Some (False, s1) else send_all s1 (drop (nat n) data))"
  by pat_completeness auto
termination
  by (relation "measure (\<lambda>(s, data). length data)") auto

declare send_all.simps [simp del]

lemma recv_all_Some:
  "recv_all s len = (Some bs, s') \<Longrightarrow> inbox s = bs @ inbox s' \<and> length bs = len"
proof (induction s len arbitrary: bs s' rule: recv_all.induct)
  case (1 s len)
  show ?case
  proof (cases "len = 0")
    case False
    obtain n b s1 where r: "recv s len = (n, b, s1)" by (metis prod_cases3)
    note R = recv_spec [OF r]
    have n: "\<not> n \<le> 0" using False "1.prems" r by (auto simp: recv_all.simps [of s len])
    then obtain rest where rec: "recv_all s1 (len - nat n) = (Some rest, s')" "bs = b @ rest"
      using False "1.prems" r by (auto simp: recv_all.simps [of s len] split: prod.splits)
    then have "inbox s1 = rest @ inbox s' \<and> length rest = len - nat n"
      using "1.IH" [OF False r [symmetric] refl n] by blast
    then show ?thesis using R rec(2) by auto
  qed (use "1.prems" in \<open>simp add: recv_all.simps\<close>)
qed

lemma send_all_inbox: "send_all s data = Some (ok, s') \<Longrightarrow> inbox s' = inbox s"
proof (induction s data rule: send_all.induct)
  case (1 s data)
  show ?case
  proof (cases "data = []")
    case False
    let ?d = "take (nat (cast_int (length data))) data"
    obtain n s1 where w: "send s ?d = (n, s1)" by fastforce
    have c: "\<not> cast_int (length data) < 0" using False "1.prems" by (auto simp: send_all.simps [of s data])
    show ?thesis
      using send_spec [OF w] "1.IH" [OF False c w [symmetric]] "1.prems" False c w
      by (cases "n \<le> 0") (auto simp: send_all.simps [of s data])
  qed (use "1.prems" in \<open>simp add: send_all.simps\<close>)
qed

section \<open>Requests\<close>

definition DEFAULT_PORT :: "16 word" where "DEFAULT_PORT = 7690"
definition PROTO_PUT :: byte where "PROTO_PUT = 0x01"
definition PROTO_GET :: byte where "PROTO_GET = 0x02"
definition PROTO_DELETE :: byte where "PROTO_DELETE = 0x03"
definition PROTO_SCAN :: byte where "PROTO_SCAN = 0x04"
definition PROTO_SQL :: byte where "PROTO_SQL = 0x05"
definition RESP_OK :: byte where "RESP_OK = 0x00"
definition RESP_NOT_FOUND :: byte where "RESP_NOT_FOUND = 0x01"
definition RESP_ERROR :: byte where "RESP_ERROR = 0x02"

lemmas proto_defs = PROTO_PUT_def PROTO_GET_def PROTO_DELETE_def PROTO_SCAN_def PROTO_SQL_def
  RESP_OK_def RESP_NOT_FOUND_def RESP_ERROR_def

text \<open>A string behind its length.\<close>

definition sized :: "string \<Rightarrow> byte list" where
  "sized s = encode_u32_le (of_nat (length s)) @ bytes_of s"

definition scan_response :: "(string \<times> string) list \<Rightarrow> byte list" where
  "scan_response entries =
     encode_u32_le (of_nat (length entries))
     @ concat (map (\<lambda>(k, v). encode_u32_le (of_nat (length k)) @ encode_u32_le (of_nat (length v)) @ bytes_of k @ bytes_of v) entries)"

definition sql_response :: "QueryResult \<Rightarrow> byte list" where
  "sql_response r =
     sized (qr_message r)
     @ encode_u32_le (of_nat (length (qr_column_names r))) @ concat (map sized (qr_column_names r))
     @ encode_u32_le (of_nat (length (qr_rows r))) @ concat (map (\<lambda>row. concat (map (\<lambda>v. sized (value_to_string v)) row)) (qr_rows r))"

definition with_engine :: "Catalog \<Rightarrow> Status \<times> StorageEngine \<Rightarrow> Status \<times> Catalog" where
  "with_engine c r = (fst r, c\<lparr>cat_engine := snd r\<rparr>)"

definition dispatch :: "sorter \<Rightarrow> Catalog \<Rightarrow> byte \<Rightarrow> string \<Rightarrow> string \<Rightarrow> (byte \<times> byte list \<times> Catalog) option" where
  "dispatch std_sort c type key val =
     (if type = PROTO_PUT then
        (case with_engine c (engine_put (cat_engine c) key val) of
           (s, c') \<Rightarrow> Some (if s = OK then RESP_OK else RESP_ERROR, [], c'))
      else if type = PROTO_GET then
        (case engine_get (cat_engine c) key of
           (s, v) \<Rightarrow> Some (if s = OK then (RESP_OK, bytes_of v, c)
                           else if s = NOT_FOUND then (RESP_NOT_FOUND, [], c) else (RESP_ERROR, [], c)))
      else if type = PROTO_DELETE then
        (case with_engine c (engine_remove (cat_engine c) key) of
           (s, c') \<Rightarrow> Some (if s = OK then RESP_OK else RESP_ERROR, [], c'))
      else if type = PROTO_SCAN then Some (RESP_OK, scan_response (engine_scan (cat_engine c) key val), c)
      else if type = PROTO_SQL then
        (case execute_sql std_sort c key of
           None \<Rightarrow> None
         | Some (r, c') \<Rightarrow> Some (if is_error r then RESP_ERROR else RESP_OK, sql_response r, c'))
      else Some (RESP_ERROR, [], c))"

text \<open>The answer on the wire: header, then the value unless it is empty.\<close>

definition respond :: "Conn \<Rightarrow> byte \<Rightarrow> byte list \<Rightarrow> (bool \<times> Conn) option" where
  "respond s resp_status resp_value =
     (case send_all s (resp_status # encode_u32_le (of_nat (length resp_value))) of
        None \<Rightarrow> None
      | Some (False, s1) \<Rightarrow> Some (False, s1)
      | Some (True, s1) \<Rightarrow> if resp_value = [] then Some (True, s1) else send_all s1 resp_value)"

text \<open>Reading one request: \<open>None\<close> is a \<open>break\<close> of the loop.\<close>

definition read_request :: "Conn \<Rightarrow> (byte \<times> string \<times> string) option \<times> Conn" where
  "read_request s =
     (case recv_all s 9 of
        (None, s1) \<Rightarrow> (None, s1)
      | (Some header, s1) \<Rightarrow>
          let key_size = decode_u32_le (drop 1 header); val_size = decode_u32_le (drop 5 header)
          in if key_size > 10 * 1024 * 1024 \<or> val_size > 100 * 1024 * 1024 then (None, s1)
             else case (if key_size > 0 then recv_all s1 (unat key_size) else (Some [], s1)) of
               (None, s2) \<Rightarrow> (None, s2)
             | (Some key, s2) \<Rightarrow>
                 (case (if val_size > 0 then recv_all s2 (unat val_size) else (Some [], s2)) of
                    (None, s3) \<Rightarrow> (None, s3)
                  | (Some val, s3) \<Rightarrow> (Some (header ! 0, string_of key, string_of val), s3)))"

text \<open>One turn of the loop of \<open>handle_client\<close> after \<open>running_\<close> was found true; the flag says whether the loop goes on.\<close>

definition serve_one :: "sorter \<Rightarrow> Catalog \<Rightarrow> Conn \<Rightarrow> (bool \<times> Catalog \<times> Conn) option" where
  "serve_one std_sort c s =
     (case read_request s of
        (None, s1) \<Rightarrow> Some (False, c, s1)
      | (Some (type, key, val), s1) \<Rightarrow>
          (case dispatch std_sort c type key val of
             None \<Rightarrow> None
           | Some (resp_status, resp_value, c1) \<Rightarrow>
               (case respond s1 resp_status resp_value of
                  None \<Rightarrow> None
                | Some (ok, s2) \<Rightarrow> Some (ok, c1, s2))))"

definition is_running :: "Conn \<Rightarrow> bool \<times> Conn" where
  "is_running s = (case runs s of [] \<Rightarrow> (True, s) | b # bs \<Rightarrow> (b, s\<lparr>runs := bs\<rparr>))"

lemma recv_part_inbox:
  "(if 0 < n then recv_all s m else (Some [], s)) = (Some bs, s') \<Longrightarrow> length (inbox s') \<le> length (inbox s)" for n :: u32
  by (auto dest: recv_all_Some split: if_splits)

lemma read_request_shrinks: "read_request s = (Some r, s') \<Longrightarrow> length (inbox s') < length (inbox s)"
  by (auto simp: read_request_def Let_def dest!: recv_all_Some recv_part_inbox split: prod.splits option.splits if_splits)

lemma respond_inbox: "respond s st v = Some (ok, s') \<Longrightarrow> inbox s' = inbox s"
  by (auto simp: respond_def dest!: send_all_inbox split: option.splits prod.splits bool.splits if_splits)

lemma serve_one_shrinks: "serve_one std_sort c s = Some (True, c', s') \<Longrightarrow> length (inbox s') < length (inbox s)"
  by (auto simp: serve_one_def dest!: read_request_shrinks respond_inbox split: option.splits prod.splits)

function handle_client :: "sorter \<Rightarrow> Catalog \<Rightarrow> Conn \<Rightarrow> (Catalog \<times> Conn) option" where
  "handle_client std_sort c s =
     (case is_running s of
        (False, s1) \<Rightarrow> Some (c, s1)
      | (True, s1) \<Rightarrow>
          (case serve_one std_sort c s1 of
             None \<Rightarrow> None
           | Some (False, c2, s2) \<Rightarrow> Some (c2, s2)
           | Some (True, c2, s2) \<Rightarrow> handle_client std_sort c2 s2))"
  by pat_completeness auto
termination
proof (relation "measure (\<lambda>(f, c, s). length (inbox s))", goal_cases)
  case (2 f c s b s1 x p c2 q s2)
  then have "inbox s1 = inbox s" by (auto simp: is_running_def split: list.splits)
  with 2 show ?case using serve_one_shrinks by fastforce
qed simp

declare handle_client.simps [simp del]

end
