(* ===== verification/Client.thy ===== *)
theory Client
  imports Server
begin

text \<open>
  \<open>client/mosaic_client.py\<close>: the client side of the protocol, up to the conversion between text and UTF-8 bytes. What a method
  receives is read from the stream of bytes the server sent; \<open>None\<close> is an exception (the connection
  closed early, a buffer too short for \<open>struct.unpack\<close>, an error status in \<open>get\<close> and \<open>scan\<close>).
\<close>

text \<open>
  What \<open>_request\<close> sends: \<open>struct.pack("<BII", ...)\<close> with the two lengths, then key and value. The lengths have to be below
  \<open>2 ^ 32\<close>, otherwise \<open>pack\<close> raises.
\<close>

definition request_bytes :: "byte \<Rightarrow> string \<Rightarrow> string \<Rightarrow> byte list" where
  "request_bytes cmd key val =
     cmd # encode_u32_le (of_nat (length key)) @ encode_u32_le (of_nat (length val)) @ bytes_of key @ bytes_of val"

text \<open>What \<open>_request\<close> receives, and the rest of the stream.\<close>

definition read_response :: "byte list \<Rightarrow> ((byte \<times> byte list) \<times> byte list) option" where
  "read_response strm = do {
     (status, p1) \<leftarrow> rd_byte strm;
     (val_size, p2) \<leftarrow> rd_u32 p1;
     (resp_value, p3) \<leftarrow> rd_bytes (unat val_size) p2;
     Some ((status, resp_value), p3) }"

definition client_put :: "byte list \<Rightarrow> (bool \<times> byte list) option" where
  "client_put strm = do { ((status, v), rest) \<leftarrow> read_response strm; Some (status = RESP_OK, rest) }"

definition client_delete :: "byte list \<Rightarrow> (bool \<times> byte list) option" where
  "client_delete strm = do { ((status, v), rest) \<leftarrow> read_response strm; Some (status = RESP_OK, rest) }"

definition client_get :: "byte list \<Rightarrow> (string option \<times> byte list) option" where
  "client_get strm = do {
     ((status, v), rest) \<leftarrow> read_response strm;
     if status = RESP_OK then Some (Some (string_of v), rest)
     else if status = RESP_NOT_FOUND then Some (None, rest) else None }"

fun scan_entries :: "nat \<Rightarrow> byte list \<Rightarrow> (string \<times> string) list" where
  "scan_entries 0 p = []"
| "scan_entries (Suc n) p =
     (if length p < 8 then []
      else let ks = unat (decode_u32_le (take 4 p)); vs = unat (decode_u32_le (take 4 (drop 4 p))); q = drop 8 p
           in (string_of (take ks q), string_of (take vs (drop ks q))) # scan_entries n (drop vs (drop ks q)))"

definition client_scan :: "byte list \<Rightarrow> ((string \<times> string) list \<times> byte list) option" where
  "client_scan strm = do {
     ((status, v), rest) \<leftarrow> read_response strm;
     if status \<noteq> RESP_OK then None
     else if length v < 4 then Some ([], rest)
     else Some (scan_entries (unat (decode_u32_le (take 4 v))) (drop 4 v), rest) }"

text \<open>\<open>read_u32\<close> and \<open>read_str\<close> of \<open>execute_sql\<close>, and its loops.\<close>

definition read_str :: "u32 \<Rightarrow> byte list \<Rightarrow> string \<times> byte list" where
  "read_str len p = (string_of (take (unat len) p), drop (unat len) p)"

fun read_strs :: "nat \<Rightarrow> byte list \<Rightarrow> (string list \<times> byte list) option" where
  "read_strs 0 p = Some ([], p)"
| "read_strs (Suc n) p = do {
     (len, p1) \<leftarrow> rd_u32 p;
     let (x, p2) = read_str len p1;
     (xs, p3) \<leftarrow> read_strs n p2;
     Some (x # xs, p3) }"

fun read_rows :: "nat \<Rightarrow> nat \<Rightarrow> byte list \<Rightarrow> (string list list \<times> byte list) option" where
  "read_rows cols 0 p = Some ([], p)"
| "read_rows cols (Suc n) p = do {
     (row, p1) \<leftarrow> read_strs cols p;
     (rows, p2) \<leftarrow> read_rows cols n p1;
     Some (row # rows, p2) }"

record SqlAnswer =
  ans_ok :: bool
  ans_message :: string
  ans_columns :: "string list"
  ans_rows :: "string list list"

definition client_sql :: "byte list \<Rightarrow> (SqlAnswer \<times> byte list) option" where
  "client_sql strm = do {
     ((status, v), rest) \<leftarrow> read_response strm;
     if length v < 4 then
       Some (\<lparr>ans_ok = (status = RESP_OK), ans_message = (if v = [] then ''No response'' else string_of v),
              ans_columns = [], ans_rows = []\<rparr>, rest)
     else do {
       (msg_len, p1) \<leftarrow> rd_u32 v;
       let (msg, p2) = read_str msg_len p1;
       (col_count, p3) \<leftarrow> rd_u32 p2;
       (cols, p4) \<leftarrow> read_strs (unat col_count) p3;
       (row_count, p5) \<leftarrow> rd_u32 p4;
       (rows, p6) \<leftarrow> read_rows (unat col_count) (unat row_count) p5;
       Some (\<lparr>ans_ok = (status = RESP_OK), ans_message = msg, ans_columns = cols, ans_rows = rows\<rparr>, rest) } }"

section \<open>The client reads what the server writes\<close>

definition response_bytes :: "byte \<Rightarrow> byte list \<Rightarrow> byte list" where
  "response_bytes status v = status # encode_u32_le (of_nat (length v)) @ v"

lemma read_response_bytes [codec_simps]:
  "length v < 2 ^ 32 \<Longrightarrow> read_response (response_bytes status v @ rest) = Some ((status, v), rest)"
  by (simp add: read_response_def response_bytes_def codec_simps)

lemma read_str_append [codec_simps]:
  "length s < 2 ^ 32 \<Longrightarrow> read_str (of_nat (length s)) (bytes_of s @ rest) = (s, rest)"
  by (simp add: read_str_def)

interpretation strs: counted_list read_strs sized "\<lambda>s. length s < 2 ^ 32"
proof
  show "length s < 2 ^ 32 \<Longrightarrow> read_strs (Suc n) (sized s @ p) = map_option (\<lambda>(ss, q). (s # ss, q)) (read_strs n p)" for s n p
    by (cases "read_strs n p") (auto simp: sized_def codec_simps)
qed simp

interpretation str_rows: counted_list "read_rows cols" "\<lambda>row. concat (map sized row)"
  "\<lambda>row. length row = cols \<and> list_all (\<lambda>s. length s < 2 ^ 32) row" for cols
proof
  show "length row = cols \<and> list_all (\<lambda>s. length s < 2 ^ 32) row \<Longrightarrow>
      read_rows cols (Suc n) (concat (map sized row) @ p) = map_option (\<lambda>(rows, q). (row # rows, q)) (read_rows cols n p)" for row n p
    using strs.read_list [of row p] by (cases "read_rows cols n p") auto
qed simp

lemma scan_entries_response:
  "list_all (\<lambda>(k, v). length k < 2 ^ 32 \<and> length v < 2 ^ 32) es \<Longrightarrow>
   scan_entries (length es) (drop 4 (scan_response es)) = es"
  by (induction es) (auto simp: scan_response_def)

end
