(* ===== verification/Server_Correct.thy ===== *)
theory Server_Correct
  imports Client "HOL-Library.Sublist"
begin

text \<open>
  A session of the Python client with the C++ server, over a network that may split the streams anywhere but does not
  fail: key-value requests behave as operations of a map, a request that is cut off has no
  effect, and the answer to an SQL text reads back as the result of the statement.
\<close>

section \<open>A network that delivers\<close>

definition live_net :: "Conn \<Rightarrow> bool" where
  "live_net s \<longleftrightarrow> (\<forall>a \<in> set (net s). a \<noteq> Fail \<and> a \<noteq> Short 0)"

lemma recv_live:
  assumes "live_net s" "0 < len"
  shows "\<exists>n s'. 0 < n \<and> n \<le> len \<and> recv s len = (int (min n (length (inbox s))), take n (inbox s), s')
    \<and> inbox s' = drop n (inbox s) \<and> outbox s' = outbox s \<and> runs s' = runs s \<and> live_net s'"
proof (cases "net s")
  case Nil
  then show ?thesis using assms by (intro exI [of _ len]) (auto simp: recv_def next_net_def Let_def live_net_def min.commute)
next
  case (Cons a as)
  show ?thesis
  proof (cases a)
    case (Short m)
    then show ?thesis using assms Cons
      by (intro exI [of _ "min m len"]) (auto simp: recv_def next_net_def Let_def live_net_def min_def)
  qed (use assms Cons in \<open>auto simp: recv_def next_net_def Let_def live_net_def min.commute intro!: exI [of _ len]\<close>)
qed

lemma send_live:
  assumes "live_net s" "data \<noteq> []"
  shows "\<exists>n s'. 0 < n \<and> n \<le> length data \<and> send s data = (int n, s') \<and> outbox s' = outbox s @ take n data
    \<and> inbox s' = inbox s \<and> runs s' = runs s \<and> live_net s'"
proof (cases "net s")
  case Nil
  then show ?thesis using assms by (intro exI [of _ "length data"]) (auto simp: send_def next_net_def Let_def live_net_def)
next
  case (Cons a as)
  show ?thesis
  proof (cases a)
    case (Short m)
    then show ?thesis using assms Cons
      by (intro exI [of _ "min m (length data)"]) (auto simp: send_def next_net_def Let_def live_net_def min_def)
  qed (use assms Cons in \<open>auto simp: send_def next_net_def Let_def live_net_def intro!: exI [of _ "length data"]\<close>)
qed

lemma recv_all_live:
  assumes "live_net s"
  shows "\<exists>s'. recv_all s len = (if len \<le> length (inbox s) then Some (take len (inbox s)) else None, s')
    \<and> (len \<le> length (inbox s) \<longrightarrow> inbox s' = drop len (inbox s)) \<and> outbox s' = outbox s \<and> runs s' = runs s \<and> live_net s'"
  using assms
proof (induction len arbitrary: s rule: less_induct)
  case (less len)
  show ?case
  proof (cases "len = 0")
    case False
    then obtain n s1 where n: "0 < n" "n \<le> len" "recv s len = (int (min n (length (inbox s))), take n (inbox s), s1)"
      "inbox s1 = drop n (inbox s)" "outbox s1 = outbox s" "runs s1 = runs s" "live_net s1"
      using recv_live [OF less.prems, of len] by auto
    show ?thesis
    proof (cases "inbox s = []")
      case True
      then show ?thesis using n False by (simp add: recv_all.simps [of s len])
    next
      case ne: False
      define m where "m = min n (length (inbox s))"
      have m0: "0 < m" using n(1) ne by (simp add: m_def)
      obtain s2 where s2: "recv_all s1 (len - m) = (if len - m \<le> length (inbox s1) then Some (take (len - m) (inbox s1)) else None, s2)"
        "len - m \<le> length (inbox s1) \<longrightarrow> inbox s2 = drop (len - m) (inbox s1)" "outbox s2 = outbox s1" "runs s2 = runs s1" "live_net s2"
        using less.IH [of "len - m" s1] n False m0 by auto
      then have run: "recv_all s len = (map_option (\<lambda>rest. take n (inbox s) @ rest) (fst (recv_all s1 (len - m))), s2)"
        using False m0 n(3) s2(1) unfolding m_def [symmetric] by (simp add: recv_all.simps [of s len])
      have le: "len - m \<le> length (inbox s1) \<longleftrightarrow> len \<le> length (inbox s)" using n by (auto simp: m_def min_def)
      show ?thesis
      proof (cases "len \<le> length (inbox s)")
        case True
        then have m: "m = n" using n(2) by (simp add: m_def)
        have "take n (inbox s) @ take (len - n) (drop n (inbox s)) = take len (inbox s)"
          using n(2) by (metis le_add_diff_inverse take_add)
        then show ?thesis using run s2 le True n m by simp
      next
        case False
        then show ?thesis using run s2 le n by simp
      qed
    qed
  qed (simp add: recv_all.simps less.prems)
qed

lemma cast_int_small: "n < 2 ^ 31 \<Longrightarrow> cast_int n = int n"
  by (simp add: cast_int_def sint_uint unat_of_nat signed_take_bit_int_eq_self_iff uint_nat signed_take_bit_eq_take_bit_shift take_bit_int_eq_self)

lemma send_all_live:
  assumes "live_net s" "length data < 2 ^ 31"
  shows "\<exists>s'. send_all s data = Some (True, s') \<and> outbox s' = outbox s @ data \<and> inbox s' = inbox s \<and> runs s' = runs s \<and> live_net s'"
  using assms
proof (induction "length data" arbitrary: s data rule: less_induct)
  case less
  show ?case
  proof (cases "data = []")
    case False
    then obtain n s1 where n: "0 < n" "n \<le> length data" "send s data = (int n, s1)" "outbox s1 = outbox s @ take n data"
      "inbox s1 = inbox s" "runs s1 = runs s" "live_net s1"
      using send_live [OF less.prems(1)] by blast
    moreover have "length (drop n data) < length data" using n False by simp
    ultimately obtain s2 where "send_all s1 (drop n data) = Some (True, s2)" "outbox s2 = outbox s1 @ drop n data"
      "inbox s2 = inbox s1" "runs s2 = runs s1" "live_net s2"
      using less.hyps [of "drop n data" s1] less.prems(2) by auto
    then show ?thesis using n False less.prems(2) by (simp add: send_all.simps [of s data] cast_int_small)
  qed (simp add: send_all.simps less.prems)
qed

lemma respond_live:
  assumes "live_net s" "length v < 2 ^ 31"
  shows "\<exists>s'. respond s st v = Some (True, s') \<and> outbox s' = outbox s @ response_bytes st v \<and> inbox s' = inbox s
    \<and> runs s' = runs s \<and> live_net s'"
proof -
  obtain s1 where s1: "send_all s (st # encode_u32_le (of_nat (length v))) = Some (True, s1)" "inbox s1 = inbox s" "runs s1 = runs s"
    "outbox s1 = outbox s @ st # encode_u32_le (of_nat (length v))" "live_net s1"
    using send_all_live [OF assms(1), of "st # encode_u32_le (of_nat (length v))"] by auto
  then show ?thesis
    using send_all_live [OF s1(5) assms(2)] by (cases "v = []") (auto simp: respond_def response_bytes_def)
qed

section \<open>Reading a request\<close>

lemma header_sizes:
  "decode_u32_le (drop 1 (t # encode_u32_le a @ encode_u32_le b)) = a"
  "decode_u32_le (drop 5 (t # encode_u32_le a @ encode_u32_le b)) = b"
  by simp_all

lemma take_header: "take 9 (request_bytes t k v @ rest) = t # encode_u32_le (of_nat (length k)) @ encode_u32_le (of_nat (length v))"
  and drop_header: "drop 9 (request_bytes t k v @ rest) = bytes_of k @ bytes_of v @ rest"
  by (simp_all add: request_bytes_def)

definition wire_size :: "string \<Rightarrow> string \<Rightarrow> bool" where
  "wire_size k v \<longleftrightarrow> length k \<le> 10 * 1024 * 1024 \<and> length v \<le> 100 * 1024 * 1024"

lemma recv_sized:
  assumes "length k < 2 ^ 32"
  shows "(if (of_nat (length k) :: u32) > 0 then recv_all s (unat (of_nat (length k) :: u32)) else (Some [], s)) = recv_all s (length k)"
proof (cases "length k = 0")
  case False
  then have "(of_nat (length k) :: u32) > 0" using assms by (simp add: word_less_nat_alt)
  then show ?thesis using assms by simp
qed (simp add: recv_all.simps)

lemma size_check:
  assumes "length k < 2 ^ 32" "length v < 2 ^ 32"
  shows "((of_nat (length k) :: u32) > 10 * 1024 * 1024 \<or> (of_nat (length v) :: u32) > 100 * 1024 * 1024) \<longleftrightarrow> \<not> wire_size k v"
  using assms by (simp add: word_less_nat_alt wire_size_def not_le)

lemma read_request_header:
  assumes "length k < 2 ^ 32" "length v < 2 ^ 32"
    and "recv_all s 9 = (Some (t # encode_u32_le (of_nat (length k)) @ encode_u32_le (of_nat (length v))), s1)"
  shows "read_request s =
    (if wire_size k v then
       (case recv_all s1 (length k) of
          (None, s2) \<Rightarrow> (None, s2)
        | (Some key, s2) \<Rightarrow>
            (case recv_all s2 (length v) of
               (None, s3) \<Rightarrow> (None, s3)
             | (Some val, s3) \<Rightarrow> (Some (t, string_of key, string_of val), s3)))
     else (None, s1))"
  unfolding read_request_def assms(3) prod.case option.case Let_def header_sizes size_check [OF assms(1,2)]
    recv_sized [OF assms(1)] recv_sized [OF assms(2)] nth_Cons_0 by simp

lemma read_request_live:
  assumes "live_net s" "inbox s = request_bytes t k v @ rest" "wire_size k v"
  shows "\<exists>s'. read_request s = (Some (t, k, v), s') \<and> inbox s' = rest \<and> outbox s' = outbox s \<and> runs s' = runs s \<and> live_net s'"
proof -
  have sz: "length k < 2 ^ 32" "length v < 2 ^ 32" using assms(3) by (simp_all add: wire_size_def)
  have "9 \<le> length (inbox s)" "take 9 (inbox s) = t # encode_u32_le (of_nat (length k)) @ encode_u32_le (of_nat (length v))"
    "drop 9 (inbox s) = bytes_of k @ bytes_of v @ rest"
    by (simp_all only: assms(2) take_header drop_header) (simp add: request_bytes_def)
  then obtain s1 where s1: "recv_all s 9 = (Some (t # encode_u32_le (of_nat (length k)) @ encode_u32_le (of_nat (length v))), s1)"
    "inbox s1 = bytes_of k @ bytes_of v @ rest" "outbox s1 = outbox s" "runs s1 = runs s" "live_net s1"
    using recv_all_live [OF assms(1), of 9] by auto
  obtain s2 where s2: "recv_all s1 (length k) = (Some (bytes_of k), s2)"
    "inbox s2 = bytes_of v @ rest" "outbox s2 = outbox s" "runs s2 = runs s" "live_net s2"
    using recv_all_live [OF s1(5), of "length k"] by (auto simp: s1(2-4))
  obtain s3 where s3: "recv_all s2 (length v) = (Some (bytes_of v), s3)"
    "inbox s3 = rest" "outbox s3 = outbox s" "runs s3 = runs s" "live_net s3"
    using recv_all_live [OF s2(5), of "length v"] by (auto simp: s2(2-4))
  show ?thesis
    using s2(1) s3 assms(3) by (simp add: read_request_header [OF sz s1(1)])
qed

text \<open>A request that is cut off is not read.\<close>

lemma read_request_torn:
  assumes "live_net s" "strict_prefix (inbox s) (request_bytes t k v)" "length k < 2 ^ 32" "length v < 2 ^ 32"
  shows "\<exists>s'. read_request s = (None, s') \<and> outbox s' = outbox s"
proof -
  obtain u where u: "request_bytes t k v = inbox s @ u" "u \<noteq> []" using assms(2) by (auto simp: strict_prefix_def prefix_def)
  obtain s1 where s1: "recv_all s 9 = (if 9 \<le> length (inbox s) then Some (take 9 (inbox s)) else None, s1)"
    "9 \<le> length (inbox s) \<longrightarrow> inbox s1 = drop 9 (inbox s)" "outbox s1 = outbox s" "live_net s1"
    using recv_all_live [OF assms(1), of 9] by auto
  show ?thesis
  proof (cases "9 \<le> length (inbox s) \<and> wire_size k v")
    case True
    then have h: "take 9 (inbox s) = t # encode_u32_le (of_nat (length k)) @ encode_u32_le (of_nat (length v))"
      "drop 9 (inbox s) @ u = bytes_of k @ bytes_of v"
      using take_header [of t k v "[]"] drop_header [of t k v "[]"] u by simp_all
    obtain s2 where s2: "recv_all s1 (length k) = (if length k \<le> length (inbox s1) then Some (take (length k) (inbox s1)) else None, s2)"
      "length k \<le> length (inbox s1) \<longrightarrow> inbox s2 = drop (length k) (inbox s1)" "outbox s2 = outbox s" "live_net s2"
      using recv_all_live [OF s1(4), of "length k"] s1(3) by auto
    obtain s3 where s3: "recv_all s2 (length v) = (if length v \<le> length (inbox s2) then Some (take (length v) (inbox s2)) else None, s3)"
      "outbox s3 = outbox s"
      using recv_all_live [OF s2(4), of "length v"] s2(3) by auto
    have "length (drop 9 (inbox s)) + length u = length k + length v" using arg_cong [OF h(2), of length] by simp
    moreover obtain j where "length u = Suc j" using u(2) by (cases u) auto
    ultimately have "length k \<le> length (inbox s1) \<Longrightarrow> \<not> length v \<le> length (inbox s2)" using s1(2) s2(2) True by simp
    then show ?thesis
      using s1(1) s2(1,3) s3 True h(1) by (simp add: read_request_header [OF assms(3,4), of s t s1])
  next
    case False
    have "take 9 (inbox s) = t # encode_u32_le (of_nat (length k)) @ encode_u32_le (of_nat (length v))" if "9 \<le> length (inbox s)"
      using take_header [of t k v "[]"] u that by simp
    then show ?thesis
      using s1(1,3) False read_request_header [OF assms(3,4), of s t s1]
      by (cases "9 \<le> length (inbox s)") (auto simp: read_request_def)
  qed
qed

section \<open>Serving requests\<close>

lemma serve_one_live:
  assumes "live_net s" "inbox s = request_bytes t k v @ rest" "wire_size k v"
    and "dispatch std_sort c t k v = Some (st, x, c')" "length x < 2 ^ 31"
  shows "\<exists>s'. serve_one std_sort c s = Some (True, c', s') \<and> inbox s' = rest \<and> outbox s' = outbox s @ response_bytes st x
    \<and> runs s' = runs s \<and> live_net s'"
proof -
  obtain s1 where s1: "read_request s = (Some (t, k, v), s1)" "inbox s1 = rest" "outbox s1 = outbox s" "runs s1 = runs s" "live_net s1"
    using read_request_live [OF assms(1-3)] by blast
  then show ?thesis using respond_live [OF s1(5) assms(5), of st] assms(4) by (auto simp: serve_one_def)
qed

lemma handle_client_step:
  assumes "live_net s" "runs s = []" "inbox s = request_bytes t k v @ rest" "wire_size k v"
    and "dispatch std_sort c t k v = Some (st, x, c')" "length x < 2 ^ 31"
  shows "\<exists>s'. handle_client std_sort c s = handle_client std_sort c' s' \<and> inbox s' = rest
    \<and> outbox s' = outbox s @ response_bytes st x \<and> runs s' = [] \<and> live_net s'"
  using serve_one_live [OF assms(1,3-6)] assms(2) by (auto simp: handle_client.simps [of std_sort c s] is_running_def)

lemma handle_client_torn:
  assumes "live_net s" "runs s = []" "strict_prefix (inbox s) (request_bytes t k v)" "length k < 2 ^ 32" "length v < 2 ^ 32"
  shows "\<exists>s'. handle_client std_sort c s = Some (c, s') \<and> outbox s' = outbox s"
  using read_request_torn [OF assms(1,3-5)] assms(2)
  by (auto simp: handle_client.simps [of std_sort c s] is_running_def serve_one_def)

section \<open>Key-value sessions\<close>

datatype kv_request = RPut string string | RDelete string | RGet string | RScan string string
datatype kv_answer = Wrote bool | Read "string option" | Pairs "(string \<times> string) list"

text \<open>What the client sends for a call, and what it makes of the answer.\<close>

fun wire :: "kv_request \<Rightarrow> byte list" where
  "wire (RPut k v) = request_bytes PROTO_PUT k v"
| "wire (RDelete k) = request_bytes PROTO_DELETE k []"
| "wire (RGet k) = request_bytes PROTO_GET k []"
| "wire (RScan lo hi) = request_bytes PROTO_SCAN lo hi"

fun read_answer :: "kv_request \<Rightarrow> byte list \<Rightarrow> (kv_answer \<times> byte list) option" where
  "read_answer (RPut k v) strm = map_option (\<lambda>(b, p). (Wrote b, p)) (client_put strm)"
| "read_answer (RDelete k) strm = map_option (\<lambda>(b, p). (Wrote b, p)) (client_delete strm)"
| "read_answer (RGet k) strm = map_option (\<lambda>(x, p). (Read x, p)) (client_get strm)"
| "read_answer (RScan lo hi) strm = map_option (\<lambda>(es, p). (Pairs es, p)) (client_scan strm)"

fun read_answers :: "kv_request list \<Rightarrow> byte list \<Rightarrow> (kv_answer list \<times> byte list) option" where
  "read_answers [] strm = Some ([], strm)"
| "read_answers (r # rs) strm = do {
     (a, p1) \<leftarrow> read_answer r strm;
     (as, p2) \<leftarrow> read_answers rs p1;
     Some (a # as, p2) }"

text \<open>What a map answers, and the map after the request.\<close>

fun map_step :: "kv_request \<Rightarrow> (string \<rightharpoonup> string) \<Rightarrow> (string \<rightharpoonup> string)" where
  "map_step (RPut k v) m = m(k \<mapsto> v)"
| "map_step (RDelete k) m = m(k := None)"
| "map_step _ m = m"

fun map_answer :: "kv_request \<Rightarrow> (string \<rightharpoonup> string) \<Rightarrow> kv_answer \<Rightarrow> bool" where
  "map_answer (RPut k v) m a \<longleftrightarrow> a = Wrote True"
| "map_answer (RDelete k) m a \<longleftrightarrow> a = Wrote True"
| "map_answer (RGet k) m a \<longleftrightarrow> a = Read (m k)"
| "map_answer (RScan lo hi) m a \<longleftrightarrow>
     (\<exists>es. a = Pairs es \<and> smap_wf es \<and> map_of es = (\<lambda>k. if lo \<le> k \<and> k \<le> hi then m k else None))"

fun map_answers :: "kv_request list \<Rightarrow> (string \<rightharpoonup> string) \<Rightarrow> kv_answer list \<Rightarrow> bool" where
  "map_answers [] m as \<longleftrightarrow> as = []"
| "map_answers (r # rs) m as \<longleftrightarrow> (\<exists>a bs. as = a # bs \<and> map_answer r m a \<and> map_answers rs (map_step r m) bs)"

text \<open>
  The requests the protocol can carry: keys that are not empty and sizes within the limits, and no answer of 2 GB or more.
\<close>

fun request_fits :: "kv_request \<Rightarrow> (string \<rightharpoonup> string) \<Rightarrow> bool" where
  "request_fits (RPut k v) m \<longleftrightarrow> k \<noteq> [] \<and> wire_size k v"
| "request_fits (RDelete k) m \<longleftrightarrow> k \<noteq> [] \<and> wire_size k []"
| "request_fits (RGet k) m \<longleftrightarrow> k \<noteq> [] \<and> wire_size k [] \<and> (\<forall>v. m k = Some v \<longrightarrow> length v < 2 ^ 31)"
| "request_fits (RScan lo hi) m \<longleftrightarrow> wire_size lo hi \<and>
     (\<forall>es. smap_wf es \<and> map_of es = (\<lambda>k. if lo \<le> k \<and> k \<le> hi then m k else None) \<longrightarrow> length (scan_response es) < 2 ^ 31)"

fun requests_fit :: "kv_request list \<Rightarrow> (string \<rightharpoonup> string) \<Rightarrow> bool" where
  "requests_fit [] m \<longleftrightarrow> True"
| "requests_fit (r # rs) m \<longleftrightarrow> request_fits r m \<and> requests_fit rs (map_step r m)"

lemma scan_response_sizes:
  assumes "length (scan_response es) < 2 ^ 31"
  shows "length es < 2 ^ 32" "list_all (\<lambda>(k, v). length k < 2 ^ 32 \<and> length v < 2 ^ 32) es"
proof -
  have "length es \<le> length (scan_response es)" "list_all (\<lambda>(k, v). length k \<le> length (scan_response es) \<and> length v \<le> length (scan_response es)) es"
    by (induction es) (auto simp: scan_response_def list_all_iff split: prod.splits)
  then show "length es < 2 ^ 32" "list_all (\<lambda>(k, v). length k < 2 ^ 32 \<and> length v < 2 ^ 32) es"
    using assms by (fastforce simp: list_all_iff split: prod.splits)+
qed

lemma client_scan_response:
  assumes "length (scan_response es) < 2 ^ 31"
  shows "client_scan (response_bytes RESP_OK (scan_response es) @ rest) = Some (es, rest)"
proof -
  have "take 4 (scan_response es) = encode_u32_le (of_nat (length es))" "\<not> length (scan_response es) < 4"
    by (simp_all add: scan_response_def)
  then show ?thesis
    using assms scan_response_sizes [OF assms] scan_entries_response [of es] by (simp add: client_scan_def codec_simps)
qed

lemma kv_dispatch:
  assumes ok: "engine_ok (Suc n) (cat_engine c)" and fits: "request_fits r (view (cat_engine c))"
  shows "\<exists>t k v st x c' a. wire r = request_bytes t k v \<and> wire_size k v \<and> dispatch std_sort c t k v = Some (st, x, c') \<and> length x < 2 ^ 31
    \<and> engine_ok n (cat_engine c') \<and> view (cat_engine c') = map_step r (view (cat_engine c))
    \<and> (\<forall>rest. read_answer r (response_bytes st x @ rest) = Some (a, rest)) \<and> map_answer r (view (cat_engine c)) a"
proof -
  have ok': "engine_ok n (cat_engine c)" by (rule engine_ok_mono [OF ok]) simp
  show ?thesis
  proof (cases r)
    case (RPut k v)
    then have "small_entry (k, Some v)" using fits by (simp add: small_entry_def wire_size_def)
    then obtain e where e: "engine_put (cat_engine c) k v = (OK, e)" "engine_ok n e" "view e = (view (cat_engine c))(k \<mapsto> v)"
      using engine_kv.put_law [OF ok] fits RPut by auto
    then have "dispatch std_sort c PROTO_PUT k v = Some (RESP_OK, [], c\<lparr>cat_engine := e\<rparr>)" by (simp add: dispatch_def with_engine_def)
    then show ?thesis using RPut fits e(2,3)
      by (intro exI [of _ PROTO_PUT] exI [of _ k] exI [of _ v] exI) (auto simp: client_put_def codec_simps)
  next
    case (RDelete k)
    then have "small_entry (k, None)" using fits by (simp add: small_entry_def wire_size_def)
    then obtain e where e: "engine_remove (cat_engine c) k = (OK, e)" "engine_ok n e" "view e = (view (cat_engine c))(k := None)"
      using engine_kv.remove_law [OF ok] fits RDelete by auto
    then have "dispatch std_sort c PROTO_DELETE k [] = Some (RESP_OK, [], c\<lparr>cat_engine := e\<rparr>)"
      by (simp add: dispatch_def with_engine_def proto_defs)
    then show ?thesis using RDelete fits e(2,3)
      by (intro exI [of _ PROTO_DELETE] exI [of _ k] exI [of _ "[]"] exI) (auto simp: client_delete_def codec_simps)
  next
    case (RGet k)
    then have g: "engine_get (cat_engine c) k = (case view (cat_engine c) k of Some v \<Rightarrow> (OK, v) | None \<Rightarrow> (NOT_FOUND, []))"
      using engine_kv.get_law [OF ok] fits by simp
    define st x where "st = (if view (cat_engine c) k = None then RESP_NOT_FOUND else RESP_OK)"
      and "x = (case view (cat_engine c) k of Some v \<Rightarrow> bytes_of v | None \<Rightarrow> [])"
    have d: "dispatch std_sort c PROTO_GET k [] = Some (st, x, c)"
      using g by (simp add: dispatch_def proto_defs st_def x_def split: option.splits)
    have x: "length x < 2 ^ 31" using fits RGet by (auto simp: x_def split: option.splits)
    then have "client_get (response_bytes st x @ rest) = Some (view (cat_engine c) k, rest)" for rest
      by (cases "view (cat_engine c) k") (simp_all add: client_get_def codec_simps st_def x_def proto_defs)
    then show ?thesis using RGet fits ok' d x by (intro exI [of _ PROTO_GET] exI [of _ k] exI [of _ "[]"] exI [of _ st] exI [of _ x] exI [of _ c]) auto
  next
    case (RScan lo hi)
    let ?es = "engine_scan (cat_engine c) lo hi"
    have es: "smap_wf ?es" "map_of ?es = (\<lambda>k. if lo \<le> k \<and> k \<le> hi then view (cat_engine c) k else None)"
      using engine_kv.scan_sorted [OF ok] engine_kv.scan_law [OF ok] by auto
    then have len: "length (scan_response ?es) < 2 ^ 31" using fits RScan by simp
    have "dispatch std_sort c PROTO_SCAN lo hi = Some (RESP_OK, scan_response ?es, c)" by (simp add: dispatch_def proto_defs)
    then show ?thesis using RScan fits ok' es len client_scan_response [OF len]
      by (intro exI [of _ PROTO_SCAN] exI [of _ lo] exI [of _ hi] exI [of _ RESP_OK] exI [of _ "scan_response ?es"] exI [of _ c]) simp
  qed
qed

lemma kv_session:
  assumes "engine_ok (length reqs + n) (cat_engine c)" "requests_fit reqs (view (cat_engine c))"
    and "live_net s" "runs s = []" "inbox s = concat (map wire reqs) @ torn"
    and "strict_prefix torn (request_bytes t k v)" "length k < 2 ^ 32" "length v < 2 ^ 32"
  shows "\<exists>c' s' out as. handle_client std_sort c s = Some (c', s') \<and> outbox s' = outbox s @ out
    \<and> read_answers reqs out = Some (as, []) \<and> map_answers reqs (view (cat_engine c)) as
    \<and> engine_ok n (cat_engine c') \<and> view (cat_engine c') = fold map_step reqs (view (cat_engine c))"
  using assms(1-5)
proof (induction reqs arbitrary: c s)
  case Nil
  then show ?case using handle_client_torn [of s t k v std_sort c] assms(6-8) by auto
next
  case (Cons r reqs)
  obtain t' k' v' st x c1 a where d: "wire r = request_bytes t' k' v'" "wire_size k' v'" "dispatch std_sort c t' k' v' = Some (st, x, c1)"
    "length x < 2 ^ 31" "engine_ok (length reqs + n) (cat_engine c1)" "view (cat_engine c1) = map_step r (view (cat_engine c))"
    "\<forall>rest. read_answer r (response_bytes st x @ rest) = Some (a, rest)" "map_answer r (view (cat_engine c)) a"
    using kv_dispatch [of "length reqs + n" c r std_sort] Cons.prems(1,2) by auto
  have i: "inbox s = request_bytes t' k' v' @ concat (map wire reqs) @ torn" using Cons.prems(5) d(1) by simp
  obtain s1 where s1: "handle_client std_sort c s = handle_client std_sort c1 s1" "inbox s1 = concat (map wire reqs) @ torn"
    "outbox s1 = outbox s @ response_bytes st x" "runs s1 = []" "live_net s1"
    using handle_client_step [OF Cons.prems(3,4) i d(2-4)] by auto
  obtain c' s' out as where "handle_client std_sort c1 s1 = Some (c', s')" "outbox s' = outbox s1 @ out" "read_answers reqs out = Some (as, [])"
    "map_answers reqs (view (cat_engine c1)) as" "engine_ok n (cat_engine c')" "view (cat_engine c') = fold map_step reqs (view (cat_engine c1))"
    using Cons.IH [OF d(5) _ s1(5,4,2)] Cons.prems(2) d(6) by auto
  then show ?case using s1(1,3) d(6-8)
    by (intro exI [of _ c'] exI [of _ s'] exI [of _ "response_bytes st x @ out"] exI [of _ "a # as"]) simp
qed

section \<open>SQL answers\<close>

text \<open>Every row of a result has a value for each of its columns, which the client relies on.\<close>

definition rect :: "QueryResult \<Rightarrow> bool" where
  "rect r \<longleftrightarrow> list_all (\<lambda>row. length row = length (qr_column_names r)) (qr_rows r)"

lemma rect_message [simp]: "rect (qr_ok msg)" "rect (qr_error msg)" "rect (no_table t)"
  by (simp_all add: rect_def qr_ok_def qr_error_def no_table_def)

lemma select_indices_length: "select_indices schema names = Inr is \<Longrightarrow> length is = length names"
  by (induction names arbitrary: "is") (auto simp: Let_def split: if_splits sum.splits)

lemma rect_finish_select:
  assumes "std_sort_ok std_sort" "finish_select std_sort stmt names rows = Some r" "\<forall>row \<in> set rows. length row = length names"
  shows "rect r"
proof -
  obtain ordered where o: "(if sel_order_by stmt = [] then Some (Inr rows) else case index_of (sel_order_by stmt) names of
        None \<Rightarrow> Some (Inl (''ORDER BY column '' @ quote_value (sel_order_by stmt) @ '' must be in SELECT list''))
      | Some i \<Rightarrow> map_option Inr (sort_rows std_sort (order_before i (sel_order_desc stmt)) rows)) = Some ordered"
    and r: "r = (case ordered of Inl e \<Rightarrow> qr_error e | Inr rows \<Rightarrow>
        let rows = (if 0 \<le> sel_limit stmt \<and> nat (sel_limit stmt) < length rows then take (nat (sel_limit stmt)) rows else rows)
        in \<lparr>qr_status = OK, qr_message = dec_digits (length rows) @ '' row(s) returned.'', qr_column_names = names, qr_rows = rows\<rparr>)"
    using assms(2) by (auto simp: finish_select_def bind_eq_Some_conv)
  show ?thesis
  proof (cases ordered)
    case (Inr xs)
    then have "set xs \<subseteq> set rows"
      using o std_sort_set [OF assms(1)] by (auto simp: sort_rows_def split: if_splits option.splits)
    then show ?thesis using assms(3) by (auto simp: r Inr rect_def list_all_iff Let_def dest: in_set_takeD)
  qed (simp add: r)
qed

lemma rect_select:
  assumes "std_sort_ok std_sort" "exec_select std_sort c stmt = Some (r, c')"
  shows "rect r"
proof -
  obtain x c1 where g: "get_schema c (sel_table_name stmt) = (x, c1)" by fastforce
  have p: "length (project is row) = length is" for "is" row by (simp add: project_def)
  show ?thesis
  proof (cases x)
    case None
    then show ?thesis using assms(2) g by (auto simp: exec_select_def)
  next
    case (Some schema)
    let ?names = "if sel_all stmt \<or> sel_columns stmt = [] then map col_name (columns schema) else sel_columns stmt"
    let ?indices = "if sel_all stmt \<or> sel_columns stmt = [] then Inr [0..<length (columns schema)] else select_indices schema ?names"
    show ?thesis
    proof (cases ?indices)
      case (Inl e)
      then show ?thesis using assms(2) g Some by (auto simp: exec_select_def Let_def)
    next
      case (Inr js)
      have l: "length js = length ?names" using Inr select_indices_length by (auto split: if_split_asm)
      have "\<exists>hs. finish_select std_sort stmt ?names (map (\<lambda>(key :: string, row). project js row) hs) = Some r"
        using assms(2) by (auto simp only: exec_select_def Let_def g Some prod.case option.case Inr sum.case bind_eq_Some_conv option.inject prod.inject)
      then obtain hs where "finish_select std_sort stmt ?names (map (\<lambda>(key :: string, row). project js row) hs) = Some r" ..
      then show ?thesis by (rule rect_finish_select [OF assms(1)]) (auto simp only: list.set_map image_iff case_prod_beta p l)
    qed
  qed
qed

lemma rect_update_loop: "update_loop schema stmt kvs u e = Some (r, e') \<Longrightarrow> rect r"
proof (induction kvs arbitrary: u e)
  case (Cons kv kvs)
  obtain key data where kv: "kv = (key, data)" by fastforce
  show ?case
  proof (cases "contains_sub '':row:'' key")
    case True
    then obtain row hit where "row_deserialize schema data = Some row"
      "(if conditions (upd_where stmt) \<noteq> [] then evaluate_where (upd_where stmt) schema row else Some True) = Some hit"
      and run: "(if \<not> hit then update_loop schema stmt kvs u e
         else Option.bind (assign_row schema (upd_assignments stmt) row) (\<lambda>new. case new of Inl msg \<Rightarrow> Some (qr_error msg, e)
           | Inr row' \<Rightarrow> update_loop schema stmt kvs (u + 1) (snd (engine_put e key (row_serialize schema row'))))) = Some (r, e')"
      using Cons.prems kv by (auto simp: bind_eq_Some_conv)
    show ?thesis
    proof (cases hit)
      case True
      then obtain new where "assign_row schema (upd_assignments stmt) row = Some new" using run by (auto simp: bind_eq_Some_conv)
      then show ?thesis using run True Cons.IH by (cases new) auto
    qed (use run Cons.IH in auto)
  qed (use Cons kv in auto)
qed auto

lemma rect_finish_insert: "rect (fst (finish_insert c schema t row pk))"
proof -
  have "rect (fst (store_row c schema t row pk))" for c row pk by (simp add: store_row_def Let_def split: prod.split)
  then show ?thesis by (simp add: finish_insert_def Let_def split: option.split prod.split)
qed

lemma rect_insert:
  assumes "exec_insert c stmt = Some (r, c')"
  shows "rect r"
proof -
  obtain x c1 where g: "get_schema c (ins_table_name stmt) = (x, c1)" by fastforce
  show ?thesis
  proof (cases x)
    case None
    then show ?thesis using assms g by (auto simp: exec_insert_def)
  next
    case (Some schema)
    consider msg where "r = qr_error msg" | row pk where "Some (finish_insert c1 schema (ins_table_name stmt) row pk) = Some (r, c')"
      using assms g Some by (auto simp: exec_insert_def Let_def bind_eq_Some_conv split: if_split_asm sum.split_asm)
    then show ?thesis by cases (simp, metis rect_finish_insert fst_conv option.inject)
  qed
qed

lemma rect_execute_sql:
  assumes "std_sort_ok std_sort" "execute_sql std_sort c sql = Some (r, c')"
  shows "rect r"
proof (cases "sql_parse sql")
  case (Inr stmt)
  then have "execute std_sort c stmt = Some (r, c')" using assms(2) by (simp add: execute_sql_def)
  then show ?thesis
    using rect_select [OF assms(1)] rect_insert rect_update_loop
    by (cases stmt) (auto simp: execute_def exec_create_table_def exec_drop_table_def exec_update_def exec_delete_def exec_show_tables_def
        exec_describe_def describe_row_def rect_def [of "QueryResult.make _ _ _ _", unfolded QueryResult.make_def] list_all_iff Let_def bind_eq_Some_conv split: prod.splits option.splits if_splits)
qed (use assms(2) in \<open>auto simp: execute_sql_def\<close>)

lemma sized_parts: "s \<in> set ss \<Longrightarrow> length s \<le> length (concat (map sized ss))" "length ss \<le> length (concat (map sized ss))"
  by (induction ss) (auto simp: sized_def)

lemma sql_response_strings:
  "sql_response r = sized (qr_message r) @ encode_u32_le (of_nat (length (qr_column_names r))) @ concat (map sized (qr_column_names r))
     @ encode_u32_le (of_nat (length (qr_rows r))) @ concat (map (\<lambda>row. concat (map sized row)) (map (map value_to_string) (qr_rows r)))"
  by (simp add: sql_response_def comp_def)

lemma sql_response_sizes:
  assumes "length (sql_response r) < 2 ^ 31"
  shows "length (qr_message r) < 2 ^ 32" "length (qr_column_names r) < 2 ^ 32" "list_all (\<lambda>s. length s < 2 ^ 32) (qr_column_names r)"
    and "\<forall>row \<in> set (map (map value_to_string) (qr_rows r)). list_all (\<lambda>s. length s < 2 ^ 32) row"
proof -
  have m: "length (qr_message r) \<le> length (sql_response r)" and n: "length (concat (map sized (qr_column_names r))) \<le> length (sql_response r)"
    and rows: "length (concat (map (\<lambda>row. concat (map sized row)) (map (map value_to_string) (qr_rows r)))) \<le> length (sql_response r)"
    by (simp_all add: sql_response_strings sized_def)
  show "length (qr_message r) < 2 ^ 32" using m assms by simp
  show "length (qr_column_names r) < 2 ^ 32" using sized_parts(2) [of "qr_column_names r"] n assms by simp
  show "list_all (\<lambda>s. length s < 2 ^ 32) (qr_column_names r)"
    using sized_parts(1) [of _ "qr_column_names r"] n assms by (fastforce simp: list_all_iff)
  have "length (concat (map sized row)) \<le> length (concat (map (\<lambda>row. concat (map sized row)) rs))" if "row \<in> set rs" for row rs
    using that by (induction rs) auto
  moreover have "length s \<le> length (concat (map sized row))" if "s \<in> set row" for s row by (rule sized_parts(1) [OF that])
  ultimately have "length s \<le> length (sql_response r)" if "s \<in> set row" "row \<in> set (map (map value_to_string) (qr_rows r))" for s row
    using that rows by (meson order_trans)
  then show "\<forall>row \<in> set (map (map value_to_string) (qr_rows r)). list_all (\<lambda>s. length s < 2 ^ 32) row"
    using assms unfolding list_all_iff by fastforce
qed

lemma client_sql_response:
  assumes "rect r" "length (sql_response r) < 2 ^ 31" "length (qr_rows r) < 2 ^ 32"
  shows "client_sql (response_bytes st (sql_response r) @ rest) = Some (\<lparr>ans_ok = (st = RESP_OK), ans_message = qr_message r,
    ans_columns = qr_column_names r, ans_rows = map (map value_to_string) (qr_rows r)\<rparr>, rest)"
proof -
  note sz = sql_response_sizes [OF assms(2)]
  let ?rows = "map (map value_to_string) (qr_rows r)"
  have "list_all (\<lambda>row. length row = length (qr_column_names r) \<and> list_all (\<lambda>s. length s < 2 ^ 32) row) ?rows"
    using assms(1) sz(4) by (auto simp: rect_def list_all_iff)
  then have rows: "read_rows (length (qr_column_names r)) (length (qr_rows r)) (concat (map (\<lambda>row. concat (map sized row)) ?rows)) = Some (?rows, [])"
    using str_rows.read_list [of "length (qr_column_names r)" ?rows "[]"] by simp
  have v: "rd_u32 (sql_response r) = Some (of_nat (length (qr_message r)), drop 4 (sql_response r))" "\<not> length (sql_response r) < 4"
    by (simp_all add: sql_response_strings sized_def codec_simps)
  have d: "drop 4 (sql_response r) = bytes_of (qr_message r) @ encode_u32_le (of_nat (length (qr_column_names r)))
      @ concat (map sized (qr_column_names r)) @ encode_u32_le (of_nat (length (qr_rows r))) @ concat (map (\<lambda>row. concat (map sized row)) ?rows)"
    by (simp add: sql_response_strings sized_def)
  show ?thesis
    using assms(2,3) sz(1-3) rows by (simp add: client_sql_def read_response_bytes v d codec_simps strs.read_list)
qed

section \<open>Properties of the server\<close>

text \<open>
  C9: a key-value session over the network behaves as a map. The client sends puts, deletes, gets and scans within
  the size limits, the network cuts the streams into pieces of any size, and the client's stream may end inside a
  further request. Then the server finishes the session, the bytes it sent read back, with the client's decoder, as exactly one
  answer per complete request, each the answer of the map that the requests before it build, and the
  engine ends with that map: the request that was cut off has no effect.
\<close>

theorem server_refines_map:
  assumes "engine_ok (length reqs + n) (cat_engine c)" "requests_fit reqs (view (cat_engine c))"
    and "live_net s" "runs s = []" "outbox s = []" "inbox s = concat (map wire reqs) @ torn"
    and "strict_prefix torn (request_bytes t k v)" "length k < 2 ^ 32" "length v < 2 ^ 32"
  shows "\<exists>c' s' as. handle_client std_sort c s = Some (c', s') \<and> read_answers reqs (outbox s') = Some (as, [])
    \<and> map_answers reqs (view (cat_engine c)) as
    \<and> engine_ok n (cat_engine c') \<and> view (cat_engine c') = fold map_step reqs (view (cat_engine c))"
  using kv_session [OF assms(1-4,6-9), of std_sort] assms(5) by auto

definition ex_conn :: "byte list \<Rightarrow> Conn" where
  "ex_conn bs = \<lparr>inbox = bs, outbox = [], net = [Short 1, Short 3, Done, Short 2], runs = []\<rparr>"

lemma ex_conn_simps [simp]: "live_net (ex_conn bs)" "runs (ex_conn bs) = []" "outbox (ex_conn bs) = []" "inbox (ex_conn bs) = bs"
  by (simp_all add: ex_conn_def live_net_def)

theorem server_refines_map_witness:
  "\<exists>c' s'. handle_client (\<lambda>lt rows. rows) ex_catalog (ex_conn (concat (map wire [RPut ''a'' ''1'', RGet ''a'', RScan ''a'' ''b'']) @ [1, 1, 0])) = Some (c', s')
     \<and> read_answers [RPut ''a'' ''1'', RGet ''a'', RScan ''a'' ''b''] (outbox s') = Some ([Wrote True, Read (Some ''1''), Pairs [(''a'', ''1'')]], [])
     \<and> view (cat_engine c') = [''a'' \<mapsto> ''1'']"
proof -
  let ?rs = "[RPut ''a'' ''1'', RGet ''a'', RScan ''a'' ''b'']"
  have v: "view (cat_engine ex_catalog) = Map.empty" by (simp add: fun_eq_iff ex_catalog_def view_def layers_def live_def ex_fresh_def)
  have es: "es = [(''a'', ''1'')]" if "smap_wf es" "map_of es = (\<lambda>k. if ''a'' \<le> k \<and> k \<le> ''b'' then [''a'' \<mapsto> ''1''] k else None)" for es
    by (rule smap_eqI [OF that(1)]) (auto simp: that(2) smap_wf_Cons less_eq_list_code)
  have "engine_ok (length ?rs + 900) (cat_engine ex_catalog)"
    using ex_catalog_ok(1) by (auto simp: catalog_ok_def intro: engine_ok_mono)
  moreover have "length (scan_response [(''a'', ''1'')]) < 2 ^ 31" by (simp add: scan_response_def)
  then have "requests_fit ?rs (view (cat_engine ex_catalog))" using es by (auto simp: v wire_size_def)
  moreover have "strict_prefix [1, 1, 0] (request_bytes PROTO_PUT ''a'' ''2'')"
    by (simp add: strict_prefix_def request_bytes_def PROTO_PUT_def encode_u32_le_def)
  ultimately obtain c' s' as where "handle_client (\<lambda>lt rows. rows) ex_catalog (ex_conn (concat (map wire ?rs) @ [1, 1, 0])) = Some (c', s')"
    "read_answers ?rs (outbox s') = Some (as, [])" "map_answers ?rs (view (cat_engine ex_catalog)) as"
    "view (cat_engine c') = fold map_step ?rs (view (cat_engine ex_catalog))"
    using server_refines_map [of ?rs 900 ex_catalog "ex_conn (concat (map wire ?rs) @ [1, 1, 0])" "[1, 1, 0]" PROTO_PUT "''a''" "''2''" "\<lambda>lt rows. rows"]
    by auto
  moreover have "as = [Wrote True, Read (Some ''1''), Pairs [(''a'', ''1'')]]" using calculation(3) es by (auto simp: v)
  ultimately show ?thesis by (auto simp: v)
qed

text \<open>
  C20: the answer to an SQL text reads back. For every text that the executor answers, the server sends a response from which
  the client's decoder gets the success flag, the message, the column names and the text of every value of every row, with
  nothing left over, and the catalog is the one the executor left. The sort is one that keeps the promise of the C++ standard;
  a text whose sort is undefined is not one that the executor answers. The response has to stay below 2 GB.
\<close>

theorem server_sql_answer:
  assumes "execute_sql std_sort c sql = Some (r, c')" "std_sort_ok std_sort"
    and "wire_size sql []" "length (sql_response r) < 2 ^ 31" "length (qr_rows r) < 2 ^ 32"
    and "live_net s" "runs s = []" "outbox s = []" "inbox s = request_bytes PROTO_SQL sql []"
  shows "\<exists>s'. handle_client std_sort c s = Some (c', s') \<and> client_sql (outbox s') = Some
    (\<lparr>ans_ok = (\<not> is_error r), ans_message = qr_message r, ans_columns = qr_column_names r,
      ans_rows = map (map value_to_string) (qr_rows r)\<rparr>, [])"
proof -
  define st where "st = (if is_error r then RESP_ERROR else RESP_OK)"
  have d: "dispatch std_sort c PROTO_SQL sql [] = Some (st, sql_response r, c')"
    using assms(1) by (simp add: dispatch_def proto_defs st_def)
  obtain s1 where s1: "handle_client std_sort c s = handle_client std_sort c' s1" "inbox s1 = []"
    "outbox s1 = response_bytes st (sql_response r)" "runs s1 = []" "live_net s1"
    using handle_client_step [OF assms(6,7), of PROTO_SQL sql "[]" "[]", OF _ assms(3) d assms(4)] assms(8,9) by auto
  have "strict_prefix (inbox s1) (request_bytes PROTO_PUT [] [])" by (simp add: s1(2) request_bytes_def)
  then obtain s2 where "handle_client std_sort c' s1 = Some (c', s2)" "outbox s2 = outbox s1"
    using handle_client_torn [OF s1(5,4), of PROTO_PUT "[]" "[]" std_sort c'] by auto
  then show ?thesis
    using s1 client_sql_response [OF rect_execute_sql [OF assms(2,1)] assms(4,5), of st "[]"] by (auto simp: st_def proto_defs)
qed

end
