(* ===== verification/Parser_Correct.thy ===== *)
theory Parser_Correct
  imports Parser
begin

text \<open>
  The grammar of the SQL dialect as a printer from statements to words, and the proof that the parser
  reads every printed statement back. A word is the type and the value of a token; \<open>reads m ws x S\<close> says
  that \<open>m\<close> reads the words \<open>ws\<close>, whatever follows them unless its type is in \<open>S\<close>, and returns \<open>x\<close>.
\<close>

section \<open>Reading words\<close>

type_synonym word_tok = "TokenType \<times> string"

definition pend :: "SQLParser \<Rightarrow> word_tok list" where
  "pend p = map (\<lambda>t. (tok_type t, tok_value t)) (ahead p)"

definition next_type :: "word_tok list \<Rightarrow> TokenType" where
  "next_type ws = (case ws of w # _ \<Rightarrow> fst w | [] \<Rightarrow> END_OF_INPUT)"

definition reads :: "'a parse \<Rightarrow> word_tok list \<Rightarrow> 'a \<Rightarrow> TokenType set \<Rightarrow> bool" where
  "reads m ws x S \<longleftrightarrow> (\<forall>p rest. pend p = ws @ rest \<and> next_type rest \<notin> S \<longrightarrow>
     (\<exists>p'. m p = Inr (x, p') \<and> pend p' = rest))"

lemma readsI:
  assumes "\<And>p rest. pend p = ws @ rest \<Longrightarrow> next_type rest \<notin> S \<Longrightarrow> \<exists>p'. m p = Inr (x, p') \<and> pend p' = rest"
  shows "reads m ws x S"
  using assms by (auto simp: reads_def)

lemma readsE:
  assumes "reads m ws x S" "pend p = ws @ rest" "next_type rest \<notin> S"
  obtains p' where "m p = Inr (x, p')" "pend p' = rest"
  using assms by (auto simp: reads_def)

lemma next_type_simps [simp]:
  "next_type [] = END_OF_INPUT" "next_type (w # ws) = fst w" "ws \<noteq> [] \<Longrightarrow> next_type (ws @ vs) = next_type ws"
  by (auto simp: next_type_def split: list.splits)

lemma match_tok_pend: "match_tok t p \<longleftrightarrow> t = next_type (pend p)"
  by (auto simp: match_tok_def current_def pend_def mk_token_def next_type_def split: list.splits)

lemma current_pend: "pend p = (t, v) # ws \<Longrightarrow> tok_type (current p) = t \<and> tok_value (current p) = v"
  by (auto simp: current_def pend_def split: list.splits)

lemma pend_advance: "pend p = w # ws \<Longrightarrow> pend (advance p) = ws"
  by (auto simp: advance_def pend_def split: list.splits)

lemma reads_ret: "x = y \<Longrightarrow> reads (ret x) [] y S"
  by (simp add: reads_def ret_def)

lemma reads_weaken: "reads m ws x S \<Longrightarrow> S \<subseteq> S' \<Longrightarrow> reads m ws x S'"
  by (auto simp: reads_def)

lemma reads_expect_then:
  assumes "\<And>t. reads (f t) ws x S"
  shows "reads (andThen (expect t) f) ((t, v) # ws) x S"
proof (rule readsI)
  fix p rest assume p: "pend p = ((t, v) # ws) @ rest" and "next_type rest \<notin> S"
  have "pend (advance p) = ws @ rest" using p pend_advance [of p] by simp
  from readsE [OF assms this \<open>next_type rest \<notin> S\<close>]
  obtain p' where "f (current p) (advance p) = Inr (x, p')" "pend p' = rest" .
  then show "\<exists>p'. andThen (expect t) f p = Inr (x, p') \<and> pend p' = rest"
    using p by (simp add: andThen_def expect_def match_tok_pend)
qed

lemma reads_skip_then:
  assumes "reads (f ()) ws x S"
  shows "reads (andThen skip f) (w # ws) x S"
proof (rule readsI)
  fix p rest assume p: "pend p = (w # ws) @ rest" and "next_type rest \<notin> S"
  have "pend (advance p) = ws @ rest" using p pend_advance [of p] by simp
  from readsE [OF assms this \<open>next_type rest \<notin> S\<close>]
  show "\<exists>p'. andThen skip f p = Inr (x, p') \<and> pend p' = rest" by (auto simp: andThen_def skip_def)
qed

lemma reads_andThen:
  assumes "reads m ws x S" "reads (f x) vs y S'" "vs \<noteq> [] \<Longrightarrow> fst (hd vs) \<notin> S" "vs = [] \<Longrightarrow> S \<subseteq> S'"
  shows "reads (andThen m f) (ws @ vs) y S'"
proof (rule readsI)
  fix p rest assume p: "pend p = (ws @ vs) @ rest" and r: "next_type rest \<notin> S'"
  have "next_type (vs @ rest) \<notin> S" using assms(3,4) r by (cases vs) auto
  then obtain p' where "m p = Inr (x, p')" "pend p' = vs @ rest" using readsE [OF assms(1), of p] p by auto
  moreover obtain p'' where "f x p' = Inr (y, p'')" "pend p'' = rest"
    using readsE [OF assms(2) \<open>pend p' = vs @ rest\<close> r] by auto
  ultimately show "\<exists>p'. andThen m f p = Inr (y, p') \<and> pend p' = rest" by (simp add: andThen_def)
qed

lemma reads_name: "reads name_token [(IDENTIFIER, n)] n S"
proof (rule readsI)
  fix p rest assume p: "pend p = [(IDENTIFIER, n)] @ rest"
  then have "tok_value (current p) = n" "pend (advance p) = rest" using current_pend pend_advance by force+
  then show "\<exists>p'. name_token p = Inr (n, p') \<and> pend p' = rest"
    using p by (simp add: name_token_def andThen_def expect_def ret_def match_tok_pend)
qed

lemma reads_name_then: "reads (f n) ws x S \<Longrightarrow> reads (andThen name_token f) ((IDENTIFIER, n) # ws) x S"
  using reads_andThen [OF reads_name [of n "{}"], of f ws x S] by simp

lemma reads_on_match:
  assumes "ws \<noteq> [] \<and> fst (hd ws) = t \<Longrightarrow> reads m ws x S" "ws = [] \<or> fst (hd ws) \<noteq> t \<Longrightarrow> reads n ws x S"
    "ws = [] \<Longrightarrow> t \<in> S"
  shows "reads (on_match t m n) ws x S"
proof (rule readsI)
  fix p rest assume p: "pend p = ws @ rest" and r: "next_type rest \<notin> S"
  show "\<exists>p'. on_match t m n p = Inr (x, p') \<and> pend p' = rest"
  proof (cases "ws \<noteq> [] \<and> fst (hd ws) = t")
    case True
    then have "match_tok t p" using p by (cases ws) (simp_all add: match_tok_pend)
    then show ?thesis using readsE [OF assms(1) [OF True] p r] by (auto simp: on_match_def)
  next
    case False
    then have "\<not> match_tok t p" using p r assms(3) by (cases ws) (auto simp: match_tok_pend)
    moreover have "reads n ws x S" using False by (intro assms(2)) auto
    ultimately show ?thesis using readsE [OF _ p r, of n x] by (auto simp: on_match_def)
  qed
qed

section \<open>The two kinds of lists\<close>

fun comma_list :: "word_tok list list \<Rightarrow> word_tok list" where
  "comma_list [] = []"
| "comma_list [ws] = ws"
| "comma_list (ws # vs # wss) = ws @ (COMMA, '','') # comma_list (vs # wss)"

lemma pend_skip_comma:
  "pend p = (COMMA, v) # ws \<Longrightarrow> pend (skip_comma p) = ws"
  "next_type (pend p) \<noteq> COMMA \<Longrightarrow> skip_comma p = p"
  by (auto simp: skip_comma_def match_tok_pend pend_advance)

lemma at_end_pend: "at_end p \<longleftrightarrow> next_type (pend p) = END_OF_INPUT \<or> next_type (pend p) = SEMICOLON"
  by (auto simp: at_end_def match_tok_pend)

lemma next_type_comma_list:
  "ws \<noteq> [] \<Longrightarrow> comma_list (ws # wss) \<noteq> [] \<and> next_type (comma_list (ws # wss) @ rest) = fst (hd ws)"
  by (cases wss; cases ws) auto

text \<open>
  The loops that run up to a closing parenthesis, with a comma skipped behind each element: what such
  a loop reads follows from what its body reads.
\<close>

locale paren_loop =
  fixes loop :: "'a \<Rightarrow> 'a parse" and step :: "'a \<Rightarrow> 'a parse"
  assumes loop_eq: "loop acc p =
    (if match_tok RPAREN p \<or> at_end p then Inr (acc, p)
     else case step acc p of Inl e \<Rightarrow> Inl e | Inr (acc', p') \<Rightarrow> loop acc' (skip_comma p'))"
begin

lemma reads_loop:
  assumes "\<And>x acc. x \<in> set xs \<Longrightarrow> reads (step acc) (w x) (g acc x) S"
    and "\<And>x. x \<in> set xs \<Longrightarrow> w x \<noteq> [] \<and> fst (hd (w x)) \<notin> {RPAREN, END_OF_INPUT, SEMICOLON, COMMA}"
    and "COMMA \<notin> S" "RPAREN \<notin> S"
  shows "reads (loop acc) (comma_list (map w xs)) (foldl g acc xs) (- {RPAREN})"
  using assms(1,2)
proof (induction xs arbitrary: acc)
  case Nil
  show ?case by (rule readsI) (auto simp: loop_eq match_tok_pend)
next
  case (Cons x xs)
  have w: "w x \<noteq> []" "fst (hd (w x)) \<notin> {RPAREN, END_OF_INPUT, SEMICOLON, COMMA}" using Cons.prems(2) by auto
  have IH: "reads (loop acc') (comma_list (map w xs)) (foldl g acc' xs) (- {RPAREN})" for acc'
    using Cons.prems by (intro Cons.IH) auto
  show ?case
  proof (rule readsI)
    fix p rest assume p: "pend p = comma_list (map w (x # xs)) @ rest" and r: "next_type rest \<notin> - {RPAREN}"
    define sep where "sep = (if xs = [] then [] else [(COMMA, '','')])"
    have cl: "comma_list (map w (x # xs)) = w x @ sep @ comma_list (map w xs)"
      by (cases xs) (simp_all add: sep_def)
    have "next_type (sep @ comma_list (map w xs) @ rest) \<notin> S"
      using r assms(3,4) by (cases xs) (auto simp: sep_def)
    then obtain p1 where p1: "step acc p = Inr (g acc x, p1)" "pend p1 = sep @ comma_list (map w xs) @ rest"
      using readsE [OF Cons.prems(1) [of x acc], of p] p cl by auto
    have "pend (skip_comma p1) = comma_list (map w xs) @ rest"
      using p1(2) r pend_skip_comma [of p1] by (cases xs) (auto simp: sep_def)
    then obtain p' where "loop (g acc x) (skip_comma p1) = Inr (foldl g (g acc x) xs, p')" "pend p' = rest"
      using readsE [OF IH _ r] by auto
    moreover have "\<not> (match_tok RPAREN p \<or> at_end p)"
      using p w next_type_comma_list [OF w(1), of "map w xs" rest] by (auto simp: match_tok_pend at_end_pend)
    ultimately show "\<exists>p'. loop acc p = Inr (foldl g acc (x # xs), p') \<and> pend p' = rest"
      by (subst loop_eq) (simp add: p1(1))
  qed
qed

end

text \<open>The loops that go on as long as a comma follows.\<close>

locale comma_loop =
  fixes loop :: "'a list \<Rightarrow> 'a list parse" and item :: "'a parse"
  assumes loop_eq: "loop acc p =
    (case item p of
       Inl e \<Rightarrow> Inl e
     | Inr (x, p1) \<Rightarrow> if match_tok COMMA p1 then loop (acc @ [x]) (advance p1) else Inr (acc @ [x], p1))"
begin

lemma reads_loop:
  assumes "\<And>x. x \<in> set xs \<Longrightarrow> reads item (w x) x {}" "xs \<noteq> []"
  shows "reads (loop acc) (comma_list (map w xs)) (acc @ xs) {COMMA}"
  using assms(2,1)
proof (induction xs arbitrary: acc rule: list_nonempty_induct)
  case (single x)
  show ?case
  proof (rule readsI)
    fix p rest assume "pend p = comma_list (map w [x]) @ rest" "next_type rest \<notin> {COMMA}"
    then show "\<exists>p'. loop acc p = Inr (acc @ [x], p') \<and> pend p' = rest"
      using readsE [OF single [of x], of p rest] by (subst loop_eq) (fastforce simp: match_tok_pend)
  qed
next
  case (cons x xs)
  obtain y ys where ys: "xs = y # ys" using cons.hyps by (cases xs) auto
  have IH: "reads (loop (acc @ [x])) (comma_list (map w xs)) ((acc @ [x]) @ xs) {COMMA}"
    using cons.prems by (intro cons.IH) auto
  show ?case
  proof (rule readsI)
    fix p rest assume p: "pend p = comma_list (map w (x # xs)) @ rest" and r: "next_type rest \<notin> {COMMA}"
    obtain p1 where p1: "item p = Inr (x, p1)" "pend p1 = (COMMA, '','') # comma_list (map w xs) @ rest"
      using readsE [OF cons.prems [of x], of p "(COMMA, '','') # comma_list (map w xs) @ rest"] p by (auto simp: ys)
    show "\<exists>p'. loop acc p = Inr (acc @ x # xs, p') \<and> pend p' = rest"
      using readsE [OF IH pend_advance [OF p1(2)] r] p1 by (subst loop_eq) (auto simp: match_tok_pend)
  qed
qed

end

interpretation names: paren_loop name_list_loop "\<lambda>acc. andThen name_token (\<lambda>col. ret (acc @ [col]))"
  by unfold_locales (subst name_list_loop.simps, auto simp: andThen_def ret_def split: sum.splits)

interpretation vals: paren_loop value_list_loop "\<lambda>acc. andThen parse_value (\<lambda>v. ret (acc @ [v]))"
  by unfold_locales (subst value_list_loop.simps, auto simp: andThen_def ret_def split: sum.splits)

interpretation items: paren_loop create_loop parse_create_item
  by unfold_locales (subst create_loop.simps, simp)

interpretation sel: comma_loop select_columns name_token
  by unfold_locales (subst select_columns.simps, simp)

interpretation asgs: comma_loop assignment_loop parse_assignment
  by unfold_locales (subst assignment_loop.simps, simp)

section \<open>The words of a statement\<close>

text \<open>\<open>literal_ok w v\<close>: the word is a way of writing the value.\<close>

definition literal_ok :: "word_tok \<Rightarrow> Value \<Rightarrow> bool" where
  "literal_ok w v \<longleftrightarrow> (case w of (t, s) \<Rightarrow>
     t = INTEGER_LIT \<and> integer_lexeme s \<and> map_option make_int (stoll s) = Some v \<or>
     t = FLOAT_LIT \<and> float_lexeme s \<and> map_option make_float (stod s) = Some v \<or>
     t = STRING_LIT \<and> v = make_text s \<or>
     w = (KW_TRUE, ''TRUE'') \<and> v = make_bool True \<or>
     w = (KW_FALSE, ''FALSE'') \<and> v = make_bool False \<or>
     w = (KW_NULL, ''NULL'') \<and> v = make_null CtTEXT)"

definition op_word :: "CompOp \<Rightarrow> word_tok" where
  "op_word op = (case op of EQ \<Rightarrow> (OP_EQ, ''='') | NE \<Rightarrow> (OP_NE, ''!='') | LT \<Rightarrow> (OP_LT, ''<'')
     | GT \<Rightarrow> (OP_GT, ''>'') | LE \<Rightarrow> (OP_LE, ''<='') | GE \<Rightarrow> (OP_GE, ''>=''))"

definition logic_word :: "LogicOp \<Rightarrow> word_tok" where
  "logic_word op = (case op of LogicAND \<Rightarrow> (KW_AND, ''AND'') | LogicOR \<Rightarrow> (KW_OR, ''OR''))"

definition type_word :: "ColumnType \<Rightarrow> word_tok" where
  "type_word t = (case t of CtINT \<Rightarrow> (KW_INT, ''INT'') | CtFLOAT \<Rightarrow> (KW_FLOAT, ''FLOAT'')
     | CtTEXT \<Rightarrow> (KW_TEXT, ''TEXT'') | _ \<Rightarrow> (KW_BOOL, ''BOOL''))"

definition condition_words :: "(Value \<Rightarrow> word_tok) \<Rightarrow> Condition \<Rightarrow> word_tok list" where
  "condition_words lit c = [(IDENTIFIER, cond_column c), op_word (cond_op c), lit (cond_value c)]"

fun more_words :: "(Value \<Rightarrow> word_tok) \<Rightarrow> (LogicOp \<times> Condition) list \<Rightarrow> word_tok list" where
  "more_words lit [] = []"
| "more_words lit ((op, c) # ocs) = logic_word op # condition_words lit c @ more_words lit ocs"

definition where_words :: "(Value \<Rightarrow> word_tok) \<Rightarrow> WhereClause \<Rightarrow> word_tok list" where
  "where_words lit wc =
     (case conditions wc of [] \<Rightarrow> []
      | c # cs \<Rightarrow> (KW_WHERE, ''WHERE'') # condition_words lit c @ more_words lit (zip (logic_ops wc) cs))"

definition column_words :: "ColumnDef \<Rightarrow> word_tok list" where
  "column_words c =
     [(IDENTIFIER, col_name c), type_word (col_type c)]
     @ (if is_primary_key c then [(KW_PRIMARY, ''PRIMARY''), (KW_KEY, ''KEY'')] else [])
     @ (if not_null c then [(KW_NOT, ''NOT''), (KW_NULL, ''NULL'')] else [])"

definition assignment_words :: "(Value \<Rightarrow> word_tok) \<Rightarrow> Assignment \<Rightarrow> word_tok list" where
  "assignment_words lit a = [(IDENTIFIER, asg_column a), (OP_EQ, ''=''), lit (asg_value a)]"

definition name_words :: "string \<Rightarrow> word_tok list" where
  "name_words n = [(IDENTIFIER, n)]"

definition order_words :: "SelectStmt \<Rightarrow> word_tok list" where
  "order_words s =
     (if sel_order_by s = [] then []
      else [(KW_ORDER, ''ORDER''), (KW_BY, ''BY''), (IDENTIFIER, sel_order_by s)]
           @ (if sel_order_desc s then [(KW_DESC, ''DESC'')] else []))"

definition limit_words :: "SelectStmt \<Rightarrow> word_tok list" where
  "limit_words s = (if sel_limit s = -1 then []
     else [(KW_LIMIT, ''LIMIT''), (INTEGER_LIT, int_to_string (sel_limit s))])"

fun statement_words :: "(Value \<Rightarrow> word_tok) \<Rightarrow> Statement \<Rightarrow> word_tok list" where
  "statement_words lit (CreateTable s) =
     [(KW_CREATE, ''CREATE''), (KW_TABLE, ''TABLE''), (IDENTIFIER, ct_table_name s), (LPAREN, ''('')]
     @ comma_list (map column_words (ct_columns s)) @ [(RPAREN, '')'')]"
| "statement_words lit (DropTable s) =
     [(KW_DROP, ''DROP''), (KW_TABLE, ''TABLE'')]
     @ (if dt_if_exists s then [(KW_IF, ''IF''), (KW_EXISTS, ''EXISTS'')] else []) @ [(IDENTIFIER, dt_table_name s)]"
| "statement_words lit (Insert s) =
     [(KW_INSERT, ''INSERT''), (KW_INTO, ''INTO''), (IDENTIFIER, ins_table_name s)]
     @ (if ins_columns s = [] then [] else (LPAREN, ''('') # comma_list (map name_words (ins_columns s)) @ [(RPAREN, '')'')])
     @ [(KW_VALUES, ''VALUES''), (LPAREN, ''('')] @ comma_list (map (\<lambda>v. [lit v]) (ins_values s)) @ [(RPAREN, '')'')]"
| "statement_words lit (Select s) =
     (KW_SELECT, ''SELECT'') # (if sel_all s then [(STAR, ''*'')] else comma_list (map name_words (sel_columns s)))
     @ [(KW_FROM, ''FROM''), (IDENTIFIER, sel_table_name s)]
     @ where_words lit (sel_where s) @ order_words s @ limit_words s"
| "statement_words lit (Update s) =
     [(KW_UPDATE, ''UPDATE''), (IDENTIFIER, upd_table_name s), (KW_SET, ''SET'')]
     @ comma_list (map (assignment_words lit) (upd_assignments s)) @ where_words lit (upd_where s)"
| "statement_words lit (Delete s) =
     [(KW_DELETE, ''DELETE''), (KW_FROM, ''FROM''), (IDENTIFIER, del_table_name s)] @ where_words lit (del_where s)"
| "statement_words lit ShowTables = [(KW_SHOW, ''SHOW''), (KW_TABLES, ''TABLES'')]"
| "statement_words lit (Describe n) = [(KW_DESCRIBE, ''DESCRIBE''), (IDENTIFIER, n)]"

section \<open>The parser reads the words\<close>

lemma reads_value: "literal_ok w v \<Longrightarrow> reads parse_value [w] v S"
proof (rule readsI)
  fix p rest assume w: "literal_ok w v" and p: "pend p = [w] @ rest"
  have c: "tok_type (current p) = fst w" "tok_value (current p) = snd w" "pend (advance p) = rest"
    using p current_pend [of p "fst w" "snd w"] pend_advance [of p] by simp_all
  show "\<exists>p'. parse_value p = Inr (v, p') \<and> pend p' = rest"
    using w c by (auto simp: parse_value_def match_tok_def literal_ok_def split: option.splits)
qed

lemma reads_operator: "reads parse_operator [op_word op] op S"
proof (rule readsI)
  fix p rest assume p: "pend p = [op_word op] @ rest"
  have c: "tok_type (current p) = fst (op_word op)" "pend (advance p) = rest"
    using p current_pend [of p "fst (op_word op)" "snd (op_word op)"] pend_advance [of p] by simp_all
  have "comp_op (fst (op_word op)) = Some op" by (cases op) (simp_all add: op_word_def comp_op_def)
  then show "\<exists>p'. parse_operator p = Inr (op, p') \<and> pend p' = rest"
    using c by (simp add: parse_operator_def)
qed

lemma reads_then: "reads m [w] x {} \<Longrightarrow> reads (f x) ws y S \<Longrightarrow> reads (andThen m f) (w # ws) y S"
  using reads_andThen [of m "[w]" x "{}" f ws y S] by simp

lemma reads_condition:
  assumes "literal_ok (lit (cond_value c)) (cond_value c)"
  shows "reads parse_condition (condition_words lit c) c S"
proof -
  have c: "\<lparr>cond_column = cond_column c, cond_op = cond_op c, cond_value = cond_value c\<rparr> = c" by (cases c) simp
  show ?thesis
    unfolding parse_condition_def condition_words_def
    by (intro reads_name_then reads_then [OF reads_operator] reads_then [OF reads_value [OF assms]] reads_ret c)
qed

lemma reads_where_loop:
  assumes "\<forall>(op, c) \<in> set ocs. literal_ok (lit (cond_value c)) (cond_value c)"
  shows "reads (where_loop wc) (more_words lit ocs)
     (wc\<lparr>conditions := conditions wc @ map snd ocs, logic_ops := logic_ops wc @ map fst ocs\<rparr>) {KW_AND, KW_OR}"
  using assms
proof (induction ocs arbitrary: wc)
  case Nil
  show ?case by (rule readsI) (auto simp: where_loop.simps match_tok_pend)
next
  case (Cons oc ocs)
  obtain op c where oc: "oc = (op, c)" by (cases oc)
  show ?case
  proof (rule readsI)
    fix p rest assume p: "pend p = more_words lit (oc # ocs) @ rest" and r: "next_type rest \<notin> {KW_AND, KW_OR}"
    let ?wc = "wc\<lparr>logic_ops := logic_ops wc @ [op], conditions := conditions wc @ [c]\<rparr>"
    have "pend (advance p) = condition_words lit c @ more_words lit ocs @ rest"
      using p pend_advance [of p] by (simp add: oc)
    then obtain p1 where p1: "parse_condition (advance p) = Inr (c, p1)" "pend p1 = more_words lit ocs @ rest"
      using readsE [OF reads_condition [of lit c "{}"]] Cons.prems by (auto simp: oc)
    have "reads (where_loop ?wc) (more_words lit ocs)
        (?wc\<lparr>conditions := conditions ?wc @ map snd ocs, logic_ops := logic_ops ?wc @ map fst ocs\<rparr>) {KW_AND, KW_OR}"
      using Cons.prems by (intro Cons.IH) auto
    from readsE [OF this p1(2) r] obtain p' where
      p': "where_loop ?wc p1 = Inr (?wc\<lparr>conditions := conditions ?wc @ map snd ocs, logic_ops := logic_ops ?wc @ map fst ocs\<rparr>, p')"
        "pend p' = rest" .
    have m: "match_tok KW_AND p \<or> match_tok KW_OR p" "match_tok KW_AND p \<longleftrightarrow> op = LogicAND"
      using p by (cases op; simp add: match_tok_pend oc logic_word_def)+
    show "\<exists>p'. where_loop wc p = Inr (wc\<lparr>conditions := conditions wc @ map snd (oc # ocs), logic_ops := logic_ops wc @ map fst (oc # ocs)\<rparr>, p') \<and> pend p' = rest"
      using p' m p1(1) by (subst where_loop.simps, cases op) (auto simp: oc Let_def)
  qed
qed

definition where_ok :: "(Value \<Rightarrow> word_tok) \<Rightarrow> WhereClause \<Rightarrow> bool" where
  "where_ok lit wc \<longleftrightarrow> length (conditions wc) = (if logic_ops wc = [] \<and> conditions wc = [] then 0 else Suc (length (logic_ops wc)))
     \<and> list_all (\<lambda>c. literal_ok (lit (cond_value c)) (cond_value c)) (conditions wc)"

lemma reads_optional_where:
  assumes "where_ok lit wc"
  shows "reads optional_where (where_words lit wc) wc {KW_WHERE, KW_AND, KW_OR}"
proof (cases "conditions wc")
  case Nil
  then have "wc = no_where" using assms by (cases wc) (auto simp: where_ok_def no_where_def split: if_splits)
  then show ?thesis
    unfolding optional_where_def where_words_def by (intro reads_on_match) (simp_all add: no_where_def reads_ret)
next
  case (Cons c cs)
  let ?ocs = "zip (logic_ops wc) cs" and ?wc = "\<lparr>conditions = [c], logic_ops = []\<rparr>"
  have len: "length (logic_ops wc) = length cs" using assms by (simp add: where_ok_def Cons)
  then have w: "?wc\<lparr>conditions := conditions ?wc @ map snd ?ocs, logic_ops := logic_ops ?wc @ map fst ?ocs\<rparr> = wc"
    by (cases wc) (use Cons in simp)
  have "\<forall>(op, c) \<in> set ?ocs. literal_ok (lit (cond_value c)) (cond_value c)"
    using assms by (auto simp: where_ok_def Cons list_all_iff dest: set_zip_rightD)
  from reads_where_loop [OF this, of ?wc]
  have "reads parse_where (where_words lit wc) wc {KW_AND, KW_OR}"
    unfolding parse_where_def where_words_def Cons list.case w
    using assms by (intro reads_expect_then reads_andThen [OF reads_condition [where S = "{}"]]) (auto simp: where_ok_def Cons)
  then show ?thesis
    unfolding optional_where_def
    by (intro reads_on_match) (auto simp: where_words_def Cons intro: reads_weaken)
qed

text \<open>Columns: the type, then the constraints in the order of the printer.\<close>

lemma reads_column_type: "known_type t \<Longrightarrow> reads parse_column_type [type_word t] t {LPAREN}"
proof (rule readsI)
  fix p rest assume t: "known_type t" and p: "pend p = [type_word t] @ rest" and r: "next_type rest \<notin> {LPAREN}"
  have c: "tok_type (current p) = fst (type_word t)" "pend (advance p) = rest"
    using p current_pend [of p "fst (type_word t)" "snd (type_word t)"] pend_advance [of p] by simp_all
  then show "\<exists>p'. parse_column_type p = Inr (t, p') \<and> pend p' = rest"
    using t r by (auto simp: known_type_def type_word_def parse_column_type_def match_tok_pend)
qed

lemma reads_constraints_stop: "reads (constraint_loop col pk) [] (col, pk) (- {COMMA, RPAREN})"
  by (rule readsI) (auto simp: constraint_loop.simps match_tok_pend)

lemma reads_constraints_not_null:
  assumes "reads (constraint_loop (col\<lparr>not_null := True\<rparr>) pk) ws x S"
  shows "reads (constraint_loop col pk) ((KW_NOT, ''NOT'') # (KW_NULL, ''NULL'') # ws) x S"
proof -
  have "reads (andThen skip (\<lambda>_. andThen (expect KW_NULL) (\<lambda>_. constraint_loop (col\<lparr>not_null := True\<rparr>) pk)))
      ((KW_NOT, ''NOT'') # (KW_NULL, ''NULL'') # ws) x S"
    by (intro reads_skip_then reads_expect_then assms)
  then show ?thesis
    by (auto simp: reads_def constraint_loop.simps [of col pk] match_tok_pend at_end_pend andThen_def skip_def)
qed

lemma reads_constraints_primary:
  assumes "reads (constraint_loop (col\<lparr>is_primary_key := True\<rparr>) n) ws x S" "n = col_name col"
  shows "reads (constraint_loop col pk) ((KW_PRIMARY, ''PRIMARY'') # (KW_KEY, ''KEY'') # ws) x S"
proof -
  have "reads (andThen skip (\<lambda>_. andThen (expect KW_KEY) (\<lambda>_. constraint_loop (col\<lparr>is_primary_key := True\<rparr>) (col_name col))))
      ((KW_PRIMARY, ''PRIMARY'') # (KW_KEY, ''KEY'') # ws) x S"
    by (intro reads_skip_then reads_expect_then) (use assms in simp)
  then show ?thesis
    by (auto simp: reads_def constraint_loop.simps [of col pk] match_tok_pend at_end_pend andThen_def skip_def)
qed

text \<open>The column as the loop leaves it: the flags in the text, and the primary key it names.\<close>

lemma reads_column:
  assumes "known_type (col_type c)"
  shows "reads (parse_column pk) (column_words c) (c, if is_primary_key c then col_name c else pk) (- {COMMA, RPAREN})"
proof -
  let ?col = "\<lparr>col_name = col_name c, col_type = col_type c, not_null = False, is_primary_key = False\<rparr>"
  let ?ws = "(if is_primary_key c then [(KW_PRIMARY, ''PRIMARY''), (KW_KEY, ''KEY'')] else [])
     @ (if not_null c then [(KW_NOT, ''NOT''), (KW_NULL, ''NULL'')] else [])"
  have nn: "reads (constraint_loop col pk) (if b then [(KW_NOT, ''NOT''), (KW_NULL, ''NULL'')] else [])
      (if b then col\<lparr>not_null := True\<rparr> else col, pk) (- {COMMA, RPAREN})" for col pk b
    by (simp add: reads_constraints_stop reads_constraints_not_null)
  have l: "reads (constraint_loop ?col pk) ?ws (c, if is_primary_key c then col_name c else pk) (- {COMMA, RPAREN})"
  proof (cases "is_primary_key c")
    case True
    then show ?thesis
      using reads_constraints_primary [OF nn [of "?col\<lparr>is_primary_key := True\<rparr>" "col_name c" "not_null c"], of pk]
      by (cases c) auto
  next
    case False
    then show ?thesis using nn [of ?col pk "not_null c"] by (cases c) auto
  qed
  let ?f = "\<lambda>t. constraint_loop \<lparr>col_name = col_name c, col_type = t, not_null = False, is_primary_key = False\<rparr> pk"
  have "reads (andThen parse_column_type ?f) ([type_word (col_type c)] @ ?ws)
      (c, if is_primary_key c then col_name c else pk) (- {COMMA, RPAREN})"
    by (rule reads_andThen [OF reads_column_type [OF assms]], rule l) auto
  then show ?thesis
    unfolding parse_column_def column_words_def append_Cons append_Nil by (rule reads_name_then)
qed

lemma reads_create_item:
  assumes "known_type (col_type c)"
  shows "reads (parse_create_item stmt) (column_words c)
    (stmt\<lparr>ct_columns := ct_columns stmt @ [c], ct_primary_key := (if is_primary_key c then col_name c else ct_primary_key stmt)\<rparr>)
    (- {COMMA, RPAREN})"
proof -
  have "reads (andThen (parse_column (ct_primary_key stmt)) (\<lambda>(col, pk). ret (stmt\<lparr>ct_columns := ct_columns stmt @ [col], ct_primary_key := pk\<rparr>)))
    (column_words c @ []) (stmt\<lparr>ct_columns := ct_columns stmt @ [c], ct_primary_key := (if is_primary_key c then col_name c else ct_primary_key stmt)\<rparr>)
    (- {COMMA, RPAREN})"
    by (intro reads_andThen [OF reads_column [OF assms]]) (simp_all add: reads_ret)
  then show ?thesis
    unfolding parse_create_item_def by (intro reads_on_match) (auto simp: column_words_def)
qed

definition names_ok :: "string list \<Rightarrow> bool" where
  "names_ok ns \<longleftrightarrow> list_all (\<lambda>n. name_lexeme n \<and> keyword_type n = IDENTIFIER) ns"

text \<open>The create statements that a text can express: each name an identifier, and the key one of the columns.\<close>

definition create_ok :: "CreateTableStmt \<Rightarrow> bool" where
  "create_ok s \<longleftrightarrow> names_ok (ct_table_name s # map col_name (ct_columns s))
     \<and> list_all (\<lambda>c. known_type (col_type c) \<and> (is_primary_key c \<longleftrightarrow> col_name c = ct_primary_key s)
                    \<and> (is_primary_key c \<longrightarrow> not_null c)) (ct_columns s)
     \<and> (ct_primary_key s \<noteq> [] \<longrightarrow> ct_primary_key s \<in> set (map col_name (ct_columns s)))"

lemma fold_columns:
  "foldl (\<lambda>s c. s\<lparr>ct_columns := ct_columns s @ [c], ct_primary_key := (if is_primary_key c then col_name c else ct_primary_key s)\<rparr>) s cs
   = s\<lparr>ct_columns := ct_columns s @ cs,
       ct_primary_key := (case rev (filter is_primary_key cs) of [] \<Rightarrow> ct_primary_key s | c # _ \<Rightarrow> col_name c)\<rparr>"
  by (induction cs arbitrary: s) (auto split: list.splits)

lemma reads_create_table:
  assumes "create_ok s"
  shows "reads parse_create_table (statement_words lit (CreateTable s)) s S"
proof -
  let ?s0 = "\<lparr>ct_table_name = ct_table_name s, ct_columns = [], ct_primary_key = []\<rparr>"
  let ?g = "\<lambda>s c. s\<lparr>ct_columns := ct_columns s @ [c], ct_primary_key := (if is_primary_key c then col_name c else ct_primary_key s)\<rparr>"
  have k: "known_type (col_type c)" if "c \<in> set (ct_columns s)" for c
    using assms that by (auto simp: create_ok_def list_all_iff)
  have l: "reads (create_loop ?s0) (comma_list (map column_words (ct_columns s))) (foldl ?g ?s0 (ct_columns s)) (- {RPAREN})"
    by (rule items.reads_loop [where S = "- {COMMA, RPAREN}"], rule reads_create_item, rule k) (simp_all add: column_words_def)
  have pk: "(case rev (filter is_primary_key (ct_columns s)) of [] \<Rightarrow> ct_primary_key ?s0 | c # _ \<Rightarrow> col_name c) = ct_primary_key s"
  proof (cases "rev (filter is_primary_key (ct_columns s))")
    case Nil
    then have "\<forall>c \<in> set (ct_columns s). \<not> is_primary_key c" by (simp add: filter_empty_conv)
    then show ?thesis using assms Nil by (auto simp: create_ok_def list_all_iff)
  next
    case (Cons c cs)
    then have "c \<in> set (rev (filter is_primary_key (ct_columns s)))" by simp
    then have "col_name c = ct_primary_key s" using assms by (auto simp: create_ok_def list_all_iff)
    then show ?thesis using Cons by simp
  qed
  have m: "mark_primary_key (foldl ?g ?s0 (ct_columns s)) = s"
  proof -
    have "map (\<lambda>c. if col_name c = ct_primary_key s then c\<lparr>is_primary_key := True, not_null := True\<rparr> else c) (ct_columns s)
        = ct_columns s"
      using assms by (intro map_idI) (auto simp: create_ok_def list_all_iff)
    then have "mark_primary_key s = s" by (cases s) (simp add: mark_primary_key_def)
    moreover have "foldl ?g ?s0 (ct_columns s) = s" unfolding fold_columns pk by (cases s) simp
    ultimately show ?thesis by simp
  qed
  show ?thesis
    unfolding parse_create_table_def statement_words.simps append_Cons append_Nil
    by (intro reads_expect_then reads_name_then reads_andThen [OF l]) (auto simp: m intro!: reads_expect_then reads_ret)
qed

lemma reads_drop_table: "reads parse_drop_table (statement_words lit (DropTable s)) s S"
proof -
  let ?if = "if dt_if_exists s then [(KW_IF, ''IF''), (KW_EXISTS, ''EXISTS'')] else []"
  have "reads (on_match KW_IF (andThen skip (\<lambda>_. andThen (expect KW_EXISTS) (\<lambda>_. ret True))) (ret False))
      ?if (dt_if_exists s) {KW_IF}"
    by (rule reads_on_match) (auto intro!: reads_skip_then reads_expect_then reads_ret)
  then show ?thesis
    unfolding parse_drop_table_def statement_words.simps append_Cons append_Nil
    by (intro reads_expect_then reads_andThen [where S = "{KW_IF}"] reads_name_then) (auto intro!: reads_ret)
qed

definition literals_ok :: "(Value \<Rightarrow> word_tok) \<Rightarrow> Value list \<Rightarrow> bool" where
  "literals_ok lit vs \<longleftrightarrow> list_all (\<lambda>v. literal_ok (lit v) v) vs"

lemma literal_not_punctuation:
  "literal_ok w v \<Longrightarrow> fst w \<notin> {RPAREN, END_OF_INPUT, SEMICOLON, COMMA}"
  by (auto simp: literal_ok_def)

lemma foldl_snoc: "foldl (\<lambda>acc x. acc @ [x]) ys xs = ys @ xs"
  by (induction xs arbitrary: ys) auto

lemma reads_names: "reads (name_list_loop []) (comma_list (map name_words ns)) ns (- {RPAREN})"
proof -
  have "reads (andThen name_token (\<lambda>col. ret (acc @ [col]))) (name_words n) (acc @ [n]) {}" for acc n
    unfolding name_words_def by (intro reads_name_then reads_ret) simp
  then show ?thesis
    using names.reads_loop [of ns name_words "\<lambda>acc x. acc @ [x]" "{}" "[]"] by (simp add: foldl_snoc name_words_def)
qed

lemma reads_values:
  assumes "literals_ok lit vs"
  shows "reads (value_list_loop []) (comma_list (map (\<lambda>v. [lit v]) vs)) vs (- {RPAREN})"
proof -
  have "reads (andThen parse_value (\<lambda>v. ret (acc @ [v]))) [lit v] (acc @ [v]) {}" if "v \<in> set vs" for acc v
    using assms that by (intro reads_then [OF reads_value] reads_ret) (auto simp: literals_ok_def list_all_iff)
  moreover have "fst (lit v) \<notin> {RPAREN, END_OF_INPUT, SEMICOLON, COMMA}" if "v \<in> set vs" for v
    using assms that literal_not_punctuation [of "lit v" v] by (auto simp: literals_ok_def list_all_iff)
  ultimately show ?thesis
    using vals.reads_loop [of vs "\<lambda>v. [lit v]" "\<lambda>acc x. acc @ [x]" "{}" "[]"] by (simp add: foldl_snoc)
qed

lemma reads_insert:
  assumes "literals_ok lit (ins_values s)"
  shows "reads parse_insert (statement_words lit (Insert s)) s S"
proof -
  let ?cols = "if ins_columns s = [] then [] else (LPAREN, ''('') # comma_list (map name_words (ins_columns s)) @ [(RPAREN, '')'')]"
  have c: "reads (on_match LPAREN
        (andThen skip (\<lambda>_. andThen (name_list_loop []) (\<lambda>cols. andThen (expect RPAREN) (\<lambda>_. ret cols)))) (ret []))
      ?cols (ins_columns s) {LPAREN}"
    by (rule reads_on_match)
      (auto intro!: reads_skip_then reads_andThen [OF reads_names] reads_expect_then reads_ret)
  show ?thesis
    unfolding parse_insert_def statement_words.simps append_Cons append_Nil
    by (intro reads_expect_then reads_name_then reads_andThen [OF c] reads_andThen [OF reads_values [OF assms]] reads_ret)
      simp_all
qed

lemma reads_order:
  "sel_order_by s = [] \<longrightarrow> \<not> sel_order_desc s \<Longrightarrow>
   reads (on_match KW_ORDER parse_order_by (ret ([], False))) (order_words s) (sel_order_by s, sel_order_desc s)
     {KW_ORDER, KW_DESC, KW_ASC}"
  unfolding parse_order_by_def order_words_def
  by (rule reads_on_match)
    (auto intro!: reads_skip_then reads_expect_then reads_name_then reads_on_match reads_ret)

lemma reads_limit:
  assumes "- (2 ^ 31) \<le> sel_limit s" "sel_limit s < 2 ^ 31"
  shows "reads (on_match KW_LIMIT parse_limit (ret (-1))) (limit_words s) (sel_limit s) {KW_LIMIT}"
proof (rule reads_on_match)
  assume l: "limit_words s \<noteq> [] \<and> fst (hd (limit_words s)) = KW_LIMIT"
  show "reads parse_limit (limit_words s) (sel_limit s) {KW_LIMIT}"
  proof (rule readsI)
    fix p rest assume p: "pend p = limit_words s @ rest"
    then have p1: "pend (advance p) = (INTEGER_LIT, int_to_string (sel_limit s)) # rest"
      using l pend_advance [of p] by (auto simp: limit_words_def split: if_splits)
    then have "tok_value (current (advance p)) = int_to_string (sel_limit s)" "pend (advance (advance p)) = rest"
      using current_pend pend_advance by auto
    then show "\<exists>p'. parse_limit p = Inr (sel_limit s, p') \<and> pend p' = rest"
      using stoi_print [OF assms] by (simp add: parse_limit_def)
  qed
qed (auto simp: limit_words_def reads_ret split: if_splits)

definition select_ok :: "(Value \<Rightarrow> word_tok) \<Rightarrow> SelectStmt \<Rightarrow> bool" where
  "select_ok lit s \<longleftrightarrow> names_ok (sel_table_name s # sel_columns s)
     \<and> sel_all s = (sel_columns s = []) \<and> where_ok lit (sel_where s)
     \<and> (if sel_order_by s = [] then \<not> sel_order_desc s else names_ok [sel_order_by s])
     \<and> - (2 ^ 31) \<le> sel_limit s \<and> sel_limit s < 2 ^ 31"

definition clause_words :: "TokenType set" where
  "clause_words = {KW_WHERE, KW_AND, KW_OR, KW_ORDER, KW_DESC, KW_ASC, KW_LIMIT, COMMA}"

lemma hd_names: "ns \<noteq> [] \<Longrightarrow> comma_list (map name_words ns) \<noteq> [] \<and> fst (hd (comma_list (map name_words ns))) = IDENTIFIER"
  by (induction "map name_words ns" rule: comma_list.induct) (auto simp: name_words_def)

lemma reads_clauses:
  assumes "select_ok lit s"
  shows "reads (andThen optional_where (\<lambda>wc. andThen (on_match KW_ORDER parse_order_by (ret ([], False))) (\<lambda>(order_by, desc).
        andThen (on_match KW_LIMIT parse_limit (ret (-1))) (\<lambda>limit.
        ret (s\<lparr>sel_where := wc, sel_order_by := order_by, sel_order_desc := desc, sel_limit := limit\<rparr>)))))
      (where_words lit (sel_where s) @ order_words s @ limit_words s) s clause_words"
proof -
  have l: "reads (andThen (on_match KW_LIMIT parse_limit (ret (-1))) (\<lambda>limit. ret (s\<lparr>sel_limit := limit\<rparr>)))
      (limit_words s) s {KW_LIMIT}"
    using reads_andThen [OF reads_limit, of s "\<lambda>limit. ret (s\<lparr>sel_limit := limit\<rparr>)" "[]" s "{KW_LIMIT}"] assms
    by (simp add: select_ok_def reads_ret)
  have lw: "limit_words s = [] \<or> fst (hd (limit_words s)) = KW_LIMIT" by (simp add: limit_words_def)
  have ow: "order_words s = [] \<or> fst (hd (order_words s)) = KW_ORDER" by (simp add: order_words_def)
  have o: "reads (andThen (on_match KW_ORDER parse_order_by (ret ([], False))) (\<lambda>(order_by, desc).
        andThen (on_match KW_LIMIT parse_limit (ret (-1))) (\<lambda>limit. ret (s\<lparr>sel_order_by := order_by, sel_order_desc := desc, sel_limit := limit\<rparr>))))
      (order_words s @ limit_words s) s {KW_ORDER, KW_DESC, KW_ASC, KW_LIMIT}"
    using assms l lw by (intro reads_andThen [OF reads_order]) (auto simp: select_ok_def intro: reads_weaken)
  show ?thesis
    using assms o lw ow
    by (intro reads_andThen [OF reads_optional_where])
      (auto simp: select_ok_def clause_words_def hd_append intro: reads_weaken)
qed

lemma reads_select:
  assumes "select_ok lit s"
  shows "reads parse_select (statement_words lit (Select s)) s clause_words"
proof -
  let ?cols = "if sel_all s then [(STAR, ''*'')] else comma_list (map name_words (sel_columns s))"
  have "reads name_token (name_words n) n {}" for n unfolding name_words_def by (rule reads_name)
  then have "reads (andThen (select_columns []) (\<lambda>cols. ret (False, cols))) (comma_list (map name_words (sel_columns s)) @ [])
      (False, sel_columns s) {COMMA}" if "sel_columns s \<noteq> []"
    using sel.reads_loop [of "sel_columns s" name_words "[]"] that
    by (intro reads_andThen [where S = "{COMMA}"] reads_ret) auto
  then have c: "reads (on_match STAR (andThen skip (\<lambda>_. ret (True, []))) (andThen (select_columns []) (\<lambda>cols. ret (False, cols))))
      ?cols (sel_all s, sel_columns s) {COMMA}"
    using assms hd_names [of "sel_columns s"]
    by (intro reads_on_match) (auto simp: select_ok_def intro!: reads_skip_then reads_ret)
  have e: "\<lparr>sel_table_name = sel_table_name s, sel_columns = sel_columns s, sel_all = sel_all s, sel_where = wc,
      sel_order_by = order_by, sel_order_desc = desc, sel_limit = limit\<rparr>
    = s\<lparr>sel_where := wc, sel_order_by := order_by, sel_order_desc := desc, sel_limit := limit\<rparr>" for wc order_by desc limit
    by (cases s) simp
  have f: "reads (case (sel_all s, sel_columns s) of (all, cols) \<Rightarrow>
      andThen (expect KW_FROM) (\<lambda>_. andThen name_token (\<lambda>name. andThen optional_where (\<lambda>wc.
        andThen (on_match KW_ORDER parse_order_by (ret ([], False))) (\<lambda>(order_by, desc).
        andThen (on_match KW_LIMIT parse_limit (ret (-1))) (\<lambda>limit.
        ret \<lparr>sel_table_name = name, sel_columns = cols, sel_all = all, sel_where = wc,
           sel_order_by = order_by, sel_order_desc = desc, sel_limit = limit\<rparr>))))))
      ((KW_FROM, ''FROM'') # (IDENTIFIER, sel_table_name s) # where_words lit (sel_where s) @ order_words s @ limit_words s)
      s clause_words"
    unfolding prod.case by (intro reads_expect_then reads_name_then) (simp add: e reads_clauses [OF assms])
  show ?thesis
    unfolding parse_select_def statement_words.simps append_Cons append_Nil
    by (intro reads_expect_then reads_andThen [OF c]) (use f in simp_all)
qed

lemma reads_assignment:
  assumes "literal_ok (lit (asg_value a)) (asg_value a)"
  shows "reads parse_assignment (assignment_words lit a) a S"
proof -
  have a: "\<lparr>asg_column = asg_column a, asg_value = asg_value a\<rparr> = a" by (cases a) simp
  show ?thesis
    unfolding parse_assignment_def assignment_words_def
    by (intro reads_name_then reads_expect_then reads_then [OF reads_value [OF assms]] reads_ret a)
qed

lemma where_words_hd: "where_words lit wc = [] \<or> fst (hd (where_words lit wc)) = KW_WHERE"
  by (simp add: where_words_def split: list.splits)

lemma reads_where_then:
  assumes "where_ok lit wc" "f wc = y"
  shows "reads (andThen optional_where (\<lambda>w. ret (f w))) (where_words lit wc) y clause_words"
  using reads_andThen [OF reads_optional_where [OF assms(1)], of "\<lambda>w. ret (f w)" "[]" y clause_words] assms(2)
  by (simp add: clause_words_def reads_ret)

lemma reads_update:
  assumes "upd_assignments s \<noteq> []" "literals_ok lit (map asg_value (upd_assignments s))" "where_ok lit (upd_where s)"
  shows "reads parse_update (statement_words lit (Update s)) s clause_words"
proof -
  have l: "reads (assignment_loop []) (comma_list (map (assignment_words lit) (upd_assignments s))) (upd_assignments s) {COMMA}"
    using asgs.reads_loop [of "upd_assignments s" "assignment_words lit" "[]"] assms reads_assignment
    by (auto simp: literals_ok_def list_all_iff)
  show ?thesis
    unfolding parse_update_def statement_words.simps append_Cons append_Nil
    using where_words_hd [of lit "upd_where s"]
    by (intro reads_expect_then reads_name_then reads_andThen [OF l] reads_where_then assms)
      (auto simp: clause_words_def)
qed

lemma reads_delete:
  assumes "where_ok lit (del_where s)"
  shows "reads parse_delete (statement_words lit (Delete s)) s clause_words"
  unfolding parse_delete_def statement_words.simps append_Cons append_Nil
  by (intro reads_expect_then reads_name_then reads_where_then assms) simp

section \<open>From statements to text and back\<close>

text \<open>The statements that the text can express: names are identifiers, and every value has a literal.\<close>

fun statement_ok :: "(Value \<Rightarrow> word_tok) \<Rightarrow> Statement \<Rightarrow> bool" where
  "statement_ok lit (CreateTable s) \<longleftrightarrow> create_ok s"
| "statement_ok lit (DropTable s) \<longleftrightarrow> names_ok [dt_table_name s]"
| "statement_ok lit (Insert s) \<longleftrightarrow> names_ok (ins_table_name s # ins_columns s) \<and> literals_ok lit (ins_values s)"
| "statement_ok lit (Select s) \<longleftrightarrow> select_ok lit s \<and> names_ok (map cond_column (conditions (sel_where s)))"
| "statement_ok lit (Update s) \<longleftrightarrow> names_ok (upd_table_name s # map asg_column (upd_assignments s) @ map cond_column (conditions (upd_where s)))
     \<and> upd_assignments s \<noteq> [] \<and> literals_ok lit (map asg_value (upd_assignments s)) \<and> where_ok lit (upd_where s)"
| "statement_ok lit (Delete s) \<longleftrightarrow> names_ok (del_table_name s # map cond_column (conditions (del_where s))) \<and> where_ok lit (del_where s)"
| "statement_ok lit ShowTables \<longleftrightarrow> True"
| "statement_ok lit (Describe n) \<longleftrightarrow> names_ok [n]"

lemma reads_dispatch:
  assumes "reads m ws s S" "\<And>p. match_tok t p \<Longrightarrow> parse_statement p = andThen m (\<lambda>s. ret (C s)) p"
    "ws \<noteq> []" "fst (hd ws) = t"
  shows "reads parse_statement ws (C s) S"
proof -
  have "reads (andThen m (\<lambda>s. ret (C s))) (ws @ []) (C s) S"
    by (intro reads_andThen [OF assms(1)] reads_ret) simp_all
  moreover have "match_tok t p" if "pend p = ws @ rest" for p rest
    using that assms(3,4) by (cases ws) (simp_all add: match_tok_pend)
  ultimately show ?thesis using assms(2) by (auto simp: reads_def)
qed

lemma dispatch:
  "match_tok KW_CREATE p \<Longrightarrow> parse_statement p = andThen parse_create_table (\<lambda>s. ret (CreateTable s)) p"
  "match_tok KW_DROP p \<Longrightarrow> parse_statement p = andThen parse_drop_table (\<lambda>s. ret (DropTable s)) p"
  "match_tok KW_INSERT p \<Longrightarrow> parse_statement p = andThen parse_insert (\<lambda>s. ret (Insert s)) p"
  "match_tok KW_SELECT p \<Longrightarrow> parse_statement p = andThen parse_select (\<lambda>s. ret (Select s)) p"
  "match_tok KW_UPDATE p \<Longrightarrow> parse_statement p = andThen parse_update (\<lambda>s. ret (Update s)) p"
  "match_tok KW_DELETE p \<Longrightarrow> parse_statement p = andThen parse_delete (\<lambda>s. ret (Delete s)) p"
  "match_tok KW_SHOW p \<Longrightarrow> parse_statement p = andThen parse_show_tables (\<lambda>_. ret ShowTables) p"
  "match_tok KW_DESCRIBE p \<Longrightarrow> parse_statement p = andThen parse_describe (\<lambda>s. ret (Describe s)) p"
  by (simp_all add: parse_statement_def match_tok_def)

lemma reads_statement:
  assumes "statement_ok lit stmt"
  shows "reads parse_statement (statement_words lit stmt) stmt clause_words"
proof (cases stmt)
  case (CreateTable s)
  then show ?thesis
    using assms reads_dispatch [OF reads_create_table [of s lit clause_words] dispatch(1)] by simp
next
  case (DropTable s)
  then show ?thesis using reads_dispatch [OF reads_drop_table [of lit s clause_words] dispatch(2)] by simp
next
  case (Insert s)
  then show ?thesis
    using assms reads_dispatch [OF reads_insert [of lit s clause_words] dispatch(3)] by simp
next
  case (Select s)
  then show ?thesis using assms reads_dispatch [OF reads_select [of lit s] dispatch(4)] by simp
next
  case (Update s)
  then show ?thesis using assms reads_dispatch [OF reads_update [of s lit] dispatch(5)] by simp
next
  case (Delete s)
  then show ?thesis using assms reads_dispatch [OF reads_delete [of lit s] dispatch(6)] by simp
next
  case ShowTables
  have "reads parse_show_tables [(KW_SHOW, ''SHOW''), (KW_TABLES, ''TABLES'')] () clause_words"
    unfolding parse_show_tables_def by (intro reads_expect_then reads_ret) simp
  then show ?thesis using ShowTables reads_dispatch [OF _ dispatch(7)] by simp
next
  case (Describe n)
  have "reads parse_describe [(KW_DESCRIBE, ''DESCRIBE''), (IDENTIFIER, n)] n clause_words"
    unfolding parse_describe_def by (intro reads_expect_then reads_name)
  then show ?thesis using Describe reads_dispatch [OF _ dispatch(8)] by simp
qed

text \<open>The text of a list of words: each spelled as a token, string literals in single quotes, a blank behind each.\<close>

definition word_text :: "word_tok \<Rightarrow> string" where
  "word_text w = (if fst w = STRING_LIT then quoted (CHR 0x27) (snd w) else snd w)"

definition words_text :: "word_tok list \<Rightarrow> string" where
  "words_text ws = concat (map (\<lambda>w. word_text w @ '' '') ws)"

definition word_ok :: "word_tok \<Rightarrow> bool" where
  "word_ok w \<longleftrightarrow> lexeme (word_text w) (fst w) (snd w)"

definition spell_words :: "word_tok list \<Rightarrow> spelling list" where
  "spell_words ws = map (\<lambda>w. (word_text w, fst w, snd w, '' '')) ws"

lemma layout_spell: "layout (spell_words ws) = words_text ws"
  by (induction ws) (auto simp: spell_words_def words_text_def)

lemma stops_blank: "stops w t (CHR '' '') \<longleftrightarrow> t \<noteq> STRING_LIT \<or> name_lexeme w \<or> hd w \<noteq> CHR '' ''"
  by (auto simp: stops_def is_ident_char_def is_alpha_def is_digit_def)

lemma spelled_words: "list_all word_ok ws \<Longrightarrow> spelled (spell_words ws)"
proof (induction ws)
  case (Cons w ws)
  then have "stops (word_text w) (fst w) (CHR '' '')" by (auto simp: stops_blank word_text_def quoted_def)
  with Cons show ?case by (auto simp: spell_words_def word_ok_def)
qed (simp add: spell_words_def)

lemma placed_pend:
  "\<exists>ts e. placed p (spell_words ws) = ts @ [mk_token END_OF_INPUT [] e] \<and> map (\<lambda>t. (tok_type t, tok_value t)) ts = ws"
proof (induction ws arbitrary: p)
  case (Cons w ws)
  obtain ts e where "placed (p + length (word_text w) + 1) (spell_words ws) = ts @ [mk_token END_OF_INPUT [] e]"
    "map (\<lambda>t. (tok_type t, tok_value t)) ts = ws" using Cons by blast
  then show ?case
    by (intro exI [of _ "mk_token (fst w) (snd w) p # ts"] exI [of _ e]) (simp add: spell_words_def mk_token_def)
qed (auto simp: spell_words_def)

lemma sql_parse_words:
  assumes "list_all word_ok (ws @ rest)" "reads parse_statement ws stmt S" "next_type rest \<notin> S"
  shows "sql_parse (words_text (ws @ rest)) = Inr stmt"
proof -
  obtain ts e where ts: "placed 0 (spell_words (ws @ rest)) = ts @ [mk_token END_OF_INPUT [] e]"
    "map (\<lambda>t. (tok_type t, tok_value t)) ts = ws @ rest" using placed_pend by blast
  have "tokenize (words_text (ws @ rest)) = Inr (ts @ [mk_token END_OF_INPUT [] e])"
    using tokenize_loop_spelled [OF _ spelled_words [OF assms(1)], of "[]" 0 "[]"] ts(1)
    by (simp add: tokenize_def layout_spell)
  moreover have "pend (new_parser (ts @ [mk_token END_OF_INPUT [] e])) = ws @ rest"
    using ts(2) by (simp add: pend_def new_parser_def)
  from readsE [OF assms(2) this assms(3)]
  obtain p' where "parse_statement (new_parser (ts @ [mk_token END_OF_INPUT [] e])) = Inr (stmt, p')" .
  ultimately show ?thesis by (simp add: sql_parse_def)
qed

definition fixed_words :: "word_tok list" where
  "fixed_words = map (\<lambda>(k, t). (t, k)) (keyword_table @ symbol_table)"

lemma fixed_words_ok: "list_all word_ok fixed_words"
  by code_simp

lemma word_ok_fixed: "w \<in> set fixed_words \<Longrightarrow> word_ok w"
  using fixed_words_ok by (auto simp: list_all_iff)

lemma word_ok_name: "names_ok [n] \<Longrightarrow> word_ok (IDENTIFIER, n)"
  by (simp add: names_ok_def word_ok_def word_text_def lexeme_def)

lemma word_ok_literal: "literal_ok w v \<Longrightarrow> word_ok w"
proof -
  have "word_ok (KW_TRUE, ''TRUE'')" "word_ok (KW_FALSE, ''FALSE'')" "word_ok (KW_NULL, ''NULL'')"
    by (rule word_ok_fixed, simp add: fixed_words_def keyword_table_def)+
  then show "literal_ok w v \<Longrightarrow> word_ok w"
    by (auto simp: literal_ok_def) (auto simp: word_ok_def word_text_def lexeme_def)
qed

lemma integer_lexeme_print: "integer_lexeme (int_to_string i)"
proof -
  have "hd (dec_digits n) \<noteq> CHR ''-''" for n
    using dec_digits_all [of n] is_digit_not_space by (cases "dec_digits n") auto
  then show ?thesis by (simp add: integer_lexeme_def int_to_string_def magnitude_def)
qed

lemma names_ok_set: "names_ok ns \<longleftrightarrow> (\<forall>n \<in> set ns. names_ok [n])"
  by (simp add: names_ok_def list_all_iff)

lemma comma_list_ok:
  "list_all (list_all word_ok) wss \<Longrightarrow> list_all word_ok (comma_list wss)"
proof (induction wss rule: comma_list.induct)
  case (3 ws vs wss)
  moreover have "word_ok (COMMA, '','')" by (rule word_ok_fixed) (simp add: fixed_words_def symbol_table_def)
  ultimately show ?case by simp
qed simp_all

lemma op_word_ok: "word_ok (op_word op)" "word_ok (logic_word l)" "word_ok (type_word t)"
  by (rule word_ok_fixed, simp add: fixed_words_def symbol_table_def keyword_table_def op_word_def logic_word_def
      type_word_def split: CompOp.splits LogicOp.splits ColumnType.splits)+

lemma keyword_words_ok:
  "word_ok (KW_CREATE, ''CREATE'')" "word_ok (KW_TABLE, ''TABLE'')" "word_ok (KW_DROP, ''DROP'')" "word_ok (KW_IF, ''IF'')"
  "word_ok (KW_EXISTS, ''EXISTS'')" "word_ok (KW_INSERT, ''INSERT'')" "word_ok (KW_INTO, ''INTO'')" "word_ok (KW_VALUES, ''VALUES'')"
  "word_ok (KW_SELECT, ''SELECT'')" "word_ok (KW_FROM, ''FROM'')" "word_ok (KW_UPDATE, ''UPDATE'')" "word_ok (KW_SET, ''SET'')"
  "word_ok (KW_DELETE, ''DELETE'')" "word_ok (KW_SHOW, ''SHOW'')" "word_ok (KW_TABLES, ''TABLES'')" "word_ok (KW_DESCRIBE, ''DESCRIBE'')"
  "word_ok (KW_WHERE, ''WHERE'')" "word_ok (KW_ORDER, ''ORDER'')" "word_ok (KW_BY, ''BY'')" "word_ok (KW_DESC, ''DESC'')"
  "word_ok (KW_LIMIT, ''LIMIT'')" "word_ok (KW_PRIMARY, ''PRIMARY'')" "word_ok (KW_KEY, ''KEY'')" "word_ok (KW_NOT, ''NOT'')"
  "word_ok (KW_NULL, ''NULL'')" "word_ok (LPAREN, ''('')" "word_ok (RPAREN, '')'')" "word_ok (STAR, ''*'')" "word_ok (OP_EQ, ''='')"
  by (rule word_ok_fixed, simp add: fixed_words_def symbol_table_def keyword_table_def)+

lemma more_words_ok:
  assumes "\<forall>(op, c) \<in> set ocs. list_all word_ok (condition_words lit c)"
  shows "list_all word_ok (more_words lit ocs)"
  using assms by (induction lit ocs rule: more_words.induct) (auto simp: op_word_ok)

lemma where_words_ok:
  assumes "where_ok lit wc" "names_ok (map cond_column (conditions wc))"
  shows "list_all word_ok (where_words lit wc)"
proof -
  have c: "list_all word_ok (condition_words lit c)" if "c \<in> set (conditions wc)" for c
    using that assms word_ok_name [of "cond_column c"] word_ok_literal [of "lit (cond_value c)" "cond_value c"]
    by (auto simp: condition_words_def where_ok_def list_all_iff op_word_ok names_ok_def)
  show ?thesis
  proof (cases "conditions wc")
    case (Cons x xs)
    have "list_all word_ok (more_words lit (zip (logic_ops wc) xs))"
      using c by (intro more_words_ok) (auto simp: Cons dest!: set_zip_rightD)
    then show ?thesis using c [of x] by (simp add: where_words_def Cons keyword_words_ok)
  qed (simp add: where_words_def)
qed

lemma comma_map_ok: "(\<And>x. x \<in> set xs \<Longrightarrow> list_all word_ok (f x)) \<Longrightarrow> list_all word_ok (comma_list (map f xs))"
  by (intro comma_list_ok) (auto simp: list_all_iff)

lemma column_words_ok: "names_ok [col_name c] \<Longrightarrow> list_all word_ok (column_words c)"
  by (simp add: column_words_def word_ok_name op_word_ok keyword_words_ok)

lemma name_list_ok: "names_ok ns \<Longrightarrow> list_all word_ok (comma_list (map name_words ns))"
  using names_ok_set [of ns] by (intro comma_map_ok) (auto simp: name_words_def word_ok_name)

lemma value_list_ok: "literals_ok lit vs \<Longrightarrow> list_all word_ok (comma_list (map (\<lambda>v. [lit v]) vs))"
  by (intro comma_map_ok) (auto simp: literals_ok_def list_all_iff intro: word_ok_literal)

lemma assignment_list_ok:
  assumes "literals_ok lit (map asg_value as)" "names_ok (map asg_column as)"
  shows "list_all word_ok (comma_list (map (assignment_words lit) as))"
proof (rule comma_map_ok)
  fix a assume "a \<in> set as"
  then have "literal_ok (lit (asg_value a)) (asg_value a)" "names_ok [asg_column a]"
    using assms by (auto simp: literals_ok_def names_ok_def list_all_iff)
  then show "list_all word_ok (assignment_words lit a)"
    by (auto simp: assignment_words_def word_ok_name keyword_words_ok intro: word_ok_literal)
qed

lemma statement_words_ok:
  assumes "statement_ok lit stmt"
  shows "list_all word_ok (statement_words lit stmt)"
proof (cases stmt)
  case (CreateTable s)
  then have n: "names_ok [ct_table_name s]" "names_ok (map col_name (ct_columns s))"
    using assms by (simp_all add: create_ok_def names_ok_def)
  have "list_all word_ok (comma_list (map column_words (ct_columns s)))"
    using n(2) names_ok_set [of "map col_name (ct_columns s)"] by (intro comma_map_ok column_words_ok) simp
  with n show ?thesis by (simp add: CreateTable keyword_words_ok word_ok_name)
next
  case (DropTable s)
  then show ?thesis using assms by (simp add: keyword_words_ok word_ok_name)
next
  case (Insert s)
  then have "names_ok [ins_table_name s]" "names_ok (ins_columns s)" "literals_ok lit (ins_values s)"
    using assms by (simp_all add: names_ok_def)
  then show ?thesis by (simp add: Insert keyword_words_ok word_ok_name name_list_ok value_list_ok)
next
  case (Select s)
  have "word_ok (INTEGER_LIT, int_to_string (sel_limit s))"
    using integer_lexeme_print by (simp add: word_ok_def word_text_def lexeme_def)
  moreover have "names_ok [sel_table_name s]" "names_ok (sel_columns s)" "where_ok lit (sel_where s)"
    "names_ok (map cond_column (conditions (sel_where s)))" "sel_order_by s \<noteq> [] \<Longrightarrow> names_ok [sel_order_by s]"
    using assms Select by (simp_all add: select_ok_def names_ok_def)
  ultimately show ?thesis
    by (simp add: Select keyword_words_ok word_ok_name name_list_ok where_words_ok order_words_def limit_words_def)
next
  case (Update s)
  have "names_ok [upd_table_name s]" "names_ok (map asg_column (upd_assignments s))"
    "names_ok (map cond_column (conditions (upd_where s)))" "literals_ok lit (map asg_value (upd_assignments s))"
    "where_ok lit (upd_where s)"
    using assms Update by (simp_all add: names_ok_def)
  then show ?thesis by (simp add: Update keyword_words_ok word_ok_name assignment_list_ok where_words_ok)
next
  case (Delete s)
  have "names_ok [del_table_name s]" "names_ok (map cond_column (conditions (del_where s)))" "where_ok lit (del_where s)"
    using assms Delete by (simp_all add: names_ok_def)
  then show ?thesis by (simp add: Delete keyword_words_ok word_ok_name where_words_ok)
next
  case ShowTables
  then show ?thesis by (simp add: keyword_words_ok)
next
  case (Describe n)
  then show ?thesis using assms by (simp add: keyword_words_ok word_ok_name)
qed

section \<open>Properties of the parser\<close>

text \<open>
  C10: every statement reads back from its text: whatever literals are chosen for its values, parsing the text
  of a statement gives the statement, and it stays the same when a semicolon and any other
  tokens follow (which the parser therefore ignores).
\<close>

theorem sql_roundtrip:
  assumes "statement_ok lit stmt" "rest = [] \<or> fst (hd rest) = SEMICOLON" "list_all word_ok rest"
  shows "sql_parse (words_text (statement_words lit stmt @ rest)) = Inr stmt"
proof (rule sql_parse_words)
  show "list_all word_ok (statement_words lit stmt @ rest)" using assms by (simp add: statement_words_ok)
  show "reads parse_statement (statement_words lit stmt) stmt clause_words" by (rule reads_statement [OF assms(1)])
  show "next_type rest \<notin> clause_words" using assms(2) by (cases rest) (auto simp: clause_words_def)
qed

text \<open>The usual literals of values other than doubles.\<close>

definition std_literal :: "Value \<Rightarrow> word_tok" where
  "std_literal v =
     (if is_null v then (KW_NULL, ''NULL'')
      else case v_type v of
        CtINT \<Rightarrow> (INTEGER_LIT, int_to_string (sint (int_val v)))
      | CtBOOL \<Rightarrow> if bool_val v then (KW_TRUE, ''TRUE'') else (KW_FALSE, ''FALSE'')
      | _ \<Rightarrow> (STRING_LIT, text_val v))"

lemma std_literal_ok:
  "literal_ok (std_literal (make_int i)) (make_int i)" "literal_ok (std_literal (make_text t)) (make_text t)"
  "literal_ok (std_literal (make_bool b)) (make_bool b)" "literal_ok (std_literal (make_null CtTEXT)) (make_null CtTEXT)"
  by (simp_all add: std_literal_def literal_ok_def value_makers integer_lexeme_print stoll_print)

theorem sql_roundtrip_witness:
  "\<exists>q. sql_parse (''INSERT INTO t VALUES ( -7 , '' @ q @ '' , NULL ) ; DROP '') =
     Inr (Insert \<lparr>ins_table_name = ''t'', ins_columns = [], ins_values = [make_int (-7), make_text [CHR 0x27], make_null CtTEXT]\<rparr>)"
proof -
  let ?s = "Insert \<lparr>ins_table_name = ''t'', ins_columns = [], ins_values = [make_int (-7), make_text [CHR 0x27], make_null CtTEXT]\<rparr>"
  let ?rest = "[(SEMICOLON, '';''), (KW_DROP, ''DROP'')]"
  have "names_ok [''t'']" by code_simp
  then have "statement_ok std_literal ?s" by (simp add: literals_ok_def std_literal_ok)
  moreover have "list_all word_ok ?rest" by code_simp
  moreover have "int_to_string (sint (-7 :: u64)) = ''-7''" by code_simp
  ultimately show ?thesis
    using sql_roundtrip [of std_literal ?s ?rest]
    by (intro exI [of _ "quoted (CHR 0x27) [CHR 0x27]"]) (simp add: words_text_def word_text_def std_literal_def value_makers)
qed

end
