(* ===== verification/Server_Instances.thy ===== *)
theory Server_Instances
  imports Executor_Witnesses Server_Correct Parser_Correct
begin

text \<open>
  An SQL text over the network, from the bytes of the request to the decoded answer, on a table with two rows whose order by the
  second column is not that of their keys.
\<close>

section \<open>Executing the text of a statement\<close>

lemma execute_text:
  assumes "statement_ok lit stmt"
  shows "execute_sql std_sort c (words_text (statement_words lit stmt)) = execute std_sort c stmt"
proof -
  have "sql_parse (words_text (statement_words lit stmt @ [])) = Inr stmt"
  proof (rule sql_parse_words)
    show "list_all word_ok (statement_words lit stmt @ [])" using assms by (simp add: statement_words_ok)
    show "reads parse_statement (statement_words lit stmt) stmt clause_words" by (rule reads_statement [OF assms])
    show "next_type [] \<notin> clause_words" by (simp add: clause_words_def)
  qed
  then show ?thesis by (simp add: execute_sql_def)
qed

section \<open>A table with two rows\<close>

definition ex_row2 :: "Value list" where
  "ex_row2 = [make_int 3, make_text ''b'']"

lemma ex_key2: "format_pk (make_int 3) = ''0000000003''"
  by code_simp

lemma ex_row2_ok: "row_ok ex_schema ex_row2"
  by (simp add: row_ok_def ex_row2_def value_ok_def known_type_def value_makers)

lemma ex_fits2: "small_entry (row_key ''t'' ''0000000003'', Some (row_serialize ex_schema ex_row2))"
  by (simp add: small_entry_def key_defs row_serialize_def ex_row2_def value_bytes_def value_makers)

lemma ex_two_rows:
  obtains c where "table_ok 700 c ex_schema" "table_list c ex_schema = [(''0000000003'', ex_row2), (''0000000005'', ex_row)]"
proof -
  obtain c0 where c0: "table_ok 800 c0 ex_schema" "table_map c0 ex_schema = [''0000000005'' \<mapsto> ex_row]" by (rule ex_one_row)
  have c1: "table_ok (Suc 700) c0 ex_schema" by (rule table_ok_mono [OF c0(1)]) simp
  have "view (cat_engine c0) (row_key ''t'' ''0000000003'') = None"
  proof (rule ccontr)
    assume "view (cat_engine c0) (row_key ''t'' ''0000000003'') \<noteq> None"
    then obtain row where "view (cat_engine c0) (row_key ''t'' ''0000000003'') = Some (row_serialize ex_schema row)" "row_ok ex_schema row"
      using c0(1) by (auto simp: table_ok_def)
    then have "table_map c0 ex_schema ''0000000003'' \<noteq> None"
      using row_decode table_ok_schema [OF c0(1)] by (simp add: table_map_def)
    then show False by (simp add: c0(2))
  qed
  then obtain c where c: "view (cat_engine c) = (view (cat_engine c0))(row_key ''t'' ''0000000003'' \<mapsto> row_serialize ex_schema ex_row2)"
    "table_ok 700 c ex_schema"
    using store_row_ok(2) [OF c1 ex_row2_ok, of "make_int 3"] ex_fits2 by (auto simp: ex_key2)
  have "row_deserialize ex_schema (row_serialize ex_schema ex_row2) = Some ex_row2"
    using row_decode [OF _ ex_row2_ok] table_ok_schema [OF c(2)] by simp
  then have "table_map c ex_schema = (table_map c0 ex_schema)(''0000000003'' \<mapsto> ex_row2)"
    using table_map_put [of c c0 ex_schema "''0000000003''" ex_row2] c(1) by simp
  then have "scan_map c ex_schema = [''0000000005'' \<mapsto> ex_row, ''0000000003'' \<mapsto> ex_row2]"
    by (auto simp: scan_map_def c0(2) fun_eq_iff less_eq_list_code)
  then have "table_list c ex_schema = [(''0000000003'', ex_row2), (''0000000005'', ex_row)]"
    using table_list_map [OF c(2)] by (intro smap_eqI) (auto simp: smap_wf_Cons fun_eq_iff)
  then show ?thesis using that c(2) by blast
qed

section \<open>A sorted answer\<close>

definition ex_sorted :: SelectStmt where
  "ex_sorted = \<lparr>sel_table_name = ''t'', sel_columns = [''x''], sel_all = False, sel_where = no_where,
     sel_order_by = ''x'', sel_order_desc = False, sel_limit = -1\<rparr>"

lemma ex_sorted_run:
  assumes "table_ok n c ex_schema" "table_list c ex_schema = [(''0000000003'', ex_row2), (''0000000005'', ex_row)]"
  shows "execute_sql isort c ''SELECT x FROM t ORDER BY x '' =
    Some (\<lparr>qr_status = OK, qr_message = ''2 row(s) returned.'', qr_column_names = [''x''], qr_rows = [[make_text ''a''], [make_text ''b'']]\<rparr>, c)"
proof -
  have sql: "words_text (statement_words std_literal (Select ex_sorted)) = ''SELECT x FROM t ORDER BY x ''" by code_simp
  have "names_ok [''t'', ''x'']" by code_simp
  then have "statement_ok std_literal (Select ex_sorted)" by (simp add: ex_sorted_def select_ok_def where_ok_def no_where_def names_ok_def)
  note run = execute_text [OF this, unfolded sql]
  have s: "sel_names ex_schema ex_sorted = [''x'']" "\<not> all_columns ex_sorted" "sel_columns ex_sorted = [''x'']" "sel_where ex_sorted = no_where"
    "sel_table_name ex_sorted = table_name ex_schema"
    by (simp_all add: ex_sorted_def sel_names_def all_columns_def)
  have w: "safe_where no_where" "hits no_where ex_schema row" for row by (simp_all add: safe_where_def hits_def evaluate_where_def no_where_def)
  have a: "asked_rows c ex_schema ex_sorted = [[make_text ''b''], [make_text ''a'']]"
    using w(2) s by (simp add: asked_rows_def assms(2) sel_indices_def ex_row_def ex_row2_def)
  have "finish_select isort ex_sorted [''x''] [[make_text ''b''], [make_text ''a'']] = Some \<lparr>qr_status = OK, qr_message = ''2 row(s) returned.'',
      qr_column_names = [''x''], qr_rows = [[make_text ''a''], [make_text ''b'']]\<rparr>"
    by code_simp
  then have "exec_select isort c ex_sorted = Some (\<lparr>qr_status = OK, qr_message = ''2 row(s) returned.'', qr_column_names = [''x''],
      qr_rows = [[make_text ''a''], [make_text ''b'']]\<rparr>, c)"
    using exec_select_run [OF assms(1) s(5), of isort] w(1) s a by simp
  then show ?thesis by (simp add: run execute_def)
qed

theorem server_sql_answer_witness:
  "\<exists>c s'. handle_client isort c (ex_conn (request_bytes PROTO_SQL ''SELECT x FROM t ORDER BY x '' [])) = Some (c, s')
     \<and> client_sql (outbox s') = Some (\<lparr>ans_ok = True, ans_message = ''2 row(s) returned.'', ans_columns = [''x''], ans_rows = [[''a''], [''b'']]\<rparr>, [])"
proof -
  obtain c where c: "table_ok 700 c ex_schema" "table_list c ex_schema = [(''0000000003'', ex_row2), (''0000000005'', ex_row)]"
    by (rule ex_two_rows)
  let ?r = "\<lparr>qr_status = OK, qr_message = ''2 row(s) returned.'', qr_column_names = [''x''], qr_rows = [[make_text ''a''], [make_text ''b'']]\<rparr>"
  have t: "value_to_string (make_text u) = u" for u by (simp add: value_to_string_def value_makers)
  have "length (sql_response ?r) < 2 ^ 31" by (simp add: sql_response_def sized_def t)
  then show ?thesis
    using server_sql_answer [OF ex_sorted_run [OF c] isort_ok, of "ex_conn (request_bytes PROTO_SQL ''SELECT x FROM t ORDER BY x '' [])"] t
    by (intro exI [of _ c]) (simp add: wire_size_def is_error_def)
qed

end
