(* ===== verification/Server_Threads.thy ===== *)
theory Server_Threads
  imports Server_Correct
begin

text \<open>
  Several clients of one server (\<open>accept_loop\<close> and the threads it starts in \<open>src/network/server.cpp\<close>). The threads share the
  catalog; a schedule says which client connects and which thread takes its next turn. A turn is one iteration of
  the loop of \<open>handle_client\<close>, so requests of different clients alternate but do not overlap: the engine takes its lock for writes
  only and the catalog has none, and what overlapping requests do is undefined in C++ where they race.
\<close>

section \<open>Threads and schedules\<close>

record ClientThread =
  cl_conn :: Conn
  cl_open :: bool

record ServerState =
  srv_db :: Catalog
  srv_clients :: "ClientThread list"

text \<open>What \<open>accept\<close> returns: no socket, and the loop goes on, or the connection that a new thread serves.\<close>

definition accept_client :: "Conn option \<Rightarrow> ServerState \<Rightarrow> ServerState" where
  "accept_client r S =
     (case r of
        None \<Rightarrow> S
      | Some s \<Rightarrow> S\<lparr>srv_clients := srv_clients S @ [\<lparr>cl_conn = s, cl_open = True\<rparr>]\<rparr>)"

text \<open>One turn of the thread of client \<open>i\<close>; a thread that has left its loop takes no more turns.\<close>

definition client_turn :: "sorter \<Rightarrow> nat \<Rightarrow> ServerState \<Rightarrow> ServerState option" where
  "client_turn std_sort i S =
     (if length (srv_clients S) \<le> i \<or> \<not> cl_open (srv_clients S ! i) then Some S
      else case is_running (cl_conn (srv_clients S ! i)) of
        (False, s1) \<Rightarrow> Some (S\<lparr>srv_clients := (srv_clients S)[i := \<lparr>cl_conn = s1, cl_open = False\<rparr>]\<rparr>)
      | (True, s1) \<Rightarrow>
          (case serve_one std_sort (srv_db S) s1 of
             None \<Rightarrow> None
           | Some (goes_on, db, s2) \<Rightarrow>
               Some \<lparr>srv_db = db, srv_clients = (srv_clients S)[i := \<lparr>cl_conn = s2, cl_open = goes_on\<rparr>]\<rparr>))"

text \<open>A client that connects with the requests it will send and the behaviour of its network, or a turn of a thread.\<close>

datatype event = Connect "kv_request list" "io_answer list" | Turn nat

definition new_conn :: "kv_request list \<Rightarrow> io_answer list \<Rightarrow> Conn" where
  "new_conn rs ans = \<lparr>inbox = concat (map wire rs), outbox = [], net = ans, runs = []\<rparr>"

fun run_events :: "sorter \<Rightarrow> event list \<Rightarrow> ServerState \<Rightarrow> ServerState option" where
  "run_events std_sort [] S = Some S"
| "run_events std_sort (Connect rs ans # evs) S = run_events std_sort evs (accept_client (Some (new_conn rs ans)) S)"
| "run_events std_sort (Turn i # evs) S = Option.bind (client_turn std_sort i S) (run_events std_sort evs)"

text \<open>One thread alone does what \<open>handle_client\<close> does.\<close>

lemma turns_handle_client:
  assumes "handle_client std_sort c s = Some (c', s')"
  shows "\<exists>n. run_events std_sort (replicate n (Turn 0)) \<lparr>srv_db = c, srv_clients = [\<lparr>cl_conn = s, cl_open = True\<rparr>]\<rparr>
    = Some \<lparr>srv_db = c', srv_clients = [\<lparr>cl_conn = s', cl_open = False\<rparr>]\<rparr>"
  using assms
proof (induction std_sort c s rule: handle_client.induct)
  case (1 std_sort c s)
  obtain b s1 where r: "is_running s = (b, s1)" by fastforce
  show ?case
  proof (cases b)
    case False
    then show ?thesis using "1.prems" r
      by (intro exI [of _ 1]) (simp add: handle_client.simps [of std_sort c s] client_turn_def)
  next
    case True
    then obtain g c2 s2 where o: "serve_one std_sort c s1 = Some (g, c2, s2)"
      using "1.prems" r by (auto simp: handle_client.simps [of std_sort c s] split: option.splits)
    show ?thesis
    proof (cases g)
      case g: True
      then have "handle_client std_sort c2 s2 = Some (c', s')"
        using "1.prems" r True o by (simp add: handle_client.simps [of std_sort c s])
      then obtain n where "run_events std_sort (replicate n (Turn 0)) \<lparr>srv_db = c2, srv_clients = [\<lparr>cl_conn = s2, cl_open = True\<rparr>]\<rparr>
          = Some \<lparr>srv_db = c', srv_clients = [\<lparr>cl_conn = s', cl_open = False\<rparr>]\<rparr>"
        using "1.IH" [of True s1 "(g, c2, s2)" g "(c2, s2)" c2 s2] r True o g by auto
      then show ?thesis using r True o g by (intro exI [of _ "Suc n"]) (simp add: client_turn_def)
    next
      case g: False
      then show ?thesis using "1.prems" r True o
        by (intro exI [of _ 1]) (simp add: handle_client.simps [of std_sort c s] client_turn_def)
    qed
  qed
qed

section \<open>The order of the requests\<close>

text \<open>
  The requests that a schedule executes, in its order, each with its client and the map it meets; the requests that every
  client has still to send; and the map at the end.
\<close>

fun linear :: "event list \<Rightarrow> kv_request list list \<Rightarrow> (string \<rightharpoonup> string) \<Rightarrow> (nat \<times> kv_request \<times> (string \<rightharpoonup> string)) list" where
  "linear [] p m = []"
| "linear (Connect rs ans # evs) p m = linear evs (p @ [rs]) m"
| "linear (Turn i # evs) p m =
     (if i < length p \<and> p ! i \<noteq> []
      then (i, hd (p ! i), m) # linear evs (p[i := tl (p ! i)]) (map_step (hd (p ! i)) m)
      else linear evs p m)"

fun pending :: "event list \<Rightarrow> kv_request list list \<Rightarrow> kv_request list list" where
  "pending [] p = p"
| "pending (Connect rs ans # evs) p = pending evs (p @ [rs])"
| "pending (Turn i # evs) p = pending evs (if i < length p then p[i := tl (p ! i)] else p)"

definition of_client :: "nat \<Rightarrow> (nat \<times> 'a) list \<Rightarrow> 'a list" where
  "of_client i h = map snd (filter (\<lambda>x. fst x = i) h)"

fun nets_live :: "event list \<Rightarrow> bool" where
  "nets_live [] \<longleftrightarrow> True"
| "nets_live (Connect rs ans # evs) \<longleftrightarrow> live_net (new_conn rs ans) \<and> nets_live evs"
| "nets_live (Turn i # evs) \<longleftrightarrow> nets_live evs"

lemma of_client_simps [simp]:
  "of_client i [] = []" "of_client i ((j, x) # h) = (if j = i then x # of_client i h else of_client i h)"
  "of_client i (h @ h') = of_client i h @ of_client i h'"
  by (simp_all add: of_client_def)

lemma read_answers_append:
  "read_answers (rs @ qs) strm = do { (as, p) \<leftarrow> read_answers rs strm; (bs, q) \<leftarrow> read_answers qs p; Some (as @ bs, q) }"
  by (induction rs arbitrary: strm) (auto simp: bind_assoc split: prod.splits Option.bind_splits)

section \<open>The simulation\<close>

text \<open>A thread that has answered the requests \<open>h\<close> of its client, each from the map beside it, and has \<open>rs\<close> left.\<close>

definition thread_ok :: "ClientThread \<Rightarrow> kv_request list \<Rightarrow> (kv_request \<times> (string \<rightharpoonup> string)) list \<Rightarrow> bool" where
  "thread_ok k rs h \<longleftrightarrow> (cl_open k \<longrightarrow> live_net (cl_conn k) \<and> runs (cl_conn k) = [] \<and> inbox (cl_conn k) = concat (map wire rs))
     \<and> (\<not> cl_open k \<longrightarrow> rs = [])
     \<and> (\<exists>as. (\<forall>rest. read_answers (map fst h) (outbox (cl_conn k) @ rest) = Some (as, rest))
          \<and> list_all2 (\<lambda>(r, m) a. map_answer r m a) h as)"

definition server_sim :: "nat \<Rightarrow> ServerState \<Rightarrow> kv_request list list \<Rightarrow> (string \<rightharpoonup> string) \<Rightarrow> (nat \<times> kv_request \<times> (string \<rightharpoonup> string)) list \<Rightarrow> bool" where
  "server_sim n S p m h \<longleftrightarrow> engine_ok n (cat_engine (srv_db S)) \<and> view (cat_engine (srv_db S)) = m
     \<and> length (srv_clients S) = length p \<and> (\<forall>i < length p. thread_ok (srv_clients S ! i) (p ! i) (of_client i h))
     \<and> (\<forall>x \<in> set h. fst x < length p)"

lemma thread_ok_new: "live_net (new_conn rs ans) \<Longrightarrow> thread_ok \<lparr>cl_conn = new_conn rs ans, cl_open = True\<rparr> rs []"
  by (simp add: thread_ok_def new_conn_def)

lemma of_client_unused: "\<forall>x \<in> set h. fst x < n \<Longrightarrow> of_client n h = []"
  by (auto simp: of_client_def filter_empty_conv)

lemma sim_connect:
  assumes "server_sim n S p m h" "live_net (new_conn rs ans)"
  shows "server_sim n (accept_client (Some (new_conn rs ans)) S) (p @ [rs]) m h"
  using assms thread_ok_new [OF assms(2)] of_client_unused [of h "length p"]
  by (auto simp: server_sim_def accept_client_def nth_append less_Suc_eq)

text \<open>A turn of a thread whose client has a request left, and of one whose client has none.\<close>

lemma thread_answers:
  assumes "engine_ok (Suc n) (cat_engine c)" "request_fits r (view (cat_engine c))"
    and k: "thread_ok k (r # rs) h" "cl_open k"
  shows "\<exists>c' s'. serve_one std_sort c (cl_conn k) = Some (True, c', s') \<and> engine_ok n (cat_engine c')
    \<and> view (cat_engine c') = map_step r (view (cat_engine c)) \<and> thread_ok \<lparr>cl_conn = s', cl_open = True\<rparr> rs (h @ [(r, view (cat_engine c))])"
proof -
  obtain t x v st y c' a where d: "wire r = request_bytes t x v" "wire_size x v" "dispatch std_sort c t x v = Some (st, y, c')" "length y < 2 ^ 31"
    "engine_ok n (cat_engine c')" "view (cat_engine c') = map_step r (view (cat_engine c))"
    "\<forall>rest. read_answer r (response_bytes st y @ rest) = Some (a, rest)" "map_answer r (view (cat_engine c)) a"
    using kv_dispatch [OF assms(1,2), of std_sort] by auto
  have l: "live_net (cl_conn k)" "runs (cl_conn k) = []" "inbox (cl_conn k) = request_bytes t x v @ concat (map wire rs)"
    using k d(1) by (simp_all add: thread_ok_def)
  obtain as where as: "\<forall>rest. read_answers (map fst h) (outbox (cl_conn k) @ rest) = Some (as, rest)" "list_all2 (\<lambda>(r, m) a. map_answer r m a) h as"
    using k(1) by (auto simp: thread_ok_def)
  obtain s' where s': "serve_one std_sort c (cl_conn k) = Some (True, c', s')" "inbox s' = concat (map wire rs)"
    "outbox s' = outbox (cl_conn k) @ response_bytes st y" "runs s' = []" "live_net s'"
    using serve_one_live [OF l(1,3) d(2-4)] l(2) by auto
  have "thread_ok \<lparr>cl_conn = s', cl_open = True\<rparr> rs (h @ [(r, view (cat_engine c))])"
    using s'(2-5) as d(7,8) list_all2_appendI [OF as(2), of "[(r, view (cat_engine c))]" "[a]"] unfolding thread_ok_def
    by (auto simp: read_answers_append intro!: exI [of _ "as @ [a]"])
  then show ?thesis using s'(1) d(5,6) by blast
qed

lemma thread_leaves:
  assumes "thread_ok k [] h" "cl_open k"
  shows "\<exists>s'. serve_one std_sort c (cl_conn k) = Some (False, c, s') \<and> thread_ok \<lparr>cl_conn = s', cl_open = False\<rparr> [] h"
proof -
  have "live_net (cl_conn k)" "strict_prefix (inbox (cl_conn k)) (request_bytes PROTO_PUT [] [])"
    using assms by (simp_all add: thread_ok_def request_bytes_def)
  then obtain s' where "read_request (cl_conn k) = (None, s')" "outbox s' = outbox (cl_conn k)"
    using read_request_torn [of "cl_conn k" PROTO_PUT "[]" "[]"] by auto
  then show ?thesis using assms by (auto simp: serve_one_def thread_ok_def)
qed

lemma sim_turn:
  assumes sim: "server_sim (Suc n) S p m h" and fits: "i < length p \<Longrightarrow> p ! i \<noteq> [] \<Longrightarrow> request_fits (hd (p ! i)) m"
  shows "\<exists>S'. client_turn std_sort i S = Some S'
    \<and> server_sim n S' (if i < length p then p[i := tl (p ! i)] else p)
        (if i < length p \<and> p ! i \<noteq> [] then map_step (hd (p ! i)) m else m)
        (if i < length p \<and> p ! i \<noteq> [] then h @ [(i, hd (p ! i), m)] else h)
    \<and> (\<forall>j. j < length p \<longrightarrow> \<not> cl_open (srv_clients S ! j) \<or> j = i \<and> p ! j = [] \<longrightarrow> \<not> cl_open (srv_clients S' ! j))"
proof -
  have e: "engine_ok (Suc n) (cat_engine (srv_db S))" "engine_ok n (cat_engine (srv_db S))" "view (cat_engine (srv_db S)) = m"
    and len: "length (srv_clients S) = length p" and k: "\<And>j. j < length p \<Longrightarrow> thread_ok (srv_clients S ! j) (p ! j) (of_client j h)"
    and h: "\<forall>x \<in> set h. fst x < length p"
    using sim engine_ok_mono [of "Suc n" _ n] by (auto simp: server_sim_def)
  consider (none) "length p \<le> i \<or> \<not> cl_open (srv_clients S ! i)" | (last) "i < length p" "cl_open (srv_clients S ! i)" "p ! i = []"
    | (more) r rs where "i < length p" "cl_open (srv_clients S ! i)" "p ! i = r # rs"
    by (meson list.exhaust not_le)
  then show ?thesis
  proof cases
    case none
    then have "client_turn std_sort i S = Some S" "i < length p \<Longrightarrow> p ! i = []"
      using k [of i] len by (auto simp: client_turn_def thread_ok_def)
    moreover from this(2) have "(if i < length p then p[i := tl (p ! i)] else p) = p" by (auto simp: list_update_same_conv)
    ultimately show ?thesis using none e h len k by (auto simp: server_sim_def)
  next
    case last
    then obtain s' where "serve_one std_sort (srv_db S) (cl_conn (srv_clients S ! i)) = Some (False, srv_db S, s')"
      "thread_ok \<lparr>cl_conn = s', cl_open = False\<rparr> [] (of_client i h)"
      using thread_leaves [of "srv_clients S ! i"] k [of i] by fastforce
    moreover have "p[i := tl (p ! i)] = p" using last by (simp add: list_update_same_conv)
    moreover have "is_running (cl_conn (srv_clients S ! i)) = (True, cl_conn (srv_clients S ! i))"
      using k [of i] last by (simp add: thread_ok_def is_running_def)
    ultimately show ?thesis using last e h len k by (auto simp: client_turn_def server_sim_def nth_list_update)
  next
    case (more r rs)
    then obtain c' s' where "serve_one std_sort (srv_db S) (cl_conn (srv_clients S ! i)) = Some (True, c', s')" "engine_ok n (cat_engine c')"
      "view (cat_engine c') = map_step r m" "thread_ok \<lparr>cl_conn = s', cl_open = True\<rparr> rs (of_client i h @ [(r, m)])"
      using thread_answers [OF e(1), of r "srv_clients S ! i" rs "of_client i h" std_sort] k [of i] fits e(3) by fastforce
    moreover have "is_running (cl_conn (srv_clients S ! i)) = (True, cl_conn (srv_clients S ! i))"
      using k [of i] more by (simp add: thread_ok_def is_running_def)
    ultimately show ?thesis using more e h len k by (auto simp: client_turn_def server_sim_def nth_list_update)
  qed
qed

definition last_map :: "(nat \<times> kv_request \<times> (string \<rightharpoonup> string)) list \<Rightarrow> (string \<rightharpoonup> string) \<Rightarrow> (string \<rightharpoonup> string)" where
  "last_map h m = fold (\<lambda>(i, r, m'). map_step r) h m"

lemma linear_turn:
  "linear (Turn i # evs) p m = (if i < length p \<and> p ! i \<noteq> [] then [(i, hd (p ! i), m)] else [])
     @ linear evs (if i < length p then p[i := tl (p ! i)] else p) (if i < length p \<and> p ! i \<noteq> [] then map_step (hd (p ! i)) m else m)"
proof -
  have "p[i := []] = p" if "p ! i = []" using list_update_id [of p i] that by simp
  then show ?thesis by auto
qed

lemma sim_events:
  assumes "server_sim (length evs + n) S p m h" "nets_live evs" "\<forall>(i, r, m') \<in> set (linear evs p m). request_fits r m'"
  shows "\<exists>S'. run_events std_sort evs S = Some S' \<and> server_sim n S' (pending evs p) (last_map (linear evs p m) m) (h @ linear evs p m)"
  using assms
proof (induction evs arbitrary: S p m h)
  case Nil
  then show ?case by (simp add: last_map_def)
next
  case (Cons ev evs)
  show ?case
  proof (cases ev)
    case (Connect rs ans)
    have "server_sim (length evs + n) S p m h"
      using Cons.prems(1) engine_ok_mono [of "Suc (length evs + n)" _ "length evs + n"] by (auto simp: server_sim_def)
    then have "server_sim (length evs + n) (accept_client (Some (new_conn rs ans)) S) (p @ [rs]) m h"
      using sim_connect Cons.prems(2) Connect by simp
    then show ?thesis using Cons.IH [of "accept_client (Some (new_conn rs ans)) S" "p @ [rs]" m h] Cons.prems Connect by simp
  next
    case (Turn i)
    let ?p = "if i < length p then p[i := tl (p ! i)] else p"
    let ?m = "if i < length p \<and> p ! i \<noteq> [] then map_step (hd (p ! i)) m else m"
    let ?h = "if i < length p \<and> p ! i \<noteq> [] then h @ [(i, hd (p ! i), m)] else h"
    note l = linear_turn [of i evs p m, folded Turn]
    have "request_fits (hd (p ! i)) m" if "i < length p" "p ! i \<noteq> []" using Cons.prems(3) that unfolding l by simp
    moreover have "server_sim (Suc (length evs + n)) S p m h" using Cons.prems(1) by simp
    ultimately obtain S1 where S1: "client_turn std_sort i S = Some S1" "server_sim (length evs + n) S1 ?p ?m ?h"
      using sim_turn [of "length evs + n" S p m h i std_sort] by blast
    have "\<forall>(i, r, m') \<in> set (linear evs ?p ?m). request_fits r m'" using Cons.prems(3) unfolding l by auto
    then obtain S' where "run_events std_sort evs S1 = Some S'" "server_sim n S' (pending evs ?p) (last_map (linear evs ?p ?m) ?m) (?h @ linear evs ?p ?m)"
      using Cons.IH [OF S1(2)] Cons.prems(2) Turn by auto
    moreover have "?h @ linear evs ?p ?m = h @ linear (ev # evs) p m" "last_map (linear evs ?p ?m) ?m = last_map (linear (ev # evs) p m) m"
      unfolding l by (simp_all add: last_map_def)
    ultimately show ?thesis using S1(1) Turn by simp
  qed
qed

lemma sim_start: "engine_ok n (cat_engine c) \<Longrightarrow> server_sim n \<lparr>srv_db = c, srv_clients = []\<rparr> [] (view (cat_engine c)) []"
  by (simp add: server_sim_def)

text \<open>A thread that gets more turns than its client has requests has left its loop.\<close>

lemma turns_close:
  assumes "server_sim (length evs + n) S p m h" "list_all (\<lambda>ev. \<exists>i. ev = Turn i) evs"
    and "\<forall>(i, r, m') \<in> set (linear evs p m). request_fits r m'" "run_events std_sort evs S = Some S'"
    and "i < length p" "\<not> cl_open (srv_clients S ! i) \<or> length (p ! i) < count_list evs (Turn i)"
  shows "\<not> cl_open (srv_clients S' ! i) \<and> pending evs p ! i = []"
  using assms
proof (induction evs arbitrary: S p m h)
  case Nil
  then show ?case by (auto simp: server_sim_def thread_ok_def)
next
  case (Cons ev evs)
  then obtain k where ev: "ev = Turn k" by auto
  let ?p = "if k < length p then p[k := tl (p ! k)] else p"
  let ?m = "if k < length p \<and> p ! k \<noteq> [] then map_step (hd (p ! k)) m else m"
  let ?h = "if k < length p \<and> p ! k \<noteq> [] then h @ [(k, hd (p ! k), m)] else h"
  note l = linear_turn [of k evs p m, folded ev]
  have "request_fits (hd (p ! k)) m" if "k < length p" "p ! k \<noteq> []" using Cons.prems(3) that unfolding l by simp
  moreover have "server_sim (Suc (length evs + n)) S p m h" using Cons.prems(1) by simp
  ultimately obtain S1 where S1: "client_turn std_sort k S = Some S1" "server_sim (length evs + n) S1 ?p ?m ?h"
    "\<forall>j. j < length p \<longrightarrow> \<not> cl_open (srv_clients S ! j) \<or> j = k \<and> p ! j = [] \<longrightarrow> \<not> cl_open (srv_clients S1 ! j)"
    using sim_turn [of "length evs + n" S p m h k std_sort] by blast
  have run: "run_events std_sort evs S1 = Some S'" using Cons.prems(4) ev S1(1) by simp
  have "\<not> cl_open (srv_clients S1 ! i) \<or> length (?p ! i) < count_list evs (Turn i)"
    using Cons.prems(5,6) S1(3) ev by (cases "p ! i") (auto simp: nth_list_update split: if_splits)
  then show ?case
    using Cons.IH [OF S1(2) _ _ run] Cons.prems(2,3,5) ev unfolding l by auto
qed

text \<open>Schedules one after the other, and the requests that the clients of a schedule come with.\<close>

lemma run_events_append: "run_events std_sort (evs @ evs') S = Option.bind (run_events std_sort evs S) (run_events std_sort evs')"
  by (induction std_sort evs S rule: run_events.induct) (auto simp: bind_assoc intro: Option.bind_cong)

lemma linear_append:
  "linear (evs @ evs') p m = linear evs p m @ linear evs' (pending evs p) (last_map (linear evs p m) m)"
proof (induction evs p m rule: linear.induct)
  case (3 i evs p m)
  have "p[i := []] = p" if "p ! i = []" using list_update_id [of p i] that by simp
  then show ?case using 3 by (auto simp: last_map_def)
qed (simp_all add: last_map_def)

lemma nets_live_turns: "list_all (\<lambda>ev. \<exists>i. ev = Turn i) evs \<Longrightarrow> nets_live evs"
  by (induction evs) auto

fun connected :: "event list \<Rightarrow> kv_request list list" where
  "connected [] = []"
| "connected (Connect rs ans # evs) = rs # connected evs"
| "connected (Turn i # evs) = connected evs"

lemma length_pending: "length (pending evs p) = length p + length (connected evs)"
  by (induction evs p rule: pending.induct) auto

lemma answered_and_pending:
  "i < length p + length (connected evs) \<Longrightarrow>
   map fst (of_client i (linear evs p m)) @ pending evs p ! i = (p @ connected evs) ! i"
proof (induction evs p m rule: linear.induct)
  case (3 k evs p m)
  have id: "p[k := []] = p" if "p ! k = []" using list_update_id [of p k] that by simp
  show ?case
  proof (cases "k < length p \<and> p ! k \<noteq> []")
    case True
    then show ?thesis using "3.IH"(1) "3.prems" by (cases "i = k") (auto simp: nth_append nth_list_update)
  next
    case False
    then show ?thesis using "3.IH"(2) "3.prems" id by auto
  qed
qed (simp_all add: nth_append)

lemma connected_turns: "list_all (\<lambda>ev. \<exists>i. ev = Turn i) evs \<Longrightarrow> connected evs = []"
  by (induction evs) auto

lemma connected_append: "connected (evs @ evs') = connected evs @ connected evs'"
  by (induction evs rule: connected.induct) auto

lemma pending_append: "pending (evs @ evs') p = pending evs' (pending evs p)"
  by (induction evs p rule: pending.induct) auto

section \<open>Properties of the threads\<close>

text \<open>
  C15: clients that are served by turns see one order of all requests. Clients connect at any time, each with its own requests and its
  own network that cuts the streams anywhere, and the threads take turns in any order. Then no turn fails; every
  client can decode what was sent to it so far as exactly one answer per request of its own that had its turn, each the answer of
  the map that all requests of all clients before it in the order of the turns built; and the engine holds the
  map after the last of them.
\<close>

theorem clients_share_one_map:
  assumes "engine_ok (length evs + n) (cat_engine c)" "nets_live evs"
    and "\<forall>(i, r, m) \<in> set (linear evs [] (view (cat_engine c))). request_fits r m"
  shows "\<exists>S. run_events std_sort evs \<lparr>srv_db = c, srv_clients = []\<rparr> = Some S \<and> engine_ok n (cat_engine (srv_db S))
    \<and> length (srv_clients S) = length (connected evs)
    \<and> view (cat_engine (srv_db S)) = last_map (linear evs [] (view (cat_engine c))) (view (cat_engine c))
    \<and> (\<forall>i < length (srv_clients S). \<exists>as.
         read_answers (map fst (of_client i (linear evs [] (view (cat_engine c))))) (outbox (cl_conn (srv_clients S ! i))) = Some (as, [])
       \<and> list_all2 (\<lambda>(r, m) a. map_answer r m a) (of_client i (linear evs [] (view (cat_engine c)))) as)"
proof -
  let ?h = "linear evs [] (view (cat_engine c))"
  obtain S where S: "run_events std_sort evs \<lparr>srv_db = c, srv_clients = []\<rparr> = Some S"
    and sim: "server_sim n S (pending evs []) (last_map ?h (view (cat_engine c))) ?h"
    using sim_events [OF sim_start [OF assms(1)] assms(2,3)] by auto
  have "\<exists>as. read_answers (map fst (of_client i ?h)) (outbox (cl_conn (srv_clients S ! i))) = Some (as, [])
      \<and> list_all2 (\<lambda>(r, m) a. map_answer r m a) (of_client i ?h) as" if "i < length (srv_clients S)" for i
    using sim that append_Nil2 unfolding server_sim_def thread_ok_def by metis
  then show ?thesis using S sim by (auto simp: server_sim_def length_pending)
qed

text \<open>
  C16: no client waits for ever. Once the clients have connected, however far they have been served, let the threads take turns in any
  order in which every thread gets more turns than its client has requests left. Then every thread leaves its loop,
  every request of every client has been answered, and the client decodes the answers in the order of its requests.
\<close>

theorem fair_turns_answer_all:
  assumes "engine_ok (length (evs @ turns) + n) (cat_engine c)" "nets_live evs"
    and "\<forall>(i, r, m) \<in> set (linear (evs @ turns) [] (view (cat_engine c))). request_fits r m"
    and "list_all (\<lambda>ev. \<exists>i. ev = Turn i) turns"
    and "\<forall>i < length (connected evs). length (pending evs [] ! i) < count_list turns (Turn i)"
  shows "\<exists>S. run_events std_sort (evs @ turns) \<lparr>srv_db = c, srv_clients = []\<rparr> = Some S
    \<and> length (srv_clients S) = length (connected evs)
    \<and> (\<forall>i < length (connected evs). \<not> cl_open (srv_clients S ! i)
        \<and> (\<exists>as. read_answers (connected evs ! i) (outbox (cl_conn (srv_clients S ! i))) = Some (as, [])))"
proof -
  let ?m = "view (cat_engine c)" and ?S0 = "\<lparr>srv_db = c, srv_clients = []\<rparr>"
  let ?m1 = "last_map (linear evs [] ?m) ?m"
  have start: "server_sim (length evs + (length turns + n)) ?S0 [] ?m []" using sim_start assms(1) by (simp add: add.assoc)
  have fits: "\<forall>(i, r, m) \<in> set (linear evs [] ?m). request_fits r m" "\<forall>(i, r, m) \<in> set (linear turns (pending evs []) ?m1). request_fits r m"
    using assms(3) by (auto simp: linear_append)
  obtain S1 where S1: "run_events std_sort evs ?S0 = Some S1" "server_sim (length turns + n) S1 (pending evs []) ?m1 (linear evs [] ?m)"
    using sim_events [OF start assms(2) fits(1)] by auto
  obtain S where S: "run_events std_sort turns S1 = Some S"
    "server_sim n S (pending turns (pending evs [])) (last_map (linear turns (pending evs []) ?m1) ?m1) (linear (evs @ turns) [] ?m)"
    using sim_events [OF S1(2) nets_live_turns [OF assms(4)] fits(2)] by (auto simp: linear_append)
  have len: "length (pending evs []) = length (connected evs)" "length (srv_clients S) = length (connected evs)"
    using S(2) connected_turns [OF assms(4)] by (simp_all add: server_sim_def length_pending)
  have closed: "\<not> cl_open (srv_clients S ! i) \<and> pending turns (pending evs []) ! i = []" if "i < length (connected evs)" for i
    using turns_close [OF S1(2) assms(4) fits(2) S(1), of i] assms(5) that len(1) by simp
  have "map fst (of_client i (linear (evs @ turns) [] ?m)) = connected evs ! i" if "i < length (connected evs)" for i
    using answered_and_pending [of i "[]" "evs @ turns" ?m] closed [OF that] that connected_turns [OF assms(4)]
    by (simp add: connected_append pending_append)
  then have "\<exists>as. read_answers (connected evs ! i) (outbox (cl_conn (srv_clients S ! i))) = Some (as, [])" if "i < length (connected evs)" for i
    using S(2) that len append_Nil2 unfolding server_sim_def thread_ok_def by metis
  then show ?thesis using S1(1) S(1) closed len by (simp add: run_events_append)
qed

section \<open>Two clients\<close>

definition ex_events :: "event list" where
  "ex_events = [Connect [RPut ''a'' ''1'', RGet ''a''] [Short 2], Connect [RPut ''a'' ''2''] [], Turn 0, Turn 1]"

definition ex_turns :: "event list" where
  "ex_turns = [Turn 1, Turn 0, Turn 0]"

lemma ex_events_simps:
  "linear ex_events [] Map.empty = [(0, RPut ''a'' ''1'', Map.empty), (1, RPut ''a'' ''2'', [''a'' \<mapsto> ''1''])]"
  "linear (ex_events @ ex_turns) [] Map.empty =
     [(0, RPut ''a'' ''1'', Map.empty), (1, RPut ''a'' ''2'', [''a'' \<mapsto> ''1'']), (0, RGet ''a'', [''a'' \<mapsto> ''2''])]"
  "pending ex_events [] = [[RGet ''a''], []]" "connected (ex_events @ ex_turns) = [[RPut ''a'' ''1'', RGet ''a''], [RPut ''a'' ''2'']]" "connected ex_events = [[RPut ''a'' ''1'', RGet ''a''], [RPut ''a'' ''2'']]"
  by (simp_all add: ex_events_def ex_turns_def)

lemma ex_events_live: "nets_live ex_events" "nets_live (ex_events @ ex_turns)"
  by (simp_all add: ex_events_def ex_turns_def new_conn_def live_net_def)

lemma ex_view: "view (cat_engine ex_catalog) = Map.empty"
  by (simp add: fun_eq_iff ex_catalog_def view_def layers_def live_def ex_fresh_def)

lemma ex_catalog_room: "m \<le> 1000 \<Longrightarrow> engine_ok m (cat_engine ex_catalog)"
  using ex_catalog_ok(1) by (auto simp: catalog_ok_def intro: engine_ok_mono)

text \<open>The second client writes between the two requests of the first, which reads what the second wrote.\<close>

theorem clients_share_one_map_witness:
  "\<exists>S. run_events (\<lambda>lt rows. rows) (ex_events @ ex_turns) \<lparr>srv_db = ex_catalog, srv_clients = []\<rparr> = Some S
     \<and> view (cat_engine (srv_db S)) = [''a'' \<mapsto> ''2'']
     \<and> read_answers [RPut ''a'' ''1'', RGet ''a''] (outbox (cl_conn (srv_clients S ! 0))) = Some ([Wrote True, Read (Some ''2'')], [])"
proof -
  have f: "\<forall>(i, r, m) \<in> set (linear (ex_events @ ex_turns) [] (view (cat_engine ex_catalog))). request_fits r m"
    by (simp add: ex_view ex_events_simps wire_size_def)
  have "engine_ok (length (ex_events @ ex_turns) + 100) (cat_engine ex_catalog)" by (rule ex_catalog_room) (simp add: ex_events_def ex_turns_def)
  from clients_share_one_map [OF this ex_events_live(2) f, of "\<lambda>lt rows. rows"] obtain S where
    S: "run_events (\<lambda>lt rows. rows) (ex_events @ ex_turns) \<lparr>srv_db = ex_catalog, srv_clients = []\<rparr> = Some S"
      "view (cat_engine (srv_db S)) = [''a'' \<mapsto> ''2'']" "length (srv_clients S) = 2"
      "\<forall>i < length (srv_clients S). \<exists>as. read_answers (map fst (of_client i (linear (ex_events @ ex_turns) [] Map.empty))) (outbox (cl_conn (srv_clients S ! i))) = Some (as, [])
         \<and> list_all2 (\<lambda>(r, m) a. map_answer r m a) (of_client i (linear (ex_events @ ex_turns) [] Map.empty)) as"
    by (auto simp: ex_view ex_events_simps last_map_def)
  have "as = [Wrote True, Read (Some ''2'')]" if "list_all2 (\<lambda>(r, m) a. map_answer r m a) [(RPut ''a'' ''1'', Map.empty), (RGet ''a'', [''a'' \<mapsto> ''2''])] as" for as
    using that by (auto simp: list_all2_Cons1)
  then show ?thesis using S(1-3) S(4) [rule_format, of 0] by (fastforce simp: ex_events_simps)
qed

theorem fair_turns_answer_all_witness:
  "\<exists>S as. run_events (\<lambda>lt rows. rows) (ex_events @ ex_turns) \<lparr>srv_db = ex_catalog, srv_clients = []\<rparr> = Some S
     \<and> \<not> cl_open (srv_clients S ! 0) \<and> read_answers [RPut ''a'' ''1'', RGet ''a''] (outbox (cl_conn (srv_clients S ! 0))) = Some (as, [])"
proof -
  have f: "\<forall>(i, r, m) \<in> set (linear (ex_events @ ex_turns) [] (view (cat_engine ex_catalog))). request_fits r m"
    by (simp add: ex_view ex_events_simps wire_size_def)
  have e: "engine_ok (length (ex_events @ ex_turns) + 100) (cat_engine ex_catalog)" by (rule ex_catalog_room) (simp add: ex_events_def ex_turns_def)
  have t: "list_all (\<lambda>ev. \<exists>i. ev = Turn i) ex_turns" by (simp add: ex_turns_def)
  have c: "\<forall>i < length (connected ex_events). length (pending ex_events [] ! i) < count_list ex_turns (Turn i)"
    by (auto simp: ex_events_simps ex_turns_def nth_Cons less_Suc_eq split: nat.split)
  from fair_turns_answer_all [OF e ex_events_live(1) f t c, of "\<lambda>lt rows. rows"] show ?thesis
    by (auto simp: ex_events_simps)
qed

end
