(* ===== verification/Server_Lifecycle.thy ===== *)
theory Server_Lifecycle
  imports Server_Threads
begin

text \<open>
  The life of the server process (\<open>start\<close>, \<open>stop\<close> and \<open>accept_loop\<close> of \<open>src/network/server.cpp\<close>): the listening socket, the flag
  \<open>running_\<close>, the accepting thread, the client threads and the thread that is inside \<open>stop()\<close>. Each thread has a program
  counter at the places where it reads \<open>running_\<close> or waits, so the flag may change between the check of a loop and its body. The
  mutex around the list of client threads makes its updates single steps.

  The steps are of two kinds. \<open>server_step\<close> is a thread of the server that moves by itself: it is not blocked, or the call it is
  blocked in returns because of what the server did. \<open>outside_step\<close> is what the server has to wait for: a client connects,
  \<open>accept\<close> fails for a reason of its own, a client sends its next request or closes its connection. A thread in \<open>accept\<close> or \<open>recv\<close>
  that nothing from outside reaches stays there.

  Whether closing the listening socket makes a call of \<open>accept\<close> return that another thread is already blocked in is up to the
  system (it does on Windows; POSIX does not say, and on Linux it does not): \<open>close_wakes\<close>.
\<close>

section \<open>State\<close>

datatype thread_pc = AtCheck | InBody | Left
datatype accept_pc = NoThread | AcceptCheck | AtAccept | InAccept | AcceptLeft
datatype stop_pc = NotStopping | JoinAcceptor | JoinClients | Stopped

text \<open>
  A client thread is ready when the calls of its next request return: the request, or the end of the stream, has arrived, and
  the client takes the answer.
\<close>

record Worker =
  wk_conn :: Conn
  wk_pc :: thread_pc
  wk_ready :: bool

record ServerProc =
  sp_db :: Catalog
  sp_listening :: bool
  sp_running :: bool
  sp_acceptor :: accept_pc
  sp_workers :: "Worker list"
  sp_stop :: stop_pc

definition server_init :: "Catalog \<Rightarrow> ServerProc" where
  "server_init c = \<lparr>sp_db = c, sp_listening = False, sp_running = False, sp_acceptor = NoThread, sp_workers = [], sp_stop = NotStopping\<rparr>"

section \<open>Operations\<close>

text \<open>\<open>start()\<close>, with the results of \<open>socket\<close>, \<open>bind\<close> and \<open>listen\<close>; a failure closes the socket again.\<close>

definition server_start :: "bool \<Rightarrow> bool \<Rightarrow> bool \<Rightarrow> ServerProc \<Rightarrow> ServerProc" where
  "server_start socket_ok bind_ok listen_ok S =
     (if \<not> socket_ok then S\<lparr>sp_listening := False\<rparr>
      else if \<not> bind_ok then S\<lparr>sp_listening := False\<rparr>
      else if \<not> listen_ok then S\<lparr>sp_listening := False\<rparr>
      else S\<lparr>sp_listening := True, sp_running := True, sp_acceptor := AcceptCheck\<rparr>)"

text \<open>\<open>stop()\<close> up to the first join, and the two joins; \<open>None\<close> while a join waits.\<close>

definition stop_begin :: "ServerProc \<Rightarrow> ServerProc" where
  "stop_begin S = S\<lparr>sp_running := False, sp_listening := False, sp_stop := JoinAcceptor\<rparr>"

definition join_acceptor :: "ServerProc \<Rightarrow> ServerProc option" where
  "join_acceptor S =
     (if sp_acceptor S = NoThread \<or> sp_acceptor S = AcceptLeft
      then Some (S\<lparr>sp_acceptor := NoThread, sp_stop := JoinClients\<rparr>) else None)"

definition join_clients :: "ServerProc \<Rightarrow> ServerProc option" where
  "join_clients S =
     (if list_all (\<lambda>w. wk_pc w = Left) (sp_workers S) then Some (S\<lparr>sp_workers := [], sp_stop := Stopped\<rparr>) else None)"

text \<open>
  The accepting thread: the check of its loop; the return of \<open>accept\<close> with or without a connection; and the call itself, which
  fails at once on a socket that has been closed and blocks otherwise.
\<close>

definition accept_check :: "ServerProc \<Rightarrow> ServerProc" where
  "accept_check S = S\<lparr>sp_acceptor := (if sp_running S then AtAccept else AcceptLeft)\<rparr>"

definition accept_return :: "Conn option \<Rightarrow> ServerProc \<Rightarrow> ServerProc" where
  "accept_return r S =
     (case r of
        None \<Rightarrow> S\<lparr>sp_acceptor := (if \<not> sp_running S then AcceptLeft else AcceptCheck)\<rparr>
      | Some s \<Rightarrow> S\<lparr>sp_workers := sp_workers S @ [\<lparr>wk_conn = s, wk_pc = AtCheck, wk_ready = False\<rparr>], sp_acceptor := AcceptCheck\<rparr>)"

definition accept_call :: "ServerProc \<Rightarrow> ServerProc" where
  "accept_call S = (if sp_listening S then S\<lparr>sp_acceptor := InAccept\<rparr> else accept_return None S)"

text \<open>A client thread: the check of its loop, and one request; \<open>None\<close> where the request is undefined.\<close>

definition worker_check :: "nat \<Rightarrow> ServerProc \<Rightarrow> ServerProc" where
  "worker_check i S =
     S\<lparr>sp_workers := (sp_workers S)[i := (sp_workers S ! i)\<lparr>wk_pc := (if sp_running S then InBody else Left)\<rparr>]\<rparr>"

definition worker_body :: "sorter \<Rightarrow> nat \<Rightarrow> ServerProc \<Rightarrow> ServerProc option" where
  "worker_body std_sort i S =
     (case serve_one std_sort (sp_db S) (wk_conn (sp_workers S ! i)) of
        None \<Rightarrow> None
      | Some (goes_on, db, s) \<Rightarrow>
          Some (S\<lparr>sp_db := db,
                  sp_workers := (sp_workers S)[i := \<lparr>wk_conn = s, wk_pc = (if goes_on then AtCheck else Left), wk_ready = False\<rparr>]\<rparr>))"

text \<open>What a client does: it sends its next request or closes the connection.\<close>

definition client_speaks :: "nat \<Rightarrow> ServerProc \<Rightarrow> ServerProc" where
  "client_speaks i S = S\<lparr>sp_workers := (sp_workers S)[i := (sp_workers S ! i)\<lparr>wk_ready := True\<rparr>]\<rparr>"

section \<open>Steps\<close>

text \<open>
  \<open>main\<close> calls \<open>start()\<close> before anything else and the thread that stops the server calls \<open>stop()\<close> once; later calls find nothing to do
  (\<open>stop_again\<close>).
\<close>

inductive server_step :: "sorter \<Rightarrow> bool \<Rightarrow> ServerProc \<Rightarrow> ServerProc \<Rightarrow> bool" for std_sort close_wakes where
  start: "sp_acceptor S = NoThread \<Longrightarrow> sp_stop S = NotStopping \<Longrightarrow> server_step std_sort close_wakes S (server_start so bo lo S)"
| stop: "sp_stop S = NotStopping \<Longrightarrow> server_step std_sort close_wakes S (stop_begin S)"
| joined_acceptor: "sp_stop S = JoinAcceptor \<Longrightarrow> join_acceptor S = Some S' \<Longrightarrow> server_step std_sort close_wakes S S'"
| joined_clients: "sp_stop S = JoinClients \<Longrightarrow> join_clients S = Some S' \<Longrightarrow> server_step std_sort close_wakes S S'"
| acceptor_check: "sp_acceptor S = AcceptCheck \<Longrightarrow> server_step std_sort close_wakes S (accept_check S)"
| acceptor_call: "sp_acceptor S = AtAccept \<Longrightarrow> server_step std_sort close_wakes S (accept_call S)"
| acceptor_woken: "sp_acceptor S = InAccept \<Longrightarrow> \<not> sp_listening S \<Longrightarrow> close_wakes \<Longrightarrow> server_step std_sort close_wakes S (accept_return None S)"
| client_check: "i < length (sp_workers S) \<Longrightarrow> wk_pc (sp_workers S ! i) = AtCheck \<Longrightarrow> server_step std_sort close_wakes S (worker_check i S)"
| client_body: "i < length (sp_workers S) \<Longrightarrow> wk_pc (sp_workers S ! i) = InBody \<Longrightarrow> wk_ready (sp_workers S ! i) \<Longrightarrow>
    worker_body std_sort i S = Some S' \<Longrightarrow> server_step std_sort close_wakes S S'"

inductive outside_step :: "ServerProc \<Rightarrow> ServerProc \<Rightarrow> bool" where
  accepted: "sp_acceptor S = InAccept \<Longrightarrow> outside_step S (accept_return r S)"
| spoken: "i < length (sp_workers S) \<Longrightarrow> \<not> wk_ready (sp_workers S ! i) \<Longrightarrow> outside_step S (client_speaks i S)"

definition any_step :: "sorter \<Rightarrow> bool \<Rightarrow> ServerProc \<Rightarrow> ServerProc \<Rightarrow> bool" where
  "any_step std_sort close_wakes S S' \<longleftrightarrow> server_step std_sort close_wakes S S' \<or> outside_step S S'"

inductive reachable :: "sorter \<Rightarrow> bool \<Rightarrow> Catalog \<Rightarrow> ServerProc \<Rightarrow> bool" for std_sort close_wakes c where
  init: "reachable std_sort close_wakes c (server_init c)"
| step: "reachable std_sort close_wakes c S \<Longrightarrow> any_step std_sort close_wakes S S' \<Longrightarrow> reachable std_sort close_wakes c S'"

lemmas lifecycle_defs = server_start_def stop_begin_def join_acceptor_def join_clients_def accept_check_def accept_call_def accept_return_def
  worker_check_def worker_body_def client_speaks_def

inductive_cases outside_stepE: "outside_step S S'"

text \<open>
  A start that fails leaves the server as it was made, with no error for the caller: \<open>main\<close> finds that it does not run and ends
  with status 0.
\<close>

lemma failed_start_silent:
  assumes "\<not> (socket_ok \<and> bind_ok \<and> listen_ok)"
  shows "server_start socket_ok bind_ok listen_ok (server_init c) = server_init c"
  using assms by (auto simp: server_start_def server_init_def)

section \<open>Invariants\<close>

definition server_inv :: "ServerProc \<Rightarrow> bool" where
  "server_inv S \<longleftrightarrow> (sp_stop S \<noteq> NotStopping \<longrightarrow> \<not> sp_running S \<and> \<not> sp_listening S)
     \<and> (sp_stop S = JoinClients \<or> sp_stop S = Stopped \<longrightarrow> sp_acceptor S = NoThread)
     \<and> (sp_stop S = Stopped \<longrightarrow> sp_workers S = [])
     \<and> (sp_listening S \<longleftrightarrow> sp_running S)
     \<and> (sp_running S \<longrightarrow> sp_acceptor S = AcceptCheck \<or> sp_acceptor S = AtAccept \<or> sp_acceptor S = InAccept)"

lemma worker_body_same:
  "worker_body std_sort i S = Some S' \<Longrightarrow> sp_listening S' = sp_listening S \<and> sp_running S' = sp_running S
     \<and> sp_acceptor S' = sp_acceptor S \<and> sp_stop S' = sp_stop S \<and> length (sp_workers S') = length (sp_workers S)"
  by (auto simp: worker_body_def split: option.splits)

lemma accept_return_inv: "sp_acceptor S = AtAccept \<or> sp_acceptor S = InAccept \<Longrightarrow> server_inv S \<Longrightarrow> server_inv (accept_return r S)"
  by (cases "sp_stop S"; cases r) (auto simp: server_inv_def accept_return_def)

lemma server_step_inv: "server_step std_sort close_wakes S S' \<Longrightarrow> server_inv S \<Longrightarrow> server_inv S'"
proof (induction rule: server_step.induct)
  case (start S so bo lo)
  then show ?case by (simp add: server_inv_def server_start_def)
next
  case (stop S)
  then show ?case by (simp add: server_inv_def stop_begin_def)
next
  case (joined_acceptor S S')
  then show ?case by (auto simp: server_inv_def join_acceptor_def split: if_splits)
next
  case (joined_clients S S')
  then show ?case by (auto simp: server_inv_def join_clients_def split: if_splits)
next
  case (acceptor_check S)
  then show ?case by (cases "sp_stop S") (simp_all add: server_inv_def accept_check_def)
next
  case (acceptor_call S)
  have "server_inv (S\<lparr>sp_acceptor := InAccept\<rparr>)" if "sp_listening S" using acceptor_call that by (simp add: server_inv_def)
  then show ?case using accept_return_inv acceptor_call by (simp add: accept_call_def)
next
  case (acceptor_woken S)
  then show ?case using accept_return_inv by blast
next
  case (client_check i S)
  then have "sp_stop S \<noteq> Stopped" by (auto simp: server_inv_def)
  with client_check show ?case by (simp add: server_inv_def worker_check_def)
next
  case (client_body i S S')
  then have "sp_stop S \<noteq> Stopped" by (auto simp: server_inv_def)
  with client_body worker_body_same show ?case by (simp add: server_inv_def)
qed

lemma outside_step_inv: "outside_step S S' \<Longrightarrow> server_inv S \<Longrightarrow> server_inv S'"
proof (induction rule: outside_step.induct)
  case (accepted S r)
  then show ?case using accept_return_inv by blast
next
  case (spoken i S)
  then have "sp_stop S \<noteq> Stopped" by (auto simp: server_inv_def)
  with spoken show ?case by (simp add: server_inv_def client_speaks_def)
qed

lemma any_step_inv: "any_step std_sort close_wakes S S' \<Longrightarrow> server_inv S \<Longrightarrow> server_inv S'"
  using server_step_inv outside_step_inv by (auto simp: any_step_def)

lemma reachable_inv: "reachable std_sort close_wakes c S \<Longrightarrow> server_inv S"
proof (induction rule: reachable.induct)
  case init
  show ?case by (simp add: server_inv_def server_init_def)
next
  case (step S S')
  then show ?case by (blast intro: any_step_inv)
qed

text \<open>The destructor calls \<open>stop()\<close> again: after a \<open>stop()\<close> that has returned it neither waits nor changes anything.\<close>

lemma stop_again:
  assumes "server_inv S" "sp_stop S = Stopped"
  shows "Option.bind (join_acceptor (stop_begin S)) join_clients = Some S"
  using assms by (simp add: server_inv_def stop_begin_def join_acceptor_def join_clients_def)

section \<open>Stopping ends\<close>

text \<open>How many steps, of either kind, can still be taken once \<open>running_\<close> is false; a thread inside a request finishes it.\<close>

fun thread_work :: "thread_pc \<Rightarrow> nat" where
  "thread_work InBody = 3" | "thread_work AtCheck = 1" | "thread_work Left = 0"

definition worker_work :: "Worker \<Rightarrow> nat" where
  "worker_work w = thread_work (wk_pc w) + (if wk_ready w then 0 else 1)"

fun accept_work :: "accept_pc \<Rightarrow> nat" where
  "accept_work AtAccept = 5" | "accept_work InAccept = 4" | "accept_work AcceptCheck = 1" | "accept_work _ = 0"

fun join_work :: "stop_pc \<Rightarrow> nat" where
  "join_work NotStopping = 3" | "join_work JoinAcceptor = 2" | "join_work JoinClients = 1" | "join_work Stopped = 0"

definition stop_work :: "ServerProc \<Rightarrow> nat" where
  "stop_work S = accept_work (sp_acceptor S) + sum_list (map worker_work (sp_workers S)) + join_work (sp_stop S)"

lemma worker_work_le: "worker_work w \<le> 4"
  by (cases "wk_pc w") (simp_all add: worker_work_def)

lemma accept_work_le: "accept_work a \<le> 5"
  by (cases a) simp_all

lemma workers_work_le: "sum_list (map worker_work ws) \<le> 4 * length ws"
proof (induction ws)
  case (Cons w ws)
  then show ?case using worker_work_le [of w] by simp
qed simp

lemma stop_work_le:
  assumes "sp_stop S \<noteq> NotStopping"
  shows "stop_work S \<le> 7 + 4 * length (sp_workers S)"
proof -
  have "join_work (sp_stop S) \<le> 2" using assms by (cases "sp_stop S") simp_all
  with accept_work_le [of "sp_acceptor S"] workers_work_le [of "sp_workers S"] show ?thesis unfolding stop_work_def by linarith
qed

lemma sum_list_decrease:
  fixes f :: "'a \<Rightarrow> nat"
  shows "i < length xs \<Longrightarrow> f x < f (xs ! i) \<Longrightarrow> sum_list (map f (xs[i := x])) < sum_list (map f xs)"
proof (induction xs arbitrary: i)
  case (Cons y ys)
  then show ?case by (cases i) auto
qed simp

lemma accept_return_work:
  assumes "sp_acceptor S = AtAccept \<or> sp_acceptor S = InAccept" "\<not> sp_running S"
  shows "stop_work (accept_return r S) < stop_work S \<and> sp_stop (accept_return r S) = sp_stop S"
  using assms by (cases r) (auto simp: accept_return_def stop_work_def worker_work_def)

lemma server_step_work:
  assumes "server_step std_sort close_wakes S S'" "server_inv S" "sp_stop S \<noteq> NotStopping"
  shows "stop_work S' < stop_work S \<and> sp_stop S' \<noteq> NotStopping"
  using assms
proof (induction rule: server_step.induct)
  case (joined_acceptor S S')
  then show ?case by (auto simp: join_acceptor_def stop_work_def split: if_splits)
next
  case (joined_clients S S')
  then show ?case by (auto simp: join_clients_def stop_work_def split: if_splits)
next
  case (acceptor_check S)
  then show ?case by (simp add: server_inv_def accept_check_def stop_work_def)
next
  case (acceptor_call S)
  then show ?case using accept_return_work [of S None] by (simp add: accept_call_def server_inv_def)
next
  case (acceptor_woken S)
  then show ?case using accept_return_work [of S None] by (simp add: server_inv_def)
next
  case (client_check i S)
  then show ?case
    using sum_list_decrease [of i "sp_workers S" worker_work "(sp_workers S ! i)\<lparr>wk_pc := Left\<rparr>"]
    by (simp add: server_inv_def worker_check_def stop_work_def worker_work_def)
next
  case (client_body i S S')
  then obtain g db s where S': "S' = S\<lparr>sp_db := db,
      sp_workers := (sp_workers S)[i := \<lparr>wk_conn = s, wk_pc = (if g then AtCheck else Left), wk_ready = False\<rparr>]\<rparr>"
    by (auto simp: worker_body_def split: option.splits)
  show ?case
    using sum_list_decrease [of i "sp_workers S" worker_work "\<lparr>wk_conn = s, wk_pc = (if g then AtCheck else Left), wk_ready = False\<rparr>"] client_body(1,2,3,6)
    by (cases g) (simp_all add: S' stop_work_def worker_work_def)
qed simp_all

lemma outside_step_work:
  assumes "outside_step S S'" "server_inv S" "sp_stop S \<noteq> NotStopping"
  shows "stop_work S' < stop_work S \<and> sp_stop S' \<noteq> NotStopping"
  using assms
proof (induction rule: outside_step.induct)
  case (accepted S r)
  then show ?case using accept_return_work [of S r] by (simp add: server_inv_def)
next
  case (spoken i S)
  then show ?case
    using sum_list_decrease [of i "sp_workers S" worker_work "(sp_workers S ! i)\<lparr>wk_ready := True\<rparr>"]
    by (simp add: client_speaks_def stop_work_def worker_work_def)
qed

lemma stop_run:
  "(any_step std_sort close_wakes ^^ n) S S' \<Longrightarrow> server_inv S \<Longrightarrow> sp_stop S \<noteq> NotStopping \<Longrightarrow>
   n + stop_work S' \<le> stop_work S \<and> server_inv S' \<and> sp_stop S' \<noteq> NotStopping"
proof (induction n arbitrary: S')
  case (Suc n)
  then obtain T where T: "(any_step std_sort close_wakes ^^ n) S T" "any_step std_sort close_wakes T S'" by auto
  have "stop_work S' < stop_work T \<and> sp_stop S' \<noteq> NotStopping" if "server_inv T" "sp_stop T \<noteq> NotStopping"
    using T(2) that server_step_work outside_step_work unfolding any_step_def by blast
  then show ?case using Suc T any_step_inv [OF T(2)] by fastforce
qed simp

text \<open>Where a thread can be that keeps \<open>stop()\<close> waiting: in a call for its client, or in a request that is undefined.\<close>

definition client_blocks :: "sorter \<Rightarrow> ServerProc \<Rightarrow> nat \<Rightarrow> bool" where
  "client_blocks std_sort S i \<longleftrightarrow> i < length (sp_workers S) \<and> wk_pc (sp_workers S ! i) = InBody
     \<and> (\<not> wk_ready (sp_workers S ! i) \<or> worker_body std_sort i S = None)"

text \<open>Until \<open>stop()\<close> has returned some thread of the server can move by itself, unless its client keeps one waiting.\<close>

lemma stop_progress:
  assumes "sp_stop S = JoinAcceptor \<or> sp_stop S = JoinClients" "\<not> sp_listening S" close_wakes
  shows "(\<exists>S'. server_step std_sort close_wakes S S') \<or> (\<exists>i. client_blocks std_sort S i)"
  using assms(1)
proof
  assume j: "sp_stop S = JoinAcceptor"
  show ?thesis
  proof (cases "sp_acceptor S")
    case AcceptCheck
    then show ?thesis using server_step.acceptor_check by blast
  next
    case AtAccept
    then show ?thesis using server_step.acceptor_call by blast
  next
    case InAccept
    then show ?thesis using server_step.acceptor_woken assms(2,3) by blast
  qed (use server_step.joined_acceptor [OF j] in \<open>force simp: join_acceptor_def\<close>)+
next
  assume j: "sp_stop S = JoinClients"
  show ?thesis
  proof (cases "list_all (\<lambda>w. wk_pc w = Left) (sp_workers S)")
    case True
    then show ?thesis using server_step.joined_clients [OF j] by (force simp: join_clients_def)
  next
    case False
    then obtain i where i: "i < length (sp_workers S)" "wk_pc (sp_workers S ! i) \<noteq> Left" by (auto simp: list_all_length)
    show ?thesis
    proof (cases "wk_pc (sp_workers S ! i)")
      case AtCheck
      then show ?thesis using server_step.client_check [OF i(1)] by blast
    next
      case InBody
      then show ?thesis
        using server_step.client_body [OF i(1)] i(1) unfolding client_blocks_def by (cases "worker_body std_sort i S") blast+
    qed (use i(2) in simp)
  qed
qed

section \<open>Turns\<close>

text \<open>
  While the server runs, its threads do what the turns of the threads theory do: seen without the program counters, a step
  changes nothing, or is the turn of a client, or a new client.
\<close>

definition threads_of :: "ServerProc \<Rightarrow> ServerState" where
  "threads_of S = \<lparr>srv_db = sp_db S, srv_clients = map (\<lambda>w. \<lparr>cl_conn = wk_conn w, cl_open = (wk_pc w \<noteq> Left)\<rparr>) (sp_workers S)\<rparr>"

lemma body_is_turn:
  assumes "i < length (sp_workers S)" "wk_pc (sp_workers S ! i) = InBody" "runs (wk_conn (sp_workers S ! i)) = []"
  shows "client_turn std_sort i (threads_of S) = map_option threads_of (worker_body std_sort i S)"
  using assms by (auto simp: client_turn_def threads_of_def worker_body_def is_running_def map_update split: option.split)

lemma threads_of_update:
  assumes "i < length (sp_workers S)" "wk_conn w = wk_conn (sp_workers S ! i)" "wk_pc w \<noteq> Left \<longleftrightarrow> wk_pc (sp_workers S ! i) \<noteq> Left"
  shows "threads_of (S\<lparr>sp_workers := (sp_workers S)[i := w]\<rparr>) = threads_of S"
proof -
  have "map (\<lambda>w. \<lparr>cl_conn = wk_conn w, cl_open = (wk_pc w \<noteq> Left)\<rparr>) ((sp_workers S)[i := w])
      = map (\<lambda>w. \<lparr>cl_conn = wk_conn w, cl_open = (wk_pc w \<noteq> Left)\<rparr>) (sp_workers S)"
    using assms by (intro nth_equalityI) (auto simp: nth_list_update)
  then show ?thesis by (simp add: threads_of_def)
qed

lemma accept_return_threads:
  "threads_of (accept_return r S) = threads_of S \<or> (\<exists>s. threads_of (accept_return r S) = accept_client (Some s) (threads_of S))"
  by (cases r) (auto simp: accept_return_def threads_of_def accept_client_def)

lemma running_step_is_turn:
  assumes "any_step std_sort close_wakes S S'" "sp_running S" "server_inv S" "sp_stop S' = NotStopping" "sp_running S'"
    and "\<forall>w \<in> set (sp_workers S). runs (wk_conn w) = []"
  shows "threads_of S' = threads_of S \<or> (\<exists>i. client_turn std_sort i (threads_of S) = Some (threads_of S'))
    \<or> (\<exists>s. threads_of S' = accept_client (Some s) (threads_of S))"
  using assms(1) unfolding any_step_def
proof
  assume "outside_step S S'"
  then show ?thesis
  proof (rule outside_stepE)
    fix r assume "S' = accept_return r S"
    then show ?thesis using accept_return_threads by blast
  next
    fix i assume "S' = client_speaks i S" "i < length (sp_workers S)"
    then show ?thesis by (simp add: client_speaks_def threads_of_update)
  qed
next
  assume "server_step std_sort close_wakes S S'"
  then show ?thesis using assms(2-6)
  proof (induction rule: server_step.induct)
    case (acceptor_call S)
    then show ?case by (simp add: accept_call_def server_inv_def threads_of_def)
  next
    case (client_check i S)
    then show ?case by (simp add: worker_check_def threads_of_update)
  next
    case (client_body i S S')
    then have "client_turn std_sort i (threads_of S) = Some (threads_of S')" using body_is_turn [of i S std_sort] by simp
    then show ?case by blast
  qed (auto simp: threads_of_def lifecycle_defs server_inv_def split: if_splits)
qed

section \<open>Properties of the lifecycle\<close>


text \<open>
  C18: \<open>stop()\<close> returns, or a client keeps it waiting. On a system where closing the listening socket makes a blocked \<open>accept\<close>
  return, take any state in which \<open>stop()\<close> has been called: no run from it, of server and clients together, is longer than \<open>7\<close> steps and
  four for every client thread, and where no thread of the server can move by itself any more, \<open>stop()\<close> has returned, or some client thread
  is inside a request whose client sends nothing and does not close its connection, or whose behaviour is undefined. So
  \<open>stop()\<close> returns as soon as every client has sent its next request or hung up; it does not if one never does.
\<close>

theorem stop_returns:
  assumes "reachable std_sort close_wakes c S" "sp_stop S \<noteq> NotStopping" close_wakes "(any_step std_sort close_wakes ^^ n) S S'"
  shows "n \<le> 7 + 4 * length (sp_workers S)
    \<and> ((\<exists>T. server_step std_sort close_wakes S' T) \<or> sp_stop S' = Stopped \<or> (\<exists>i. client_blocks std_sort S' i))"
proof -
  have run: "n + stop_work S' \<le> stop_work S" "sp_stop S' \<noteq> NotStopping" "server_inv S'"
    using stop_run [OF assms(4) reachable_inv [OF assms(1)] assms(2)] by auto
  with stop_work_le [OF assms(2)] have "n \<le> 7 + 4 * length (sp_workers S)" by linarith
  moreover have "\<not> sp_listening S'" using run(2,3) by (simp add: server_inv_def)
  ultimately show ?thesis using run(2) stop_progress [of S' close_wakes std_sort] assms(3) by (cases "sp_stop S'") auto
qed

section \<open>A run\<close>

text \<open>A client connects, the accepting thread waits for the next one, and \<open>stop()\<close> is called.\<close>

definition ex_waiting :: ServerProc where
  "ex_waiting = accept_call (accept_check (server_start True True True (server_init ex_catalog)))"

definition ex_started :: ServerProc where
  "ex_started = accept_call (accept_check (accept_return (Some (new_conn [] [])) ex_waiting))"

definition ex_stopping :: ServerProc where
  "ex_stopping = stop_begin ex_started"

lemma ex_states:
  "ex_waiting = \<lparr>sp_db = ex_catalog, sp_listening = True, sp_running = True, sp_acceptor = InAccept, sp_workers = [], sp_stop = NotStopping\<rparr>"
  "ex_stopping = \<lparr>sp_db = ex_catalog, sp_listening = False, sp_running = False, sp_acceptor = InAccept,
     sp_workers = [\<lparr>wk_conn = new_conn [] [], wk_pc = AtCheck, wk_ready = False\<rparr>], sp_stop = JoinAcceptor\<rparr>"
  by (simp_all add: ex_waiting_def ex_stopping_def ex_started_def lifecycle_defs server_init_def)

lemma reachable_server: "reachable std_sort w c S \<Longrightarrow> server_step std_sort w S S' \<Longrightarrow> reachable std_sort w c S'"
  and reachable_outside: "reachable std_sort w c S \<Longrightarrow> outside_step S S' \<Longrightarrow> reachable std_sort w c S'"
  by (auto intro: reachable.step simp: any_step_def)

lemma ex_waiting_reachable: "reachable std_sort w ex_catalog ex_waiting"
proof -
  let ?S0 = "server_init ex_catalog" let ?S1 = "server_start True True True ?S0"
  have "server_step std_sort w ?S0 ?S1" by (rule server_step.start) (simp_all add: server_init_def)
  moreover have "server_step std_sort w ?S1 (accept_check ?S1)" by (rule server_step.acceptor_check) (simp add: server_start_def)
  moreover have "server_step std_sort w (accept_check ?S1) ex_waiting"
    unfolding ex_waiting_def by (rule server_step.acceptor_call) (simp add: accept_check_def server_start_def)
  ultimately show ?thesis by (meson reachable.init reachable_server)
qed

lemma ex_stopping_reachable: "reachable std_sort w ex_catalog ex_stopping"
proof -
  let ?S1 = "accept_return (Some (new_conn [] [])) ex_waiting"
  have "outside_step ex_waiting ?S1" by (rule outside_step.accepted) (simp add: ex_states)
  moreover have "server_step std_sort w ?S1 (accept_check ?S1)" by (rule server_step.acceptor_check) (simp add: accept_return_def)
  moreover have "server_step std_sort w (accept_check ?S1) ex_started"
    unfolding ex_started_def by (rule server_step.acceptor_call) (simp add: accept_check_def accept_return_def ex_states)
  moreover have "server_step std_sort w ex_started ex_stopping"
    unfolding ex_stopping_def by (rule server_step.stop) (simp add: ex_started_def lifecycle_defs ex_states)
  ultimately show ?thesis by (meson ex_waiting_reachable reachable_server reachable_outside)
qed


theorem stop_returns_witness: "\<not> (\<exists>S'. (any_step isort True ^^ 12) ex_stopping S') \<and> sp_stop ex_stopping = JoinAcceptor"
proof -
  have "sp_stop ex_stopping = JoinAcceptor" "length (sp_workers ex_stopping) = 1" by (simp_all add: ex_states)
  then show ?thesis using stop_returns [where std_sort = isort and close_wakes = True and n = 12, OF ex_stopping_reachable] by fastforce
qed

section \<open>Where stopping hangs\<close>

text \<open>
  Nothing but the listening socket is closed, so a client that is connected and says nothing keeps its thread in \<open>recv\<close> and \<open>stop()\<close>
  waiting: there is a reachable state in which \<open>stop()\<close> has been called and no thread of the server can move.
\<close>

lemma stop_waits_for_silent_client:
  "\<exists>S. reachable std_sort True ex_catalog S \<and> sp_stop S = JoinClients \<and> \<not> (\<exists>S'. server_step std_sort True S S')"
proof -
  let ?S1 = "accept_return (Some (new_conn [] [])) ex_waiting" let ?S2 = "stop_begin (worker_check 0 ?S1)"
  let ?S3 = "accept_check ?S2"
  have "outside_step ex_waiting ?S1" by (rule outside_step.accepted) (simp add: ex_states)
  moreover have "server_step std_sort True ?S1 (worker_check 0 ?S1)" by (rule server_step.client_check) (simp_all add: accept_return_def ex_states)
  moreover have "server_step std_sort True (worker_check 0 ?S1) ?S2" by (rule server_step.stop) (simp add: worker_check_def accept_return_def ex_states)
  moreover have "server_step std_sort True ?S2 ?S3"
    by (rule server_step.acceptor_check) (simp add: stop_begin_def worker_check_def accept_return_def)
  moreover obtain J where J: "join_acceptor ?S3 = Some J"
    "J = \<lparr>sp_db = ex_catalog, sp_listening = False, sp_running = False, sp_acceptor = NoThread,
      sp_workers = [\<lparr>wk_conn = new_conn [] [], wk_pc = InBody, wk_ready = False\<rparr>], sp_stop = JoinClients\<rparr>"
    by (simp add: lifecycle_defs ex_states)
  moreover from J(1) have "server_step std_sort True ?S3 J"
    by (rule server_step.joined_acceptor [rotated]) (simp add: lifecycle_defs)
  ultimately have "reachable std_sort True ex_catalog J" by (meson ex_waiting_reachable reachable_server reachable_outside)
  moreover have "\<not> server_step std_sort True J S'" for S' by (auto simp: J(2) join_clients_def elim: server_step.cases)
  ultimately show ?thesis using J(2) by auto
qed

text \<open>Where closing a socket does not wake the thread that is blocked on it, \<open>stop()\<close> hangs even without a client.\<close>

lemma stop_hangs_in_accept:
  "\<exists>S. reachable std_sort False ex_catalog S \<and> sp_stop S = JoinAcceptor \<and> sp_workers S = [] \<and> \<not> (\<exists>S'. server_step std_sort False S S')"
proof -
  have "server_step std_sort False ex_waiting (stop_begin ex_waiting)" by (rule server_step.stop) (simp add: ex_states)
  then have "reachable std_sort False ex_catalog (stop_begin ex_waiting)" by (meson ex_waiting_reachable reachable_server)
  moreover have "\<not> server_step std_sort False (stop_begin ex_waiting) S'" for S'
    by (auto simp: ex_states stop_begin_def join_acceptor_def elim: server_step.cases)
  ultimately show ?thesis by (auto simp: stop_begin_def ex_states)
qed

end
