(* ===== verification/Cli.thy ===== *)
theory Cli
  imports Server_Correct
begin

text \<open>
  \<open>client/cli.cpp\<close>: the interactive SQL shell. \<open>print_table\<close> is the list of the lines it writes, and a session maps the text on
  standard input to the text on standard output and the catalog. Messages of the engine on standard error are left out.
\<close>

section \<open>Printing a table\<close>

text \<open>The column widths: the header first, then every row in turn.\<close>

fun widen :: "nat list \<Rightarrow> Value list \<Rightarrow> nat list" where
  "widen (w # ws) (v # row) = max w (length (value_to_string v)) # widen ws row"
| "widen ws row = ws"

definition table_widths :: "string list \<Rightarrow> Value list list \<Rightarrow> nat list" where
  "table_widths headers rows = foldl widen (map length headers) rows"

text \<open>\<open>std::left << std::setw(static_cast<int>(w)) << s\<close>; a width that is negative as an \<open>int\<close> pads nothing.\<close>

definition padded :: "nat \<Rightarrow> string \<Rightarrow> string" where
  "padded w s = s @ replicate (nat (cast_int w) - length s) (CHR '' '')"

definition sep_line :: "nat list \<Rightarrow> string" where
  "sep_line ws = ''+'' @ concat (map (\<lambda>w. replicate (w + 2) (CHR ''-'') @ ''+'') ws)"

definition cell :: "nat \<Rightarrow> string \<Rightarrow> string" where
  "cell w s = '' '' @ padded w s @ '' |''"

definition row_line :: "nat list \<Rightarrow> Value list \<Rightarrow> string" where
  "row_line ws row =
     ''|'' @ concat (map (\<lambda>i. cell (ws ! i) (if i < length row then value_to_string (row ! i) else ''NULL'')) [0..<length ws])"

definition table_lines :: "string list \<Rightarrow> Value list list \<Rightarrow> string list" where
  "table_lines headers rows =
     (if headers = [] then []
      else let ws = table_widths headers rows
           in [sep_line ws, ''|'' @ concat (map (\<lambda>(w, h). cell w h) (zip ws headers)), sep_line ws]
              @ map (row_line ws) rows @ [sep_line ws])"

definition endl :: "string \<Rightarrow> string" where
  "endl s = s @ [CHR 0x0A]"

definition print_table :: "string list \<Rightarrow> Value list list \<Rightarrow> string" where
  "print_table headers rows = concat (map endl (table_lines headers rows))"

section \<open>The session\<close>

definition show_result :: "QueryResult \<Rightarrow> string" where
  "show_result r =
     (if is_error r then endl (''ERROR: '' @ qr_message r)
      else if qr_column_names r \<noteq> [] \<and> qr_rows r \<noteq> [] then
        print_table (qr_column_names r) (qr_rows r) @ endl (qr_message r)
      else if qr_column_names r \<noteq> [] \<and> qr_rows r = [] then
        print_table (qr_column_names r) [] @ endl ''0 row(s) returned.''
      else endl (qr_message r))"

text \<open>\<open>std::getline(std::cin, line)\<close>: the line and the rest, or the end of the input.\<close>

definition cin_line :: "string \<Rightarrow> (string \<times> string) option" where
  "cin_line input =
     (if input = [] then None
      else Some (takeWhile (\<lambda>c. c \<noteq> CHR 0x0A) input, drop 1 (dropWhile (\<lambda>c. c \<noteq> CHR 0x0A) input)))"

lemma cin_line_shorter: "cin_line input = Some (line, rest) \<Longrightarrow> length rest < length input"
  using length_dropWhile_le [of "\<lambda>c. c \<noteq> CHR 0x0A" input]
  by (auto simp: cin_line_def split: if_splits) (metis diff_less length_greater_0_conv less_one order_less_le_trans le_less_trans diff_le_self le_neq_implies_less diff_Suc_less length_0_conv)

function cli_loop :: "sorter \<Rightarrow> Catalog \<Rightarrow> string \<Rightarrow> (string \<times> Catalog) option" where
  "cli_loop std_sort c input =
     (case cin_line input of
        None \<Rightarrow> Some (''MosaicSQL> '', c)
      | Some (line, rest) \<Rightarrow>
          if line = [] then map_option (\<lambda>(out, c'). (''MosaicSQL> '' @ out, c')) (cli_loop std_sort c rest)
          else if line = ''quit'' \<or> line = ''exit'' then Some (''MosaicSQL> '', c)
          else case execute_sql std_sort c line of
            None \<Rightarrow> None
          | Some (r, c1) \<Rightarrow>
              map_option (\<lambda>(out, c'). (''MosaicSQL> '' @ show_result r @ out, c')) (cli_loop std_sort c1 rest))"
  by pat_completeness auto
termination
  by (relation "measure (\<lambda>(f, c, input). length input)") (auto dest: cin_line_shorter)

declare cli_loop.simps [simp del]

definition banner :: string where
  "banner = endl ''MosaicDB v0.2.0 - SQL Mode''
     @ endl ''Supported: CREATE TABLE, INSERT, SELECT, UPDATE, DELETE, DROP TABLE''
     @ endl ''Meta:      SHOW TABLES, DESCRIBE <table>'' @ endl (''Type '' @ quote_value ''quit'' @ '' or '' @ quote_value ''exit'' @ '' to exit.'') @ endl []"

text \<open>\<open>main\<close>: exit code, standard output and the files that are left.\<close>

definition cli_main :: "sorter \<Rightarrow> host \<Rightarrow> string \<Rightarrow> (int \<times> string \<times> host) option" where
  "cli_main std_sort h input =
     (case engine_open h DEFAULT_MEMTABLE_THRESHOLD of
        (Inl ex, h1) \<Rightarrow> Some (1, [], h1)
      | (Inr e, h1) \<Rightarrow>
          (case cli_loop std_sort (catalog_open e) input of
             None \<Rightarrow> None
           | Some (out, c) \<Rightarrow> Some (0, banner @ out @ endl ''Goodbye.'', disk (cat_engine c))))"

section \<open>The options of the server\<close>

text \<open>
  The loop of \<open>client/server_main.cpp\<close> over its arguments: the port and the data directory to serve, the help text, or the exception of
  \<open>std::stoi\<close>, which nothing catches there.
\<close>

datatype server_args = Serve "16 word" string | Help | Uncaught

fun parse_args :: "string list \<Rightarrow> 16 word \<Rightarrow> string \<Rightarrow> server_args" where
  "parse_args [] port data_dir = Serve port data_dir"
| "parse_args [arg] port data_dir = (if arg = ''--help'' then Help else Serve port data_dir)"
| "parse_args (arg # val # args) port data_dir =
     (if arg = ''--port'' then
        (case stoi val of None \<Rightarrow> Uncaught | Some n \<Rightarrow> parse_args args (of_int n) data_dir)
      else if arg = ''--data'' then parse_args args port val
      else if arg = ''--help'' then Help
      else parse_args (val # args) port data_dir)"

definition server_options :: "string list \<Rightarrow> server_args" where
  "server_options args = parse_args args DEFAULT_PORT ''mosaicdb_data''"

text \<open>A port outside 16 bits is taken modulo \<open>2 ^ 16\<close> without a message.\<close>

lemma port_wraps:
  assumes "- (2 ^ 31) \<le> i" "i < 2 ^ 31"
  shows "\<exists>p. server_options [''--port'', int_to_string i, ''--data'', d] = Serve p d \<and> uint p = i mod 2 ^ 16"
  using assms by (simp add: server_options_def stoi_print uint_word_of_int)

section \<open>Alignment\<close>

lemma length_widen [simp]: "length (widen ws row) = length ws"
  by (induction ws row rule: widen.induct) auto

lemma widen_ge: "i < length ws \<Longrightarrow> ws ! i \<le> widen ws row ! i"
  by (induction ws row arbitrary: i rule: widen.induct) (auto simp: nth_Cons split: nat.splits)

lemma widen_value: "i < length ws \<Longrightarrow> i < length row \<Longrightarrow> length (value_to_string (row ! i)) \<le> widen ws row ! i"
  by (induction ws row arbitrary: i rule: widen.induct) (auto simp: nth_Cons split: nat.splits)

lemma foldl_widen [simp]: "length (foldl widen ws rows) = length ws"
  by (induction rows arbitrary: ws) auto

lemma foldl_widen_ge: "i < length ws \<Longrightarrow> ws ! i \<le> foldl widen ws rows ! i"
proof (induction rows arbitrary: ws)
  case (Cons row rows)
  then show ?case using widen_ge [of i ws row] Cons.IH [of "widen ws row"] by (auto intro: order_trans)
qed simp

lemma foldl_widen_value:
  "i < length ws \<Longrightarrow> row \<in> set rows \<Longrightarrow> i < length row \<Longrightarrow> length (value_to_string (row ! i)) \<le> foldl widen ws rows ! i"
proof (induction rows arbitrary: ws)
  case (Cons r rows)
  show ?case
  proof (cases "row = r")
    case True
    then show ?thesis using Cons.prems widen_value [of i ws r] foldl_widen_ge [of i "widen ws r" rows] by (auto intro: order_trans)
  next
    case False
    then show ?thesis using Cons by simp
  qed
qed simp

lemma length_cell: "length s \<le> w \<Longrightarrow> w < 2 ^ 31 \<Longrightarrow> length (cell w s) = w + 3"
  by (simp add: cell_def padded_def cast_int_small)

lemma length_concat_map: "(\<And>x. x \<in> set xs \<Longrightarrow> length (f x) = length (g x)) \<Longrightarrow> length (concat (map f xs)) = length (concat (map g xs))"
  by (induction xs) auto

lemma sep_line_index: "sep_line ws = ''+'' @ concat (map (\<lambda>i. replicate (ws ! i + 2) (CHR ''-'') @ ''+'') [0..<length ws])"
  unfolding sep_line_def by (subst (1) map_nth [of ws, symmetric]) (simp add: comp_def del: map_nth)

lemma zip_index: "length ws = length hs \<Longrightarrow> map (\<lambda>(w, h). f w h) (zip ws hs) = map (\<lambda>i. f (ws ! i) (hs ! i)) [0..<length ws]"
  by (rule nth_equalityI) auto

text \<open>
  C40: printed tables are aligned. For a result in which every row has a value for each column, all lines that \<open>print_table\<close>
  writes, borders, header and rows, have the same length, as long as no width reaches \<open>2 ^ 31\<close>.
\<close>

theorem print_table_aligned:
  assumes "headers \<noteq> []" "list_all (\<lambda>row. length row = length headers) rows" "list_all (\<lambda>w. w < 2 ^ 31) (table_widths headers rows)"
  shows "\<forall>l \<in> set (table_lines headers rows). length l = 1 + sum_list (map (\<lambda>w. w + 3) (table_widths headers rows))"
proof -
  let ?ws = "table_widths headers rows"
  have n: "length ?ws = length headers" by (simp add: table_widths_def)
  have small: "?ws ! i < 2 ^ 31" if "i < length headers" for i using that assms(3) n by (simp add: list_all_length)
  have sep: "length (sep_line ?ws) = 1 + sum_list (map (\<lambda>w. w + 3) ?ws)"
    by (simp add: sep_line_def length_concat comp_def eval_nat_numeral)
  have h: "length (''|'' @ concat (map (\<lambda>(w, h). cell w h) (zip ?ws headers))) = length (sep_line ?ws)"
    unfolding sep_line_index zip_index [OF n] using small foldl_widen_ge [of _ "map length headers" rows] n
    by (auto intro!: length_concat_map simp: length_cell table_widths_def)
  have r: "length (row_line ?ws row) = length (sep_line ?ws)" if "row \<in> set rows" for row
  proof -
    have "length row = length headers" using assms(2) that by (simp add: list_all_iff)
    then show ?thesis
      unfolding sep_line_index row_line_def using small foldl_widen_value [of _ "map length headers" row rows] n that
      by (auto intro!: length_concat_map simp: length_cell table_widths_def)
  qed
  show ?thesis using sep h r assms(1) by (auto simp: table_lines_def Let_def)
qed

theorem print_table_aligned_witness:
  "list_all (\<lambda>l. length l = 16) (table_lines [''id'', ''name''] [[make_text ''12345'', make_bool True], [make_null CtINT, make_text ''x'']])"
proof -
  let ?rows = "[[make_text ''12345'', make_bool True], [make_null CtINT, make_text ''x'']]"
  have w: "table_widths [''id'', ''name''] ?rows = [5, 4]"
    by (simp add: table_widths_def value_to_string_def value_makers)
  show ?thesis using print_table_aligned [of "[''id'', ''name'']" ?rows] by (simp add: w list_all_iff)
qed

end
