(* ===== verification/Server_Main.thy ===== *)
theory Server_Main
  imports Server_Lifecycle Cli
begin

text \<open>
  \<open>main\<close> of \<open>client/server_main.cpp\<close> up to its wait loop, and the check of that loop. The data directory is chosen by the options,
  so the files are given for every directory. The results of \<open>socket\<close>, \<open>bind\<close> and \<open>listen\<close> are arguments, as in \<open>server_start\<close>.
\<close>

section \<open>Starting the process\<close>

datatype boot = Exits int | Throws | Waits "16 word" ServerProc

definition server_boot :: "string list \<Rightarrow> (string \<Rightarrow> host) \<Rightarrow> bool \<Rightarrow> bool \<Rightarrow> bool \<Rightarrow> boot \<times> (string \<Rightarrow> host)" where
  "server_boot args dirs socket_ok bind_ok listen_ok =
     (case server_options args of
        Uncaught \<Rightarrow> (Throws, dirs)
      | Help \<Rightarrow> (Exits 0, dirs)
      | Serve port data_dir \<Rightarrow>
          (case engine_open (dirs data_dir) DEFAULT_MEMTABLE_THRESHOLD of
             (Inl ex, h) \<Rightarrow> (Exits 1, dirs(data_dir := h))
           | (Inr e, h) \<Rightarrow>
               (Waits port (server_start socket_ok bind_ok listen_ok (server_init (catalog_open e))), dirs(data_dir := h))))"

text \<open>One round of the wait loop: \<open>main\<close> goes on waiting while the server runs; when it does not, it leaves the loop
  and returns 0 after the destructor of the server has called \<open>stop()\<close>.\<close>

definition main_wait :: "16 word \<Rightarrow> ServerProc \<Rightarrow> boot" where
  "main_wait port S = (if sp_running S then Waits port S else Exits 0)"

section \<open>What the process has when it waits\<close>

lemma server_boot_waits:
  assumes "server_boot args dirs so bo lo = (Waits port S, dirs')"
  obtains d e h where "server_options args = Serve port d" "engine_open (dirs d) DEFAULT_MEMTABLE_THRESHOLD = (Inr e, h)"
    "S = server_start so bo lo (server_init (catalog_open e))" "dirs' = dirs(d := h)"
  using assms by (fastforce simp: server_boot_def split: server_args.splits prod.splits sum.splits)

text \<open>The server that \<open>main\<close> waits for is in a state of the lifecycle, so what is shown of those states holds of the process.\<close>

lemma server_boot_reachable:
  assumes "server_boot args dirs so bo lo = (Waits port S, dirs')"
  shows "reachable std_sort close_wakes (sp_db S) S"
proof -
  from assms obtain e where S: "S = server_start so bo lo (server_init (catalog_open e))" by (rule server_boot_waits)
  have db: "sp_db S = catalog_open e" by (simp add: S server_start_def server_init_def)
  have "server_step std_sort close_wakes (server_init (catalog_open e)) S"
    unfolding S by (rule server_step.start) (simp_all add: server_init_def)
  then show ?thesis unfolding db by (rule reachable_server [OF reachable.init])
qed

text \<open>\<open>main\<close> waits as long as the server runs: it leaves at once when the start failed, and after \<open>stop()\<close> has begun.\<close>

lemma main_leaves_after_stop:
  assumes "reachable std_sort close_wakes c S" "sp_stop S \<noteq> NotStopping"
  shows "main_wait port S = Exits 0"
  using reachable_inv [OF assms(1)] assms(2) by (simp add: main_wait_def server_inv_def)

lemma main_leaves_failed_start:
  assumes "server_boot args dirs so bo lo = (Waits port S, dirs')"
  shows "main_wait port S = (if so \<and> bo \<and> lo then Waits port S else Exits 0)"
proof -
  from assms obtain e where "S = server_start so bo lo (server_init (catalog_open e))" by (rule server_boot_waits)
  then show ?thesis by (simp add: main_wait_def server_start_def server_init_def)
qed

end
