(* ===== verification/Spec2Isabelle.thy ===== *)
theory Spec2Isabelle
  imports Engine_Crash Server_Instances Server_Main
begin

text \<open>
  A verification of MosaicDB, a small relational database in C++ over a log-structured key-value store.

  \<^bold>\<open>The program and its model.\<close> SQL texts reach the executor from the interactive shell or over TCP. The executor
  keeps schemas and rows as entries of the key-value engine; the engine writes every change to a log, collects
  them in a table in memory, flushes that to sorted tables on disk and merges these from time to time. The theories
  follow the source files, bottom up:

  \<^item> \<open>Prelude\<close>: bytes, words, strings, ordered maps (\<open>std::map\<close> as \<open>smap\<close>). \<open>Decimal\<close>: decimal digits.
  \<^item> \<open>Common\<close>: \<open>include/mosaicdb/common.h\<close>, status codes, little-endian codecs, CRC-32 against polynomial division.
  \<^item> \<open>Host\<close>: the operating system: files, and a script of answers by which any system call can fail or be short.
  \<^item> \<open>Wal\<close>: \<open>src/storage/wal.cpp\<close>. \<open>Memtable\<close>: \<open>src/storage/memtable.cpp\<close>. \<open>Bloom\<close>: \<open>src/index/bloom_filter.cpp\<close>.
  \<^item> \<open>Sstable\<close>, \<open>Sstable_Correct\<close>, \<open>Sstable_Reader\<close>: \<open>src/storage/sstable.cpp\<close>, writer and reader at byte level.
  \<^item> \<open>Compaction\<close>: \<open>src/compaction/compaction.cpp\<close>.
  \<^item> \<open>Engine\<close> with \<open>Engine_Correct\<close>, \<open>Engine_Recovery\<close>, \<open>Engine_Crash\<close>: \<open>src/engine/storage_engine.cpp\<close>; the locale \<open>kv_store\<close>
    is what the engine promises its clients.
  \<^item> \<open>Values\<close>: \<open>include/mosaicdb/types.h\<close>. \<open>Schema\<close>: \<open>include/mosaicdb/schema.h\<close> and \<open>src/relational/row.cpp\<close>.
    \<open>Catalog\<close>: \<open>src/relational/catalog.cpp\<close>.
  \<^item> \<open>Query\<close>: \<open>src/query/query.cpp\<close>. \<open>Tokenizer\<close>: \<open>src/sql/sql_tokenizer.cpp\<close>. \<open>Numbers\<close>: the conversions of the C++ library it
    and the executor use. \<open>Parser\<close>, \<open>Parser_Correct\<close>: \<open>src/sql/sql_parser.cpp\<close>.
  \<^item> \<open>Executor\<close> with \<open>Executor_Correct\<close>, \<open>Executor_Properties\<close>, \<open>Executor_Witnesses\<close>: \<open>src/sql/executor.cpp\<close>. \<open>Std_Sort\<close>: the promise
    of \<open>std::sort\<close> and a function that keeps it.
  \<^item> \<open>Server\<close>, \<open>Client\<close>, \<open>Server_Correct\<close>, \<open>Server_Threads\<close>: the protocol and the client threads of \<open>src/network/server.cpp\<close>, and
    \<open>client/mosaic_client.py\<close>; \<open>Server_Instances\<close>: an SQL text over the network. \<open>Server_Lifecycle\<close>: \<open>start\<close>, \<open>stop\<close> and the accepting thread, as a step relation on the threads.
    \<open>Server_Main\<close>: \<open>main\<close> of \<open>client/server_main.cpp\<close>.
  \<^item> \<open>Cli\<close>: \<open>client/cli.cpp\<close> and the options of \<open>client/server_main.cpp\<close>.

  Objects are records, and a method is a function that takes the record and returns it updated beside its result. The
  executor refers to the catalog and the catalog to the engine, so a \<open>Catalog\<close> holds its engine and is the state of
  the SQL layer. Exceptions are the left side of a sum. \<open>None\<close> as the result of an executor or server operation stands for
  behaviour that C++ leaves undefined: a row that does not decode, a double that does not fit an integer, a sort by values that do not
  compare; the properties say when it does not happen. \<open>std::sort\<close> is an argument of \<open>SELECT\<close> with the promise of the
  standard, \<open>std_sort_ok\<close>. A crash of the process is a script of system calls from some point of which on no call has an effect; running an
  operation on it gives the files that are left.

  The interfaces are locales, each interpreted on the definitions of the model: \<open>durable_log\<close> (the log), \<open>sorted_run\<close> (the table
  in memory and the tables on disk), \<open>membership_filter\<close> (the Bloom filter), \<open>kv_store\<close> (the engine), \<open>counted_list\<close> (the list
  encodings of schemas, rows and SQL answers), \<open>paren_loop\<close> and \<open>comma_loop\<close> (the list loops of the parser).

  \<^bold>\<open>What is shown.\<close>
  \<^item> The log recovers exactly the whole records before a torn tail, an append is atomic under any failure of the system
    calls, and a changed byte is found. Tables read back as written by every access path; the Bloom filter has no
    false negatives; the binary search agrees with a linear one; the memory table keeps its byte count.
  \<^item> The engine refines a durable map under writes, flushes, compactions and restarts, also when the
    process dies anywhere in a flush, or in a compaction before its first input is removed; a crash after that can bring deleted keys
    back, \<open>crash_mid_removal_resurrects\<close>.
  \<^item> Schemas and rows read back from their bytes; creating and dropping tables keeps cache and store in agreement.
  \<^item> The lexer and the parser read back the text of every statement and the lexer ends on every input. \<open>INSERT\<close>, \<open>SELECT\<close>, \<open>UPDATE\<close> and
    \<open>DELETE\<close> do exactly what they say to the rows that scans reach and leave every other entry of the store alone, and keep the
    column types. Scans end at the marker \<open>'~'\<close>: rows whose key sorts beyond it (one that starts with \<open>'~'\<close> and goes on, or with a byte
    outside ASCII) are stored and no statement but \<open>INSERT\<close> sees them.
  \<^item> Over the network a key-value session answers as a map and an SQL answer decodes to the result of the
    statement; several clients that take turns share one map, and under a fair schedule all are answered. No thread of the server outlives
    \<open>stop()\<close>, whatever the order in which the threads move. \<open>stop()\<close> returns within a bounded number of steps unless a client that stays
    connected and silent keeps its thread in \<open>recv\<close>, on a system where closing a socket wakes a blocked \<open>accept\<close>; both ways to
    hang are shown. While the server runs, the steps are the turns of the clients.
  \<^item> In this theory: rows survive a crash, and what a \<open>SELECT\<close> text returns after an \<open>INSERT\<close> text and a restart.

  \<^bold>\<open>Bounds.\<close> A key may have 10 MB and a value 100 MB, the limits of log recovery and of the protocol. \<open>engine_ok n\<close> says that
  there is room for \<open>n\<close> more writes: the engine then holds at most 429496728 entries, the most for which the size of a Bloom filter
  fits 32 bits, and the numbers of tables stay below \<open>2 ^ 64\<close>. Responses stay below 2 GB, where a cast to \<open>int\<close> still
  keeps the length. No definition uses fuel: every loop is a total function with a measure. The number conversions
  are those of glibc and libstdc++ on x86-64, and doubles are their IEEE 754 bits.

  \<^bold>\<open>Not modelled.\<close> Requests that overlap in time: readers take no lock against writers, and what they then do is undefined in
  C++; a step of a client thread is a whole request. A power loss that loses what completed calls wrote: tables are not synchronised
  to the disk before the log is emptied. Two calls of \<open>stop()\<close> at the same time, which join the same threads
  twice. The addresses and options of the sockets, signal handling and log output are calls of the system without logic of
  their own. Of the Python client, the conversion between text and UTF-8. The
  visualizer and its proxy forward texts only. Calls of the Windows system behind \<open>#ifdef\<close> are not considered.
\<close>

section \<open>Restarting the database\<close>

text \<open>
  Opening a database: the engine on the files of the data directory, then the catalog over it, as the shell and
  the server do.
\<close>

definition database_open :: "host \<Rightarrow> u64 \<Rightarrow> (exn + Catalog) \<times> host" where
  "database_open h threshold =
     (case engine_open h threshold of (Inl ex, h1) \<Rightarrow> (Inl ex, h1) | (Inr e, h1) \<Rightarrow> (Inr (catalog_open e), h1))"

text \<open>The tables that a catalog can load again: their names sort up to the end marker of the scan.\<close>

definition loadable :: "Catalog \<Rightarrow> bool" where
  "loadable c \<longleftrightarrow> (\<forall>t \<in> set (map fst (cache c)). t \<le> ''~'')"

lemma distinct_load_cache: "distinct (map fst (load_cache e))"
proof -
  have "distinct (map fst c) \<Longrightarrow> distinct (map fst (load_entry kv c))" for kv c
    by (simp add: load_entry_def distinct_update split: option.split)
  then have "distinct (map fst c) \<Longrightarrow> distinct (map fst (fold load_entry kvs c))" for kvs c
    by (induction kvs arbitrary: c) simp_all
  then show ?thesis by (simp add: load_cache_def)
qed

lemma catalog_reopen:
  assumes ok: "catalog_ok (Suc n) c" and load: "loadable c"
  shows "\<exists>c'. database_open (disk (cat_engine c)) threshold = (Inr c', disk (cat_engine c')) \<and> catalog_ok n c'
    \<and> map_of (cache c') = map_of (cache c) \<and> view (cat_engine c') = view (cat_engine c)"
proof -
  let ?e = "cat_engine c"
  have "engine_core ?e" "room n (Suc (2 * n)) ?e" using ok by (auto simp: catalog_ok_def engine_ok_def room_def)
  then obtain e where e: "engine_open (disk ?e) threshold = (Inr e, disk e)" "engine_ok n e" "view e = view ?e"
    using engine_open_ok by (metis engine_ok_def)
  define c' where "c' = c\<lparr>cat_engine := e\<rparr>"
  have ok': "catalog_ok n c'" using ok e(2,3) by (simp add: catalog_ok_def c'_def)
  have "t \<le> ''~''" if "map_of (cache c) t = Some s" for t s
    using load map_of_SomeD [OF that] by (force simp: loadable_def)
  then have m: "map_of (cache (catalog_open e)) t = map_of (cache c) t" for t
    using catalog_reload [OF ok', of t] by (cases "map_of (cache c) t") (auto simp: c'_def)
  then have "map_of (cache (catalog_open e)) = map_of (cache c)" by (rule ext)
  note m = this
  then have "catalog_ok n (catalog_open e)"
    using ok' by (simp add: catalog_ok_def c'_def catalog_open_def distinct_load_cache)
  then show ?thesis using e(1,3) m by (simp add: database_open_def catalog_open_def)
qed

text \<open>
  What SQL wrote survives a crash: opening the database again gives a sound database with the same schemas and the same
  rows under the same keys.
\<close>

lemma table_reopen:
  assumes ok: "table_ok (Suc n) c schema" and load: "loadable c"
  shows "\<exists>c'. database_open (disk (cat_engine c)) threshold = (Inr c', disk (cat_engine c')) \<and> table_ok n c' schema
    \<and> map_of (cache c') = map_of (cache c) \<and> view (cat_engine c') = view (cat_engine c) \<and> table_map c' schema = table_map c schema"
proof -
  have "catalog_ok (Suc n) c" using ok by (simp add: table_ok_def)
  from catalog_reopen [OF this load] obtain c' where c': "database_open (disk (cat_engine c)) threshold = (Inr c', disk (cat_engine c'))"
    "catalog_ok n c'" "map_of (cache c') = map_of (cache c)" "view (cat_engine c') = view (cat_engine c)" by blast
  then have "table_ok n c' schema" "table_map c' schema = table_map c schema"
    using ok by (simp_all add: table_ok_def table_map_def fun_eq_iff)
  with c' show ?thesis by blast
qed

text \<open>
  A server that is started without options on the files a sound database left in its default directory serves that database on the
  default port: it waits for clients with the same schemas and the same rows, and has room for as many writes less one.
\<close>

lemma server_boot_serves:
  assumes "table_ok (Suc n) c schema" "loadable c" "dirs ''mosaicdb_data'' = disk (cat_engine c)"
  shows "\<exists>S dirs'. server_boot [] dirs True True True = (Waits DEFAULT_PORT S, dirs') \<and> main_wait DEFAULT_PORT S = Waits DEFAULT_PORT S
    \<and> reachable std_sort close_wakes (sp_db S) S \<and> table_ok n (sp_db S) schema \<and> table_map (sp_db S) schema = table_map c schema"
proof -
  obtain c' where c': "database_open (disk (cat_engine c)) DEFAULT_MEMTABLE_THRESHOLD = (Inr c', disk (cat_engine c'))"
    "table_ok n c' schema" "table_map c' schema = table_map c schema"
    using table_reopen [OF assms(1,2)] by blast
  let ?S = "server_start True True True (server_init c')"
  have boot: "server_boot [] dirs True True True = (Waits DEFAULT_PORT ?S, dirs(''mosaicdb_data'' := disk (cat_engine c')))"
    using c'(1) assms(3) by (auto simp: server_boot_def server_options_def database_open_def split: prod.splits sum.splits)
  have "sp_db ?S = c'" by (simp add: server_start_def server_init_def)
  then show ?thesis using boot server_boot_reachable [OF boot] main_leaves_failed_start [OF boot] c'(2,3) by auto
qed

section \<open>SQL texts\<close>

text \<open>The text of \<open>SELECT * FROM t\<close> and what it returns.\<close>

definition select_all :: "string \<Rightarrow> SelectStmt" where
  "select_all t = \<lparr>sel_table_name = t, sel_columns = [], sel_all = True, sel_where = no_where, sel_order_by = [], sel_order_desc = False, sel_limit = -1\<rparr>"

lemma exec_select_all:
  assumes "table_ok n c schema"
  shows "\<exists>r. exec_select std_sort c (select_all (table_name schema)) = Some (r, c) \<and> \<not> is_error r
    \<and> qr_column_names r = map col_name (columns schema) \<and> qr_rows r = map snd (table_list c schema)"
proof -
  let ?s = "select_all (table_name schema)"
  have w: "hits no_where schema row" "safe_where no_where" for row by (simp_all add: hits_def evaluate_where_def safe_where_def no_where_def)
  have "map ((!) row) [0..<length (columns schema)] = row" if "(pk, row) \<in> set (table_list c schema)" for pk row
  proof -
    have "length (columns schema) = length row" using table_scan_list(2) [OF assms] that by (auto simp: row_ok_def)
    then show ?thesis by (simp add: map_nth)
  qed
  then have rows: "asked_rows c schema ?s = map snd (table_list c schema)"
    using w by (auto simp: asked_rows_def select_all_def sel_indices_def all_columns_def)
  have "exec_select std_sort c ?s = map_option (\<lambda>r. (r, c)) (finish_select std_sort ?s (sel_names schema ?s) (asked_rows c schema ?s))"
    by (rule exec_select_run [OF assms]) (simp_all add: select_all_def all_columns_def w)
  then show ?thesis unfolding rows by (simp add: finish_select_def is_error_def select_all_def sel_names_def all_columns_def)
qed

section \<open>Properties of the database\<close>

text \<open>
  C1: from text to text over a crash. The text of an \<open>INSERT\<close> with a new key, executed on a sound database whose table names can be
  loaded (they sort up to \<open>'~'\<close>), reports success, and the table then has its old rows and the new one. After a crash and a restart the
  table still has them, and the text \<open>SELECT * FROM t\<close> returns, each once and in key order, those whose key sorts up to \<open>'~'\<close>,
  where the scan ends; a row under a key beyond it, old or new, is stored and not returned. Parser, executor, catalog, engine,
  log and recovery work together here.
\<close>

theorem insert_restart_select:
  assumes ok: "table_ok (Suc (Suc n)) c schema" and load: "loadable c" and key: "keyed schema"
    and stmt: "statement_ok lit (Insert stmt)" "ins_table_name stmt = table_name schema"
    and vals: "list_all value_ok (ins_values stmt)" "list_all safe_value (ins_values stmt)"
    and pk: "pk = format_pk (insert_row schema stmt ! pk_index schema)"
    and fits: "small_entry (row_key (table_name schema) pk, Some (row_serialize schema (insert_row schema stmt)))"
    and valid: "insert_valid schema stmt" and new: "view (cat_engine c) (row_key (table_name schema) pk) = None"
  shows "\<exists>c1 c2 r. execute_sql std_sort c (words_text (statement_words lit (Insert stmt))) = Some (qr_ok ''1 row inserted.'', c1)
    \<and> database_open (disk (cat_engine c1)) threshold = (Inr c2, disk (cat_engine c2))
    \<and> execute_sql std_sort c2 (words_text (statement_words lit (Select (select_all (table_name schema))))) = Some (r, c2)
    \<and> table_map c2 schema = (table_map c schema)(pk \<mapsto> insert_row schema stmt)
    \<and> (\<exists>rows. smap_wf rows \<and> map_of rows = table_map c2 schema |` {pk. pk \<le> ''~''} \<and> qr_rows r = map snd rows)"
proof -
  note I = exec_insert_new [OF ok key stmt(2) vals fits [unfolded pk] valid]
  obtain c1 where c1: "exec_insert c stmt = Some (qr_ok ''1 row inserted.'', c1)" "table_ok (Suc n) c1 schema" "cache c1 = cache c"
    "view (cat_engine c1) = (view (cat_engine c))(row_key (table_name schema) pk \<mapsto> row_serialize schema (insert_row schema stmt))"
    using I(2) new pk by auto
  have "loadable c1" using load c1(3) by (simp add: loadable_def)
  then obtain c2 where c2: "database_open (disk (cat_engine c1)) threshold = (Inr c2, disk (cat_engine c2))" "table_ok n c2 schema"
    "table_map c2 schema = table_map c1 schema"
    using table_reopen [OF c1(2)] by blast
  have m: "table_map c2 schema = (table_map c schema)(pk \<mapsto> insert_row schema stmt)"
    using table_map_put [OF c1(4) I(1)] c2(3) by simp
  have "scan_map c2 schema = table_map c2 schema |` {pk. pk \<le> ''~''}" by (auto simp: scan_map_def restrict_map_def fun_eq_iff)
  then have rows: "smap_wf (table_list c2 schema)" "map_of (table_list c2 schema) = table_map c2 schema |` {pk. pk \<le> ''~''}"
    using table_list_map [OF c2(2)] by simp_all
  have sel: "statement_ok lit (Select (select_all (table_name schema)))"
    using stmt by (simp add: select_all_def select_ok_def where_ok_def no_where_def names_ok_def)
  obtain r where "exec_select std_sort c2 (select_all (table_name schema)) = Some (r, c2)" "qr_rows r = map snd (table_list c2 schema)"
    using exec_select_all [OF c2(2)] by blast
  then show ?thesis
    unfolding execute_text [OF stmt(1)] execute_text [OF sel] execute_def Statement.case using c1(1) c2(1) rows m by blast
qed

theorem insert_restart_select_witness:
  "\<exists>c c1 c2 r. execute_sql isort c (words_text (statement_words std_literal (Insert ex_insert))) = Some (qr_ok ''1 row inserted.'', c1)
     \<and> database_open (disk (cat_engine c1)) 4096 = (Inr c2, disk (cat_engine c2))
     \<and> execute_sql isort c2 (words_text (statement_words std_literal (Select (select_all ''t'')))) = Some (r, c2) \<and> qr_rows r = [ex_row]"
proof -
  obtain c where c0: "table_ok 900 c ex_schema" and new: "\<forall>pk. view (cat_engine c) (row_key ''t'' pk) = None"
    and names: "set (map fst (cache c)) = {''t''}"
    by (rule ex_created_table)
  have c: "table_ok (Suc (Suc 800)) c ex_schema" "loadable c"
    using table_ok_mono [OF c0, of "Suc (Suc 800)"] names by (simp_all add: loadable_def)
  have "names_ok [''t'']" by code_simp
  then have ok: "statement_ok std_literal (Insert ex_insert)" by (simp add: ex_insert_def ex_row_def literals_ok_def std_literal_ok)
  have i: "insert_valid ex_schema ex_insert" by code_simp
  have k: "''0000000005'' = format_pk (insert_row ex_schema ex_insert ! pk_index ex_schema)"
    by (simp add: ex_insert_row ex_row_def ex_key)
  have v: "ins_table_name ex_insert = table_name ex_schema" "list_all value_ok (ins_values ex_insert)" "list_all safe_value (ins_values ex_insert)"
    using ex_row_ok by (simp_all add: ex_insert_def)
  have f: "small_entry (row_key (table_name ex_schema) ''0000000005'', Some (row_serialize ex_schema (insert_row ex_schema ex_insert)))"
    "view (cat_engine c) (row_key (table_name ex_schema) ''0000000005'') = None"
    using ex_fits new by (simp_all add: ex_insert_row)
  have m: "table_map c ex_schema = Map.empty" using new by (simp add: table_map_def fun_eq_iff)
  have "[''0000000005'' \<mapsto> ex_row] |` {pk. pk \<le> ''~''} = [''0000000005'' \<mapsto> ex_row]"
    by (auto simp: restrict_map_def fun_eq_iff less_eq_list_code)
  then have one: "rows = [(''0000000005'', ex_row)]" if "smap_wf rows" "map_of rows = [''0000000005'' \<mapsto> ex_row] |` {pk. pk \<le> ''~''}" for rows
    by (intro smap_eqI [OF that(1)]) (simp_all add: smap_wf_Cons that(2))
  show ?thesis
    using insert_restart_select [OF c ex_columns(8) ok v k f(1) i f(2), of isort 4096] one unfolding m ex_insert_row ex_columns(5) by fastforce
qed

end
